(* ===== verification/RT_Prelude.thy ===== *)
theory RT_Prelude
  imports Main "HOL-Library.Word"
begin

text \<open>
  What the theories of the development share: the kernel's integer types at their width, the
  result type of a C function that may stop in an assertion or in a wild pointer, and generic
  facts on lists, function updates and words.

  The kernel is compiled with \<^verbatim>\<open>RT_DEBUG\<close> (\<^verbatim>\<open>src/bsp/tm4c129x/rtconfig.h\<close>), so \<^verbatim>\<open>RT_ASSERT\<close> is
  active: a failed assertion does not return. \<open>Fault\<close> is that outcome, and the outcome of an
  \<^verbatim>\<open>rt_list_entry\<close> on a node that is not embedded in the expected structure.
\<close>

unbundle bit_operations_syntax

section \<open>Integer types\<close>

type_synonym u8 = "8 word"
type_synonym u16 = "16 word"
type_synonym u32 = "32 word"

section \<open>Results\<close>

datatype fault =
    Assert_Failed    \<comment> \<open>\<^verbatim>\<open>RT_ASSERT\<close> stopped the system\<close>
  | Bad_Entry        \<comment> \<open>\<^verbatim>\<open>rt_list_entry\<close> of a node not embedded in that structure\<close>
  | Null_Pointer     \<comment> \<open>a member of a null pointer is read\<close>
  | Out_Of_Range     \<comment> \<open>an array is indexed outside its bounds\<close>
  | Stack_Overflow   \<comment> \<open>the scheduler's stack check spins forever\<close>
  | Diverges         \<comment> \<open>a loop that never ends\<close>

named_theorems res_simps \<open>unfolding the result plumbing\<close>

datatype 'a res = Ok 'a | Fault fault

primrec rbind :: "'a res \<Rightarrow> ('a \<Rightarrow> 'b res) \<Rightarrow> 'b res" where
  "rbind (Ok x) f = f x"
| "rbind (Fault e) f = Fault e"

definition rassert :: "bool \<Rightarrow> 'a \<Rightarrow> 'a res" where
  "rassert b x = (if b then Ok x else Fault Assert_Failed)"

text \<open>A loop as a partial function: \<open>None\<close> is the loop that never ends.\<close>

definition loop_res :: "'a res option \<Rightarrow> 'a res" where
  "loop_res r = (case r of None \<Rightarrow> Fault Diverges | Some x \<Rightarrow> x)"

lemma loop_res_Some [simp]: "loop_res (Some x) = x"
  by (simp add: loop_res_def)

lemma rbind_eq_Ok [simp]: "rbind r f = Ok y \<longleftrightarrow> (\<exists>x. r = Ok x \<and> f x = Ok y)"
  by (cases r) auto

lemma rbind_eq_Fault: "rbind r f = Fault e \<longleftrightarrow> r = Fault e \<or> (\<exists>x. r = Ok x \<and> f x = Fault e)"
  by (cases r) auto

lemma rbind_assoc [res_simps]: "rbind (rbind r f) g = rbind r (\<lambda>x. rbind (f x) g)"
  by (cases r) auto

lemma rassert_eq_Ok [simp]: "rassert b x = Ok y \<longleftrightarrow> b \<and> y = x"
  by (auto simp: rassert_def)

lemma rassert_True [simp]: "rassert True x = Ok x"
  by (simp add: rassert_def)

lemma rassert_False [simp]: "rassert False x = Fault Assert_Failed"
  by (simp add: rassert_def)

lemmas [res_simps] = rbind.simps rassert_def

section \<open>Lists\<close>

lemma remove1_split: "n \<notin> set xs \<Longrightarrow> remove1 n (xs @ n # ys) = xs @ ys"
  by (simp add: remove1_append)

lemma distinct_split_unique:
  assumes "distinct (xs @ n # ys)" "xs @ n # ys = xs' @ n # ys'"
  shows "xs = xs' \<and> ys = ys'"
proof -
  have "n \<notin> set xs" "n \<notin> set xs'"
    using assms by (auto dest: arg_cong [of _ _ distinct])
  then show ?thesis
    using assms(2) by (metis append_Cons_eq_iff assms(1) distinct.simps(2) distinct_append
        not_distinct_conv_prefix)
qed

section \<open>Ring buffers in an array\<close>

text \<open>The \<open>n\<close> elements of the array \<open>xs\<close> from index \<open>k\<close> on, wrapping around at its end.\<close>

definition ring :: "'a list \<Rightarrow> nat \<Rightarrow> nat \<Rightarrow> 'a list" where
  "ring xs k n = map (\<lambda>j. xs ! ((k + j) mod length xs)) [0..<n]"

lemma length_ring [simp]: "length (ring xs k n) = n"
  by (simp add: ring_def)

lemma ring_0 [simp]: "ring xs k 0 = []"
  by (simp add: ring_def)

lemma ring_nth [simp]: "j < n \<Longrightarrow> ring xs k n ! j = xs ! ((k + j) mod length xs)"
  by (simp add: ring_def)

lemma ring_slot_unique:
  assumes "k < m" "i < n" "j < n" "n \<le> m" "(k + i) mod m = (k + j) mod m"
  shows "i = (j :: nat)"
proof -
  have lt: "(if k + i < m then k + i else k + i - m) < m" "(if k + j < m then k + j else k + j - m) < m"
    using assms by (auto split: if_splits)
  have "(k + i) mod m = (if k + i < m then k + i else k + i - m)"
    using assms lt(1) by (auto simp: mod_if le_mod_geq split: if_splits)
  moreover have "(k + j) mod m = (if k + j < m then k + j else k + j - m)"
    using assms lt(2) by (auto simp: mod_if le_mod_geq split: if_splits)
  ultimately show ?thesis using assms by (auto split: if_splits)
qed

lemma ring_put:
  assumes "k < length xs" "n < length xs"
  shows "ring (xs[(k + n) mod length xs := v]) k (Suc n) = ring xs k n @ [v]"
proof (rule nth_equalityI)
  fix j assume j: "j < length (ring (xs[(k + n) mod length xs := v]) k (Suc n))"
  show "ring (xs[(k + n) mod length xs := v]) k (Suc n) ! j = (ring xs k n @ [v]) ! j"
  proof (cases "j < n")
    case True
    then have "(k + j) mod length xs \<noteq> (k + n) mod length xs"
      using ring_slot_unique [OF assms(1), of j "Suc n" n] assms(2) by auto
    then show ?thesis using True j by (simp add: nth_append)
  next
    case False
    then have "j = n" using j by simp
    moreover have "(k + n) mod length xs < length xs" using assms(1) by (intro mod_less_divisor) linarith
    ultimately show ?thesis by (simp add: nth_append)
  qed
qed simp

lemma ring_get:
  assumes "0 < n" "k < length xs"
  shows "ring xs k n = xs ! k # ring xs ((k + 1) mod length xs) (n - 1)"
proof (rule nth_equalityI)
  fix j assume j: "j < length (ring xs k n)"
  show "ring xs k n ! j = (xs ! k # ring xs ((k + 1) mod length xs) (n - 1)) ! j"
    using j assms by (cases j) (simp_all add: mod_add_left_eq)
qed (use assms in simp)

section \<open>Single bits of a flag byte\<close>

lemma flag_bit_0: "(x :: u8) AND 1 \<noteq> 0 \<longleftrightarrow> bit x 0"
  by (simp add: and_one_eq odd_iff_mod_2_eq_one [symmetric] bit_0)

lemma flag_bit_1: "(x :: u8) AND 2 \<noteq> 0 \<longleftrightarrow> bit x 1"
  using and_exp_eq_0_iff_not_bit [of x 1] by simp

lemma flag_bit_2: "(x :: u8) AND 4 \<noteq> 0 \<longleftrightarrow> bit x 2"
  using and_exp_eq_0_iff_not_bit [of x 2] by simp

lemma bit_1_u8: "bit (1 :: u8) i \<longleftrightarrow> i = 0"
  by (simp add: bit_1_iff)

lemma bit_2_u8: "bit (2 :: u8) i \<longleftrightarrow> i = 1"
  using bit_exp_iff [of 1 i, where ?'a = u8] by auto

lemma bit_4_u8: "bit (4 :: u8) i \<longleftrightarrow> i = 2"
  using bit_exp_iff [of 2 i, where ?'a = u8] by auto

lemmas flag_bits = flag_bit_0 flag_bit_1 flag_bit_2 bit_1_u8 bit_2_u8 bit_4_u8
  bit_and_iff bit_or_iff bit_not_iff

end
