(* ===== verification/RT_List.thy ===== *)
theory RT_List
  imports RT_Prelude
begin

text \<open>
  The intrusive lists of \<^verbatim>\<open>src/include/rtservice.h\<close>. The memory that the list nodes occupy is a
  pair of link functions; every operation performs the assignments of the C inline function in
  its order, so that aliasing between its arguments has the effect it has in C. The second half
  relates the rings of links to lists: \<open>lists_wf H s F\<close> says that every head \<open>h \<in> H\<close> carries
  the list \<open>F h\<close>, and the locale \<open>list_store\<close> is the contract its clients use.
\<close>

section \<open>Doubly linked lists: the operations\<close>

record 'n links =
  lnext :: "'n \<Rightarrow> 'n"
  lprev :: "'n \<Rightarrow> 'n"

abbreviation set_next :: "'n \<Rightarrow> 'n \<Rightarrow> 'n links \<Rightarrow> 'n links" where
  "set_next x y s \<equiv> s\<lparr>lnext := (lnext s)(x := y)\<rparr>"

abbreviation set_prev :: "'n \<Rightarrow> 'n \<Rightarrow> 'n links \<Rightarrow> 'n links" where
  "set_prev x y s \<equiv> s\<lparr>lprev := (lprev s)(x := y)\<rparr>"

definition rt_list_init :: "'n \<Rightarrow> 'n links \<Rightarrow> 'n links" where
  "rt_list_init l s = set_next l l (set_prev l l s)"

definition rt_list_insert_after :: "'n \<Rightarrow> 'n \<Rightarrow> 'n links \<Rightarrow> 'n links" where
  "rt_list_insert_after l n s =
     (let s = set_prev (lnext s l) n s;
          s = set_next n (lnext s l) s;
          s = set_next l n s
      in set_prev n l s)"

definition rt_list_insert_before :: "'n \<Rightarrow> 'n \<Rightarrow> 'n links \<Rightarrow> 'n links" where
  "rt_list_insert_before l n s =
     (let s = set_next (lprev s l) n s;
          s = set_prev n (lprev s l) s;
          s = set_prev l n s
      in set_next n l s)"

definition rt_list_remove :: "'n \<Rightarrow> 'n links \<Rightarrow> 'n links" where
  "rt_list_remove n s =
     (let s = set_prev (lnext s n) (lprev s n) s;
          s = set_next (lprev s n) (lnext s n) s;
          s = set_prev n n s
      in set_next n n s)"

definition rt_list_isempty :: "'n \<Rightarrow> 'n links \<Rightarrow> bool" where
  "rt_list_isempty l s \<longleftrightarrow> lnext s l = l"

partial_function (option) rt_list_len_loop :: "'n links \<Rightarrow> 'n \<Rightarrow> 'n \<Rightarrow> u32 \<Rightarrow> u32 option" where
  "rt_list_len_loop s l p len =
     (if lnext s p \<noteq> l then rt_list_len_loop s l (lnext s p) (len + 1) else Some len)"

definition rt_list_len :: "'n \<Rightarrow> 'n links \<Rightarrow> u32 option" where
  "rt_list_len l s = rt_list_len_loop s l l 0"

section \<open>Singly linked lists: the operations\<close>

type_synonym 'n slinks = "'n \<Rightarrow> 'n option"

definition rt_slist_init :: "'n \<Rightarrow> 'n slinks \<Rightarrow> 'n slinks" where
  "rt_slist_init l s = s(l := None)"

partial_function (option) rt_slist_tail :: "'n slinks \<Rightarrow> 'n \<Rightarrow> 'n option" where
  "rt_slist_tail s node = (case s node of Some m \<Rightarrow> rt_slist_tail s m | None \<Rightarrow> Some node)"

definition rt_slist_append :: "'n \<Rightarrow> 'n \<Rightarrow> 'n slinks \<Rightarrow> 'n slinks option" where
  "rt_slist_append l n s =
     (case rt_slist_tail s l of
        None \<Rightarrow> None
      | Some node \<Rightarrow> Some ((s(node := Some n))(n := None)))"

definition rt_slist_insert :: "'n \<Rightarrow> 'n \<Rightarrow> 'n slinks \<Rightarrow> 'n slinks" where
  "rt_slist_insert l n s = (let s = s(n := s l) in s(l := Some n))"

partial_function (option) rt_slist_len_loop :: "'n slinks \<Rightarrow> 'n option \<Rightarrow> u32 \<Rightarrow> u32 option" where
  "rt_slist_len_loop s p len =
     (case p of Some m \<Rightarrow> rt_slist_len_loop s (s m) (len + 1) | None \<Rightarrow> Some len)"

definition rt_slist_len :: "'n \<Rightarrow> 'n slinks \<Rightarrow> u32 option" where
  "rt_slist_len l s = rt_slist_len_loop s (s l) 0"

partial_function (option) rt_slist_find :: "'n slinks \<Rightarrow> 'n \<Rightarrow> 'n \<Rightarrow> 'n option" where
  "rt_slist_find s n node =
     (case s node of
        Some m \<Rightarrow> if m \<noteq> n then rt_slist_find s n m else Some node
      | None \<Rightarrow> Some node)"

definition rt_slist_remove :: "'n \<Rightarrow> 'n \<Rightarrow> 'n slinks \<Rightarrow> 'n slinks option" where
  "rt_slist_remove l n s =
     (case rt_slist_find s n l of
        None \<Rightarrow> None
      | Some node \<Rightarrow>
          Some (case s node of Some m \<Rightarrow> s(node := s m) | None \<Rightarrow> s))"

definition rt_slist_isempty :: "'n \<Rightarrow> 'n slinks \<Rightarrow> bool" where
  "rt_slist_isempty l s \<longleftrightarrow> s l = None"

section \<open>Segments and rings\<close>

primrec lseg :: "'n links \<Rightarrow> 'n \<Rightarrow> 'n list \<Rightarrow> 'n \<Rightarrow> bool" where
  "lseg s a [] b \<longleftrightarrow> lnext s a = b \<and> lprev s b = a"
| "lseg s a (x # xs) b \<longleftrightarrow> lnext s a = x \<and> lprev s x = a \<and> lseg s x xs b"

lemma lseg_append [simp]:
  "lseg s a (xs @ x # ys) b \<longleftrightarrow> lseg s a xs x \<and> lseg s x ys b"
  by (induction xs arbitrary: a) auto

lemma lseg_cong:
  assumes "\<And>x. x \<in> set (a # xs) \<Longrightarrow> lnext s' x = lnext s x"
    and "\<And>x. x \<in> set (b # xs) \<Longrightarrow> lprev s' x = lprev s x"
  shows "lseg s' a xs b \<longleftrightarrow> lseg s a xs b"
  using assms by (induction xs arbitrary: a) auto

text \<open>The two ends of a segment, as its neighbours see them.\<close>

lemma lseg_first: "lseg s a xs b \<Longrightarrow> lnext s a = hd (xs @ [b])"
  by (cases xs) auto

lemma lseg_last: "lseg s a xs b \<Longrightarrow> lprev s b = last (a # xs)"
  by (induction xs arbitrary: a) auto

lemma lseg_last_next: "lseg s a xs b \<Longrightarrow> lnext s (last (a # xs)) = b"
  by (induction xs arbitrary: a) auto

text \<open>
  Cutting a segment's last link and hooking a new node there: what \<open>rt_list_insert_before\<close> does
  at the far end and \<open>rt_list_insert_after\<close> at the near end.
\<close>

lemma lseg_relink_end:
  assumes "lseg s a xs b" "b \<notin> set xs" "distinct (a # xs)" "n \<notin> set xs"
    and nx: "\<And>x. x \<in> set (a # xs) \<Longrightarrow> x \<noteq> last (a # xs) \<Longrightarrow> lnext s' x = lnext s x"
    and pv: "\<And>x. x \<in> set xs \<Longrightarrow> lprev s' x = lprev s x"
    and "lnext s' (last (a # xs)) = n" "lprev s' n = last (a # xs)"
  shows "lseg s' a xs n"
  using assms
proof (induction xs arbitrary: a)
  case (Cons x xs)
  have "lseg s' x xs n"
    using Cons.prems by (intro Cons.IH) auto
  moreover have "lnext s' a = x"
    using Cons.prems by (cases "a = last (x # xs)") (auto split: if_splits)
  moreover have "lprev s' x = a"
    using Cons.prems by simp
  ultimately show ?case by simp
qed auto

section \<open>Stores of disjoint rings\<close>

definition lists_wf :: "'n set \<Rightarrow> 'n links \<Rightarrow> ('n \<Rightarrow> 'n list) \<Rightarrow> bool" where
  "lists_wf H s F \<longleftrightarrow>
     (\<forall>h. h \<in> H \<longrightarrow> lseg s h (F h) h \<and> distinct (F h) \<and> set (F h) \<inter> H = {}) \<and>
     (\<forall>h h'. h \<noteq> h' \<longrightarrow> set (F h) \<inter> set (F h') = {}) \<and>
     (\<forall>h. h \<notin> H \<longrightarrow> F h = []) \<and>
     (\<forall>n. n \<notin> H \<longrightarrow> (\<forall>h. n \<notin> set (F h)) \<longrightarrow> lseg s n [] n)"

abbreviation detached :: "('n \<Rightarrow> 'n list) \<Rightarrow> 'n \<Rightarrow> bool" where
  "detached F n \<equiv> (\<forall>h. n \<notin> set (F h))"


lemma lists_wf_ring: "lists_wf H s F \<Longrightarrow> h \<in> H \<Longrightarrow> lseg s h (F h) h"
  by (simp add: lists_wf_def)

lemma lists_wf_distinct: "lists_wf H s F \<Longrightarrow> distinct (F h)"
  by (cases "h \<in> H") (simp_all add: lists_wf_def)

lemma lists_wf_head: "lists_wf H s F \<Longrightarrow> x \<in> set (F h) \<Longrightarrow> h \<in> H"
  by (cases "h \<in> H") (simp_all add: lists_wf_def)

lemma lists_wf_no_head: "lists_wf H s F \<Longrightarrow> x \<in> set (F h) \<Longrightarrow> x \<notin> H"
  by (frule lists_wf_head) (auto simp: lists_wf_def)

lemma lists_wf_unique: "lists_wf H s F \<Longrightarrow> x \<in> set (F h) \<Longrightarrow> x \<in> set (F h') \<Longrightarrow> h = h'"
  unfolding lists_wf_def by blast

lemma lists_wf_loose:
  "lists_wf H s F \<Longrightarrow> n \<notin> H \<Longrightarrow> detached F n \<Longrightarrow> lnext s n = n \<and> lprev s n = n"
  by (simp add: lists_wf_def)

lemma lists_wf_dist_head: "lists_wf H s F \<Longrightarrow> h \<in> H \<Longrightarrow> distinct (h # F h)"
  by (auto dest: lists_wf_distinct lists_wf_no_head)

text \<open>
  Inserting \<open>n\<close> between \<open>xs\<close> and \<open>ys\<close> of the ring of \<open>h\<close>. The node before the gap is
  \<open>last (h # xs)\<close>, the node after it \<open>hd (ys @ [h])\<close>.
\<close>

lemma insert_before_after:
  assumes "lnext s p = q" "lprev s q = p" "n \<noteq> p" "n \<noteq> q"
  shows "rt_list_insert_before q n s = rt_list_insert_after p n s"
  using assms by (cases s) (simp add: rt_list_insert_before_def rt_list_insert_after_def fun_upd_twist)

lemma insert_after_links:
  assumes "n \<noteq> p" "n \<noteq> lnext s p"
  shows "lnext (rt_list_insert_after p n s) = (lnext s)(n := lnext s p, p := n)"
    and "lprev (rt_list_insert_after p n s) = (lprev s)(lnext s p := n, n := p)"
  using assms by (simp_all add: rt_list_insert_after_def Let_def)

lemma lseg_gap:
  assumes "lseg s h (xs @ ys) h"
  shows "lseg s h xs (hd (ys @ [h]))"
    and "lnext s (last (h # xs)) = hd (ys @ [h])"
    and "lprev s (hd (ys @ [h])) = last (h # xs)"
proof -
  show seg: "lseg s h xs (hd (ys @ [h]))"
    using assms by (cases ys) auto
  show "lnext s (last (h # xs)) = hd (ys @ [h])"
    using seg by (rule lseg_last_next)
  show "lprev s (hd (ys @ [h])) = last (h # xs)"
    using seg by (rule lseg_last)
qed

lemma ring_splice:
  assumes ring: "lseg s h (xs @ ys) h" and dist: "distinct (h # xs @ ys)"
    and n: "n \<notin> set (h # xs @ ys)" and p: "p = last (h # xs)" and q: "q = hd (ys @ [h])"
    and nx: "lnext s' = (lnext s)(n := q, p := n)" and pv: "lprev s' = (lprev s)(q := n, n := p)"
  shows "lseg s' h (xs @ n # ys) h"
proof -
  have pin: "p \<in> set (h # xs)" unfolding p by (metis last_in_set list.distinct(1))
  have qin: "q \<in> set (h # ys)" unfolding q by (cases ys) auto
  have "lseg s h xs q" using lseg_gap(1) [OF ring] q by simp
  then have "lseg s' h xs n"
    by (rule lseg_relink_end) (use n dist pin qin in \<open>auto simp: nx pv p [symmetric] simp del: last.simps\<close>)
  moreover have "lseg s' n ys h"
  proof (cases ys)
    case (Cons y ys')
    have "lseg s' y ys' h \<longleftrightarrow> lseg s y ys' h"
      by (rule lseg_cong) (use n dist pin Cons q in \<open>auto simp: nx pv\<close>)
    then show ?thesis
      using ring Cons n pin q by (auto simp: nx pv)
  qed (use n pin q in \<open>auto simp: nx pv\<close>)
  ultimately show ?thesis by simp
qed

lemma insert_gap_links:
  assumes "lseg s h (xs @ ys) h" "n \<notin> set (h # xs @ ys)" "p = last (h # xs)" "q = hd (ys @ [h])"
  shows "p \<in> set (h # xs)" "q \<in> set (h # ys)"
    and "lnext (rt_list_insert_after p n s) = (lnext s)(n := q, p := n)"
    and "lprev (rt_list_insert_after p n s) = (lprev s)(q := n, n := p)"
    and "rt_list_insert_before q n s = rt_list_insert_after p n s"
proof -
  show p: "p \<in> set (h # xs)" using assms(3) by (metis last_in_set list.distinct(1))
  show q: "q \<in> set (h # ys)" using assms(4) by (cases ys) auto
  have gap: "lnext s p = q" "lprev s q = p"
    using lseg_gap [OF assms(1)] assms(3,4) by simp_all
  have np: "n \<noteq> p" "n \<noteq> q"
    using p q assms(2) by auto
  show "lnext (rt_list_insert_after p n s) = (lnext s)(n := q, p := n)"
    "lprev (rt_list_insert_after p n s) = (lprev s)(q := n, n := p)"
    using insert_after_links [of n p s] gap np by simp_all
  show "rt_list_insert_before q n s = rt_list_insert_after p n s"
    using insert_before_after gap np by metis
qed

lemma lists_wf_update:
  assumes wf: "lists_wf H s F" and h: "h \<in> H" and zs: "distinct zs" "set zs \<inter> H = {}"
    and other: "\<And>k. k \<noteq> h \<Longrightarrow> set (F k) \<inter> set zs = {}"
    and rings: "\<And>k. k \<in> H \<Longrightarrow> lseg s' k ((F(h := zs)) k) k"
    and loose: "\<And>m. m \<notin> H \<Longrightarrow> detached (F(h := zs)) m \<Longrightarrow> lseg s' m [] m"
  shows "lists_wf H s' (F(h := zs))" (is "lists_wf H s' ?F")
  unfolding lists_wf_def
proof (intro conjI allI impI)
  fix k assume k: "k \<in> H"
  show "lseg s' k (?F k) k" by (rule rings [OF k])
  show "distinct (?F k)"
    using lists_wf_distinct [OF wf, of k] zs by simp
  have "set (F k) \<inter> H = {}"
    using lists_wf_no_head [OF wf] by blast
  then show "set (?F k) \<inter> H = {}"
    using zs by simp
next
  fix k k' :: 'a assume kk: "k \<noteq> k'"
  have disj: "set (F k) \<inter> set (F k') = {}"
    using kk lists_wf_unique [OF wf] by blast
  consider "k = h" | "k' = h" | "k \<noteq> h" "k' \<noteq> h" by blast
  then show "set (?F k) \<inter> set (?F k') = {}"
  proof cases
    case 1
    then show ?thesis using kk other [of k'] by (simp add: Int_commute)
  next
    case 2
    then show ?thesis using kk other [of k] by simp
  next
    case 3
    then show ?thesis using disj by simp
  qed
next
  fix k assume "k \<notin> H"
  then show "?F k = []"
    using h wf by (auto simp: lists_wf_def)
next
  fix m assume "m \<notin> H" "detached ?F m"
  then show "lseg s' m [] m" by (rule loose)
qed

lemma lists_wf_splice:
  assumes wf: "lists_wf H s F" and h: "h \<in> H" and n: "n \<notin> H" "detached F n"
    and F: "F h = xs @ ys" and p: "p = last (h # xs)" and q: "q = hd (ys @ [h])"
    and pin: "p \<in> set (h # xs)" and qin: "q \<in> set (h # ys)"
    and nx: "lnext s' = (lnext s)(n := q, p := n)" and pv: "lprev s' = (lprev s)(q := n, n := p)"
  shows "lists_wf H s' (F(h := xs @ n # ys))" (is "lists_wf H s' ?F")
proof -
  have ring: "lseg s h (xs @ ys) h" and dist: "distinct (h # xs @ ys)"
    using lists_wf_ring [OF wf h] lists_wf_dist_head [OF wf h] F by simp_all
  have n': "n \<notin> set (h # xs @ ys)"
    using n h F by (metis set_ConsD)
  have away: "lseg s' a zs b \<longleftrightarrow> lseg s a zs b"
    if "n \<notin> set (a # b # zs)" "set (a # b # zs) \<inter> set (h # xs @ ys) = {}" for a zs b
    by (rule lseg_cong) (use that pin qin in \<open>auto simp: nx pv\<close>)
  have mem: "set (h # xs @ ys) = insert h (set (F h))"
    by (simp add: F)
  have rings: "lseg s' k (?F k) k" if k: "k \<in> H" for k
  proof (cases "k = h")
    case True
    then show ?thesis using ring_splice [OF ring dist n' p q nx pv] by simp
  next
    case False
    have "set (k # k # F k) \<inter> set (h # xs @ ys) = {}"
      unfolding mem using False k h lists_wf_unique [OF wf] lists_wf_no_head [OF wf] by auto
    moreover have "n \<notin> set (k # k # F k)"
      using n k by auto
    ultimately show ?thesis
      using False away [of k k "F k"] lists_wf_ring [OF wf k] by simp
  qed
  have loose: "lseg s' m [] m" if m: "m \<notin> H" "detached ?F m" for m
  proof -
    have m': "m \<noteq> n" "m \<notin> set (h # xs @ ys)"
      using m(2) [rule_format, of h] m(1) h by auto
    have "detached F m"
      using m(2) F m' by (metis fun_upd_apply list.set_intros(2))
    then show ?thesis
      using lists_wf_loose [OF wf m(1)] m' away [of m m "[]"] by simp
  qed
  have "set (xs @ n # ys) \<inter> H = {}"
    using lists_wf_no_head [OF wf, of _ h] n F by auto
  moreover have "set (F k) \<inter> set (xs @ n # ys) = {}" if "k \<noteq> h" for k
    using lists_wf_unique [OF wf, of _ h k] n F that by auto
  moreover have "distinct (xs @ n # ys)"
    using dist n' by auto
  ultimately show ?thesis
    using lists_wf_update [OF wf h _ _ _ rings loose] by blast
qed

lemma lists_wf_insert_gap:
  assumes wf: "lists_wf H s F" and h: "h \<in> H" and n: "n \<notin> H" "detached F n"
    and F: "F h = xs @ ys"
  shows "lists_wf H (rt_list_insert_after (last (h # xs)) n s) (F(h := xs @ n # ys))"
    and "lists_wf H (rt_list_insert_before (hd (ys @ [h])) n s) (F(h := xs @ n # ys))"
proof -
  have ring: "lseg s h (xs @ ys) h"
    using lists_wf_ring [OF wf h] F by simp
  have n': "n \<notin> set (h # xs @ ys)"
    using n h F by (metis set_ConsD)
  note gap = insert_gap_links [OF ring n' refl refl]
  show "lists_wf H (rt_list_insert_after (last (h # xs)) n s) (F(h := xs @ n # ys))"
    by (rule lists_wf_splice [OF wf h n F refl refl gap(1,2,3,4)])
  then show "lists_wf H (rt_list_insert_before (hd (ys @ [h])) n s) (F(h := xs @ n # ys))"
    by (simp only: gap(5))
qed

text \<open>Removing a node from its ring, and removing a node that is in no ring.\<close>

lemma remove_links:
  assumes "lnext s p = n" "lprev s n = p" "lnext s n = q" "lprev s q = n" "n \<noteq> p" "n \<noteq> q"
  shows "lnext (rt_list_remove n s) = (lnext s)(p := q, n := n)"
    and "lprev (rt_list_remove n s) = (lprev s)(q := p, n := n)"
  using assms by (simp_all add: rt_list_remove_def Let_def)

lemma remove_loose:
  assumes "lnext s n = n" "lprev s n = n"
  shows "rt_list_remove n s = s"
  using assms by (cases s) (simp add: rt_list_remove_def Let_def fun_upd_idem)

lemma ring_unsplice:
  assumes ring: "lseg s h (xs @ n # ys) h" and dist: "distinct (h # xs @ n # ys)"
    and p: "p = last (h # xs)" and q: "q = hd (ys @ [h])"
    and nx: "lnext s' = (lnext s)(p := q, n := n)" and pv: "lprev s' = (lprev s)(q := p, n := n)"
  shows "lseg s' h (xs @ ys) h"
proof -
  have pin: "p \<in> set (h # xs)" unfolding p by (metis last_in_set list.distinct(1))
  have qin: "q \<in> set (h # ys)" unfolding q by (cases ys) auto
  have "lseg s h xs n" using ring by simp
  then have xs: "lseg s' h xs q"
  proof (rule lseg_relink_end)
    show "lnext s' x = lnext s x" if "x \<in> set (h # xs)" "x \<noteq> last (h # xs)" for x
      using that dist p by (auto simp: nx)
    show "lprev s' x = lprev s x" if "x \<in> set xs" for x
      using that dist qin by (auto simp: pv)
    show "lnext s' (last (h # xs)) = q" "lprev s' q = last (h # xs)"
      using pin qin dist unfolding p [symmetric] by (auto simp: nx pv)
  qed (use dist qin in auto)
  show ?thesis
  proof (cases ys)
    case Nil
    then show ?thesis using xs q by simp
  next
    case (Cons y ys')
    have "lseg s' y ys' h \<longleftrightarrow> lseg s y ys' h"
      by (rule lseg_cong) (use dist pin Cons q in \<open>auto simp: nx pv\<close>)
    then show ?thesis
      using xs ring Cons q by simp
  qed
qed

lemma lists_wf_unsplice:
  assumes wf: "lists_wf H s F" and F: "F h = xs @ n # ys"
  shows "lists_wf H (rt_list_remove n s) (F(h := xs @ ys))" (is "lists_wf H ?s ?F")
proof -
  have h: "h \<in> H"
    using lists_wf_head [OF wf, of n h] F by simp
  have nH: "n \<notin> H"
    using lists_wf_no_head [OF wf, of n h] F by simp
  have ring: "lseg s h (xs @ n # ys) h" and dist: "distinct (h # xs @ n # ys)"
    using lists_wf_ring [OF wf h] lists_wf_dist_head [OF wf h] F by simp_all
  define p q where "p = last (h # xs)" and "q = hd (ys @ [h])"
  have pin: "p \<in> set (h # xs)" unfolding p_def by (metis last_in_set list.distinct(1))
  have qin: "q \<in> set (h # ys)" unfolding q_def by (cases ys) auto
  have np: "n \<noteq> p" "n \<noteq> q" using pin qin dist by auto
  have "lnext s p = n" "lprev s n = p"
    using lseg_gap [OF ring] by (simp_all add: p_def)
  moreover have "lnext s n = q" "lprev s q = n"
    using lseg_gap [of s h "xs @ [n]" ys] ring by (simp_all add: q_def)
  ultimately have nx: "lnext ?s = (lnext s)(p := q, n := n)"
    and pv: "lprev ?s = (lprev s)(q := p, n := n)"
    using remove_links np by metis+
  have away: "lseg ?s a zs b \<longleftrightarrow> lseg s a zs b"
    if "set (a # b # zs) \<inter> set (h # xs @ n # ys) = {}" for a zs b
    by (rule lseg_cong) (use that pin qin in \<open>auto simp: nx pv\<close>)
  have mem: "set (h # xs @ n # ys) = insert h (set (F h))"
    by (simp add: F)
  have rings: "lseg ?s k (?F k) k" if k: "k \<in> H" for k
  proof (cases "k = h")
    case True
    then show ?thesis using ring_unsplice [OF ring dist p_def q_def nx pv] by simp
  next
    case False
    have "set (k # k # F k) \<inter> set (h # xs @ n # ys) = {}"
      unfolding mem using False k h lists_wf_unique [OF wf] lists_wf_no_head [OF wf] by auto
    then show ?thesis
      using False away [of k k "F k"] lists_wf_ring [OF wf k] by simp
  qed
  have loose: "lseg ?s m [] m" if m: "m \<notin> H" "detached ?F m" for m
  proof (cases "m = n")
    case True
    then show ?thesis by (simp add: nx pv)
  next
    case False
    have m': "m \<notin> set (h # xs @ n # ys)"
      using m(2) [rule_format, of h] m(1) h False by auto
    have "detached F m"
      using m(2) F m' by (metis fun_upd_apply list.set_intros(2))
    then show ?thesis
      using lists_wf_loose [OF wf m(1)] m' away [of m m "[]"] by simp
  qed
  have "set (xs @ ys) \<inter> H = {}"
    using lists_wf_no_head [OF wf, of _ h] F by auto
  moreover have "set (F k) \<inter> set (xs @ ys) = {}" if "k \<noteq> h" for k
    using lists_wf_unique [OF wf, of _ h k] F that by auto
  moreover have "distinct (xs @ ys)"
    using dist by auto
  ultimately show ?thesis
    using lists_wf_update [OF wf h _ _ _ rings loose] by blast
qed

lemma lists_wf_remove:
  assumes wf: "lists_wf H s F" and n: "n \<notin> H"
  shows "lists_wf H (rt_list_remove n s) (\<lambda>h. remove1 n (F h))"
proof (cases "detached F n")
  case True
  then have "(\<lambda>h. remove1 n (F h)) = F"
    by (simp add: fun_eq_iff remove1_idem)
  then show ?thesis
    using lists_wf_loose [OF wf n True] wf by (simp add: remove_loose)
next
  case False
  then obtain h xs ys where F: "F h = xs @ n # ys"
    by (meson split_list)
  have "n \<notin> set xs" using lists_wf_distinct [OF wf, of h] F by simp
  moreover have "n \<notin> set (F k)" if "k \<noteq> h" for k
    using lists_wf_unique [OF wf, of n h k] F that by auto
  ultimately have "(\<lambda>k. remove1 n (F k)) = F(h := xs @ ys)"
    by (auto simp: fun_eq_iff F remove1_split remove1_idem)
  then show ?thesis
    using lists_wf_unsplice [OF wf F] by simp
qed

lemma remove1_upd:
  assumes wf: "lists_wf H s F" and n: "n \<in> set (F h)"
  shows "(\<lambda>k. remove1 n (F k)) = F(h := remove1 n (F h))"
proof
  fix k
  show "remove1 n (F k) = (F(h := remove1 n (F h))) k"
    using lists_wf_unique [OF wf n, of k] by (cases "k = h") (auto intro: remove1_idem)
qed

lemma lists_wf_isempty: "lists_wf H s F \<Longrightarrow> h \<in> H \<Longrightarrow> rt_list_isempty h s \<longleftrightarrow> F h = []"
  using lists_wf_ring [of H s F h] lists_wf_no_head [of H s F _ h]
  by (cases "F h") (auto simp: rt_list_isempty_def)

lemma lists_wf_next:
  "lists_wf H s F \<Longrightarrow> h \<in> H \<Longrightarrow> F h = xs @ ys \<Longrightarrow> lnext s (last (h # xs)) = hd (ys @ [h])"
  using lists_wf_ring [of H s F h] lseg_gap(2) [of s h xs ys] by simp

lemma lists_wf_prev:
  "lists_wf H s F \<Longrightarrow> h \<in> H \<Longrightarrow> F h = xs @ ys \<Longrightarrow> lprev s (hd (ys @ [h])) = last (h # xs)"
  using lists_wf_ring [of H s F h] lseg_gap(3) [of s h xs ys] by simp

lemma lists_wf_init_loose:
  assumes "lists_wf H s F" "F n = []" "detached F n"
  shows "rt_list_init n s = s"
proof -
  have "lseg s n [] n"
    using assms by (cases "n \<in> H") (auto dest: lists_wf_ring lists_wf_loose)
  then show ?thesis
    by (cases s) (simp add: rt_list_init_def fun_upd_idem)
qed

text \<open>A store whose nodes have all been initialised holds empty lists.\<close>

definition links_fresh :: "'n links" where
  "links_fresh = \<lparr>lnext = (\<lambda>n. n), lprev = (\<lambda>n. n)\<rparr>"

lemma lists_wf_fresh: "lists_wf H links_fresh (\<lambda>_. [])"
  by (simp add: lists_wf_def links_fresh_def)

section \<open>The contract of the list operations\<close>

locale list_store =
  fixes insert_after :: "'n \<Rightarrow> 'n \<Rightarrow> 's \<Rightarrow> 's"
    and insert_before :: "'n \<Rightarrow> 'n \<Rightarrow> 's \<Rightarrow> 's"
    and remove :: "'n \<Rightarrow> 's \<Rightarrow> 's"
    and isempty :: "'n \<Rightarrow> 's \<Rightarrow> bool"
    and nxt :: "'s \<Rightarrow> 'n \<Rightarrow> 'n"
    and heads :: "'n set"
    and repr :: "'s \<Rightarrow> ('n \<Rightarrow> 'n list) \<Rightarrow> bool"
  assumes insert_after_gap:
      "repr s F \<Longrightarrow> h \<in> heads \<Longrightarrow> n \<notin> heads \<Longrightarrow> detached F n \<Longrightarrow> F h = xs @ ys \<Longrightarrow>
       repr (insert_after (last (h # xs)) n s) (F(h := xs @ n # ys))"
    and insert_before_gap:
      "repr s F \<Longrightarrow> h \<in> heads \<Longrightarrow> n \<notin> heads \<Longrightarrow> detached F n \<Longrightarrow> F h = xs @ ys \<Longrightarrow>
       repr (insert_before (hd (ys @ [h])) n s) (F(h := xs @ n # ys))"
    and remove_any: "repr s F \<Longrightarrow> n \<notin> heads \<Longrightarrow> repr (remove n s) (\<lambda>h. remove1 n (F h))"
    and isempty_iff: "repr s F \<Longrightarrow> h \<in> heads \<Longrightarrow> isempty h s \<longleftrightarrow> F h = []"
    and nxt_gap: "repr s F \<Longrightarrow> h \<in> heads \<Longrightarrow> F h = xs @ ys \<Longrightarrow> nxt s (last (h # xs)) = hd (ys @ [h])"
    and mem_distinct: "repr s F \<Longrightarrow> distinct (F h)"
    and mem_unique: "repr s F \<Longrightarrow> n \<in> set (F h) \<Longrightarrow> n \<in> set (F h') \<Longrightarrow> h = h'"
    and mem_head: "repr s F \<Longrightarrow> n \<in> set (F h) \<Longrightarrow> h \<in> heads \<and> n \<notin> heads"
begin

lemma push_back:
  "repr s F \<Longrightarrow> h \<in> heads \<Longrightarrow> n \<notin> heads \<Longrightarrow> detached F n \<Longrightarrow>
   repr (insert_before h n s) (F(h := F h @ [n]))"
  using insert_before_gap [of s F h n "F h" "[]"] by simp

lemma push_front:
  "repr s F \<Longrightarrow> h \<in> heads \<Longrightarrow> n \<notin> heads \<Longrightarrow> detached F n \<Longrightarrow>
   repr (insert_after h n s) (F(h := n # F h))"
  using insert_after_gap [of s F h n "[]" "F h"] by simp

lemma insert_before_member:
  "repr s F \<Longrightarrow> n \<notin> heads \<Longrightarrow> detached F n \<Longrightarrow> F h = xs @ m # ys \<Longrightarrow>
   repr (insert_before m n s) (F(h := xs @ n # m # ys))"
  using insert_before_gap [of s F h n xs "m # ys"] mem_head [of s F m h] by simp

lemma insert_after_member:
  "repr s F \<Longrightarrow> n \<notin> heads \<Longrightarrow> detached F n \<Longrightarrow> F h = xs @ m # ys \<Longrightarrow>
   repr (insert_after m n s) (F(h := xs @ m # n # ys))"
  using insert_after_gap [of s F h n "xs @ [m]" ys] mem_head [of s F m h] by simp

lemma nxt_head: "repr s F \<Longrightarrow> h \<in> heads \<Longrightarrow> nxt s h = hd (F h @ [h])"
  using nxt_gap [of s F h "[]" "F h"] by simp

lemma nxt_member: "repr s F \<Longrightarrow> F h = xs @ m # ys \<Longrightarrow> nxt s m = hd (ys @ [h])"
  using nxt_gap [of s F h "xs @ [m]" ys] mem_head [of s F m h] by simp

lemma remove_member:
  assumes "repr s F" "F h = xs @ n # ys"
  shows "repr (remove n s) (F(h := xs @ ys))"
proof -
  have n: "n \<in> set (F h)" using assms by simp
  have "n \<notin> set xs" using mem_distinct [OF assms(1), of h] assms(2) by simp
  moreover have "remove1 n (F k) = F k" if "k \<noteq> h" for k
    using mem_unique [OF assms(1) n, of k] that by (auto intro: remove1_idem)
  ultimately have "(\<lambda>k. remove1 n (F k)) = F(h := xs @ ys)"
    by (auto simp: fun_eq_iff assms(2) remove1_split)
  then show ?thesis
    using remove_any [OF assms(1), of n] mem_head [OF assms(1) n] by simp
qed

lemma remove_detached: "repr s F \<Longrightarrow> n \<notin> heads \<Longrightarrow> detached F n \<Longrightarrow> repr (remove n s) F"
  using remove_any [of s F n] by (simp add: remove1_idem)

lemma remove_detaches:
  assumes "repr s F"
  shows "detached (\<lambda>h. remove1 n (F h)) n"
  using mem_distinct [OF assms] by simp

lemma pop_front: "repr s F \<Longrightarrow> F h = n # ys \<Longrightarrow> repr (remove n s) (F(h := ys))"
  using remove_member [of s F h "[]" n ys] by simp

text \<open>Unlinking a node from wherever it is and queueing it at the back of a list.\<close>

lemma move_back:
  assumes "repr s F" "k \<in> heads" "n \<notin> heads"
  shows "repr (insert_before k n (remove n s))
           ((\<lambda>h. remove1 n (F h))(k := remove1 n (F k) @ [n]))"
  using push_back [OF remove_any [OF assms(1,3)] assms(2,3) remove_detaches [OF assms(1)]] .

lemma rotate_front:
  assumes "repr s F" "F h = n # ys"
  shows "repr (insert_before h n (remove n s)) (F(h := ys @ [n]))"
proof -
  have "n \<in> set (F h)" using assms by simp
  then have h: "h \<in> heads" "n \<notin> heads" using mem_head assms(1) by blast+
  have "n \<notin> set ys" using mem_distinct [OF assms(1), of h] assms(2) by simp
  moreover have "n \<notin> set (F k)" if "k \<noteq> h" for k
    using mem_unique [OF assms(1), of n h k] assms(2) that by auto
  ultimately have "detached (F(h := ys)) n" by simp
  then show ?thesis
    using push_back [OF pop_front [OF assms] h] by simp
qed

lemma insert_remove_id:
  assumes "repr s F" "h \<in> heads" "n \<notin> heads" "detached F n"
  shows "repr (remove n (insert_before h n s)) F"
  using remove_member [OF push_back [OF assms], of h "F h" n "[]"] by simp

end

interpretation rl: list_store rt_list_insert_after rt_list_insert_before rt_list_remove
    rt_list_isempty lnext H "lists_wf H" for H :: "'n set"
  by unfold_locales
    (auto intro: lists_wf_insert_gap lists_wf_remove lists_wf_distinct lists_wf_unique
      dest: lists_wf_head lists_wf_no_head simp: lists_wf_isempty simp del: last.simps intro: lists_wf_next)

end
