(* ===== verification/RT_KService.thy ===== *)
theory RT_KService
  imports RT_Prelude
begin

text \<open>
  The kernel's service routines of \<^verbatim>\<open>src/src/kservice.c\<close>: the bit search the scheduler uses, the
  memory block routines on a byte-addressed memory, and the string routines.
\<close>

section \<open>Find first set\<close>

definition lowest_bit_bitmap :: "nat list" where
  "lowest_bit_bitmap =
     [0, 0, 1, 0, 2, 0, 1, 0, 3, 0, 1, 0, 2, 0, 1, 0,
      4, 0, 1, 0, 2, 0, 1, 0, 3, 0, 1, 0, 2, 0, 1, 0,
      5, 0, 1, 0, 2, 0, 1, 0, 3, 0, 1, 0, 2, 0, 1, 0,
      4, 0, 1, 0, 2, 0, 1, 0, 3, 0, 1, 0, 2, 0, 1, 0,
      6, 0, 1, 0, 2, 0, 1, 0, 3, 0, 1, 0, 2, 0, 1, 0,
      4, 0, 1, 0, 2, 0, 1, 0, 3, 0, 1, 0, 2, 0, 1, 0,
      5, 0, 1, 0, 2, 0, 1, 0, 3, 0, 1, 0, 2, 0, 1, 0,
      4, 0, 1, 0, 2, 0, 1, 0, 3, 0, 1, 0, 2, 0, 1, 0,
      7, 0, 1, 0, 2, 0, 1, 0, 3, 0, 1, 0, 2, 0, 1, 0,
      4, 0, 1, 0, 2, 0, 1, 0, 3, 0, 1, 0, 2, 0, 1, 0,
      5, 0, 1, 0, 2, 0, 1, 0, 3, 0, 1, 0, 2, 0, 1, 0,
      4, 0, 1, 0, 2, 0, 1, 0, 3, 0, 1, 0, 2, 0, 1, 0,
      6, 0, 1, 0, 2, 0, 1, 0, 3, 0, 1, 0, 2, 0, 1, 0,
      4, 0, 1, 0, 2, 0, 1, 0, 3, 0, 1, 0, 2, 0, 1, 0,
      5, 0, 1, 0, 2, 0, 1, 0, 3, 0, 1, 0, 2, 0, 1, 0,
      4, 0, 1, 0, 2, 0, 1, 0, 3, 0, 1, 0, 2, 0, 1, 0]"

definition rt_ffs :: "u32 \<Rightarrow> nat" where
  "rt_ffs val =
     (if val = 0 then 0
      else if val AND 0xff \<noteq> 0 then lowest_bit_bitmap ! unat (val AND 0xff) + 1
      else if val AND 0xff00 \<noteq> 0 then lowest_bit_bitmap ! unat (drop_bit 8 (val AND 0xff00)) + 9
      else if val AND 0xff0000 \<noteq> 0 then lowest_bit_bitmap ! unat (drop_bit 16 (val AND 0xff0000)) + 17
      else lowest_bit_bitmap ! unat (drop_bit 24 (val AND 0xff000000)) + 25)"

subsection \<open>The table holds the lowest set bit of its index\<close>

definition lowest_bit_ok :: "nat \<times> nat \<Rightarrow> bool" where
  "lowest_bit_ok = (\<lambda>(v, k). v = 0 \<or> k < 8 \<and> (v div 2 ^ k) mod 2 = 1 \<and> v mod 2 ^ k = 0)"

lemma lowest_bit_table: "list_all lowest_bit_ok (enumerate 0 lowest_bit_bitmap)"
  by (simp add: lowest_bit_bitmap_def lowest_bit_ok_def)

lemma lowest_bit_bitmap_length: "length lowest_bit_bitmap = 256"
  by (simp add: lowest_bit_bitmap_def)

lemma lowest_bit_bitmap_nth:
  assumes "0 < v" "v < 256"
  shows "lowest_bit_bitmap ! v < 8" "bit v (lowest_bit_bitmap ! v)"
    and "j < lowest_bit_bitmap ! v \<Longrightarrow> \<not> bit v j"
proof -
  have "(v, lowest_bit_bitmap ! v) \<in> set (enumerate 0 lowest_bit_bitmap)"
    using assms by (simp add: in_set_enumerate_eq lowest_bit_bitmap_length)
  then have "lowest_bit_ok (v, lowest_bit_bitmap ! v)"
    using lowest_bit_table by (auto simp: list_all_iff)
  then have k: "lowest_bit_bitmap ! v < 8" "odd (v div 2 ^ (lowest_bit_bitmap ! v))"
      "v mod 2 ^ (lowest_bit_bitmap ! v) = 0"
    using assms by (auto simp: lowest_bit_ok_def odd_iff_mod_2_eq_one)
  show "lowest_bit_bitmap ! v < 8" by (rule k)
  show "bit v (lowest_bit_bitmap ! v)"
    using k by (simp add: bit_iff_odd)
  assume "j < lowest_bit_bitmap ! v"
  moreover have "take_bit (lowest_bit_bitmap ! v) v = 0"
    using k by (simp add: take_bit_eq_mod)
  ultimately show "\<not> bit v j"
    by (metis bit_0_eq bit_take_bit_iff bot_apply bot_bool_def)
qed


subsection \<open>The search returns the lowest set bit\<close>

lemma ffs_byte:
  fixes val :: u32
  assumes b: "drop_bit n (val AND push_bit n 0xff) \<noteq> 0" and n: "n \<le> 24"
    and low: "\<And>j. j < n \<Longrightarrow> \<not> bit val j"
  defines "k \<equiv> lowest_bit_bitmap ! unat (drop_bit n (val AND push_bit n 0xff))"
  shows "k < 8" "bit val (k + n)" "j < k + n \<Longrightarrow> \<not> bit val j"
proof -
  let ?v = "drop_bit n (val AND push_bit n 0xff)"
  have ff: "(0xff :: u32) = mask 8" by (simp add: mask_eq_exp_minus_1)
  have bits: "bit ?v i \<longleftrightarrow> i < 8 \<and> bit val (n + i)" for i
    using n by (auto simp: ff bit_simps dest: bit_imp_le_length)
  have "take_bit 8 ?v = ?v"
    by (rule bit_eqI) (auto simp: ff bit_simps)
  then have "unat ?v = take_bit 8 (unat ?v)"
    by (metis unsigned_take_bit_eq)
  then have v: "0 < unat ?v" "unat ?v < 256"
    using b take_bit_nat_less_exp [of 8 "unat ?v"] by (auto simp: unat_gt_0)
  note tab = lowest_bit_bitmap_nth [OF v, folded k_def]
  have ub: "bit (unat ?v) i \<longleftrightarrow> i < 8 \<and> bit val (n + i)" for i
    using bits [of i] by (simp add: bit_unsigned_iff)
  show k: "k < 8" by (rule tab)
  show "bit val (k + n)"
    using tab(2) ub [of k] by (metis add.commute)
  assume j: "j < k + n"
  show "\<not> bit val j"
  proof (cases "j < n")
    case False
    then have "\<not> bit (unat ?v) (j - n)"
      using tab(3) [of "j - n"] j by linarith
    then show ?thesis
      using False j k ub [of "j - n"] by simp
  qed (rule low)
qed

lemma and_byte_eq_0:
  fixes val :: u32
  shows "val AND push_bit n 0xff = 0 \<longleftrightarrow> (\<forall>j. n \<le> j \<longrightarrow> j < n + 8 \<longrightarrow> \<not> bit val j)"
proof -
  have ff: "(0xff :: u32) = mask 8" by (simp add: mask_eq_exp_minus_1)
  have "bit (val AND push_bit n 0xff) j \<longleftrightarrow> n \<le> j \<and> j < n + 8 \<and> bit val j" for j
    by (auto simp: ff bit_simps dest: bit_imp_le_length)
  then show ?thesis
    by (metis bit_0_eq bit_eqI bot_apply bot_bool_def)
qed

lemma drop_and_byte_eq_0:
  fixes val :: u32
  shows "drop_bit n (val AND push_bit n 0xff) = 0 \<longleftrightarrow> val AND push_bit n 0xff = 0"
proof -
  have ff: "(0xff :: u32) = mask 8" by (simp add: mask_eq_exp_minus_1)
  have "bit (drop_bit n (val AND push_bit n 0xff)) (j - n) \<longleftrightarrow> bit (val AND push_bit n 0xff) j"
    if "n \<le> j" for j
    using that by (simp add: ff bit_simps)
  moreover have "\<not> bit (val AND push_bit n 0xff) j" if "j < n" for j
    using that by (simp add: ff bit_simps)
  ultimately show ?thesis
    by (metis bit_0_eq bit_eqI bot_apply bot_bool_def drop_bit_of_0 leI)
qed

lemmas byte_masks =
  and_byte_eq_0 [of _ 0, simplified] and_byte_eq_0 [of _ 8, simplified]
  and_byte_eq_0 [of _ 16, simplified] and_byte_eq_0 [of _ 24, simplified]

definition lowest_set :: "u32 \<Rightarrow> nat \<Rightarrow> bool" where
  "lowest_set val k \<longleftrightarrow> k < 32 \<and> bit val k \<and> (\<forall>j < k. \<not> bit val j)"

lemma rt_ffs_byte:
  fixes val :: u32
  assumes "val AND push_bit n 0xff \<noteq> 0" "n \<le> 24" "\<And>j. j < n \<Longrightarrow> \<not> bit val j"
  shows "lowest_set val (lowest_bit_bitmap ! unat (drop_bit n (val AND push_bit n 0xff)) + n)"
proof -
  have "drop_bit n (val AND push_bit n 0xff) \<noteq> 0"
    using assms(1) drop_and_byte_eq_0 by blast
  from ffs_byte [OF this assms(2,3)] show ?thesis
    using assms(2) by (auto simp: lowest_set_def)
qed

lemma rt_ffs_lowest:
  assumes "val \<noteq> 0"
  shows "0 < rt_ffs val" "lowest_set val (rt_ffs val - 1)"
proof -
  show "0 < rt_ffs val" using assms by (simp add: rt_ffs_def)
  consider "val AND 0xff \<noteq> 0" | "val AND 0xff = 0" "val AND 0xff00 \<noteq> 0"
    | "val AND 0xff = 0" "val AND 0xff00 = 0" "val AND 0xff0000 \<noteq> 0"
    | "val AND 0xff = 0" "val AND 0xff00 = 0" "val AND 0xff0000 = 0" by blast
  then show "lowest_set val (rt_ffs val - 1)"
  proof cases
    case 1
    then show ?thesis using assms rt_ffs_byte [of val 0] by (simp add: rt_ffs_def)
  next
    case 2
    then have "\<not> bit val j" if "j < 8" for j
      using that by (simp add: byte_masks)
    with 2 show ?thesis using assms rt_ffs_byte [of val 8] by (simp add: rt_ffs_def add.commute)
  next
    case 3
    then have "\<not> bit val j" if "j < 16" for j
      using that by (cases "j < 8") (simp_all add: byte_masks)
    with 3 show ?thesis using assms rt_ffs_byte [of val 16] by (simp add: rt_ffs_def add.commute)
  next
    case 4
    then have low: "\<not> bit val j" if "j < 24" for j
      using that by (cases "j < 8"; cases "j < 16") (simp_all add: byte_masks)
    have "val AND 0xff000000 \<noteq> 0"
    proof
      assume "val AND 0xff000000 = 0"
      then have "\<not> bit val j" if "j < 32" for j
        using that low by (cases "j < 24") (simp_all add: byte_masks)
      then show False
        using assms bit_word_eqI [of val 0] by simp
    qed
    with 4 low show ?thesis using assms rt_ffs_byte [of val 24] by (simp add: rt_ffs_def add.commute)
  qed
qed

lemma lowest_set_unique: "lowest_set val j \<Longrightarrow> lowest_set val k \<Longrightarrow> j = k"
  unfolding lowest_set_def by (meson linorder_neqE_nat)

lemma rt_ffs_eq: "lowest_set val k \<Longrightarrow> rt_ffs val = Suc k"
  using rt_ffs_lowest [of val] lowest_set_unique [of val k "rt_ffs val - 1"]
  by (cases "val = 0") (auto simp: lowest_set_def)

end
