(* ===== verification/RT_Strings.thy ===== *)
theory RT_Strings
  imports RT_Prelude
begin

text \<open>
  The string routines of \<^verbatim>\<open>src/src/kservice.c\<close>. A \<^verbatim>\<open>char *\<close> is the sequence of bytes found from it on;
  plain \<^verbatim>\<open>char\<close> is unsigned on this target. A routine that walks to the terminating zero is a
  partial function: it does not return on a sequence without one.
\<close>

type_synonym cstr = "nat \<Rightarrow> u8"

section \<open>The routines\<close>

partial_function (option) rt_strlen_loop :: "cstr \<Rightarrow> nat \<Rightarrow> nat option" where
  "rt_strlen_loop s i = (if s i \<noteq> 0 then rt_strlen_loop s (i + 1) else Some i)"

definition rt_strlen :: "cstr \<Rightarrow> nat option" where
  "rt_strlen s = rt_strlen_loop s 0"

function rt_strnlen_loop :: "cstr \<Rightarrow> nat \<Rightarrow> nat \<Rightarrow> nat" where
  "rt_strnlen_loop s maxlen i =
     (if s i \<noteq> 0 \<and> i < maxlen then rt_strnlen_loop s maxlen (i + 1) else i)"
  by pat_completeness auto
termination by (relation "measure (\<lambda>(s, maxlen, i). maxlen - i)") auto

definition rt_strnlen :: "cstr \<Rightarrow> nat \<Rightarrow> nat" where
  "rt_strnlen s maxlen = rt_strnlen_loop s maxlen 0"

text \<open>The inner loop that pads with zeros runs while \<open>--n \<noteq> 0\<close>.\<close>

fun rt_strncpy_pad :: "cstr \<Rightarrow> nat \<Rightarrow> nat \<Rightarrow> cstr" where
  "rt_strncpy_pad d i 0 = d"
| "rt_strncpy_pad d i (Suc n) = rt_strncpy_pad (d(i := 0)) (i + 1) n"

fun rt_strncpy_loop :: "cstr \<Rightarrow> cstr \<Rightarrow> nat \<Rightarrow> nat \<Rightarrow> cstr" where
  "rt_strncpy_loop d s i 0 = d"
| "rt_strncpy_loop d s i (Suc n) =
     (let d = d(i := s i)
      in if s i = 0 then rt_strncpy_pad d (i + 1) n else rt_strncpy_loop d s (i + 1) n)"

definition rt_strncpy :: "cstr \<Rightarrow> cstr \<Rightarrow> nat \<Rightarrow> cstr" where
  "rt_strncpy dst src n = (if n \<noteq> 0 then rt_strncpy_loop dst src 0 n else dst)"

text \<open>\<^verbatim>\<open>__res\<close> is a \<^verbatim>\<open>signed char\<close>: the difference of two bytes is truncated to eight bits.\<close>

fun rt_strncmp_loop :: "cstr \<Rightarrow> cstr \<Rightarrow> nat \<Rightarrow> nat \<Rightarrow> u8 \<Rightarrow> u8" where
  "rt_strncmp_loop cs ct i 0 res = res"
| "rt_strncmp_loop cs ct i (Suc count) res =
     (let res = cs i - ct i
      in if res \<noteq> 0 \<or> cs i = 0 then res else rt_strncmp_loop cs ct (i + 1) count res)"

definition rt_strncmp :: "cstr \<Rightarrow> cstr \<Rightarrow> nat \<Rightarrow> int" where
  "rt_strncmp cs ct count = sint (rt_strncmp_loop cs ct 0 count 0)"

partial_function (option) rt_strcmp_loop :: "cstr \<Rightarrow> cstr \<Rightarrow> nat \<Rightarrow> int option" where
  "rt_strcmp_loop cs ct i =
     (if cs i \<noteq> 0 \<and> cs i = ct i then rt_strcmp_loop cs ct (i + 1)
      else Some (uint (cs i) - uint (ct i)))"

definition rt_strcmp :: "cstr \<Rightarrow> cstr \<Rightarrow> int option" where
  "rt_strcmp cs ct = rt_strcmp_loop cs ct 0"

definition fold_case :: "u8 \<Rightarrow> int" where
  "fold_case c = (if 65 \<le> uint c \<and> uint c \<le> 90 then uint c + 32 else uint c)"

partial_function (option) rt_strcasecmp_loop :: "cstr \<Rightarrow> cstr \<Rightarrow> nat \<Rightarrow> int option" where
  "rt_strcasecmp_loop a b i =
     (if fold_case (a i) = fold_case (b i) \<and> fold_case (a i) \<noteq> 0 then rt_strcasecmp_loop a b (i + 1)
      else Some (fold_case (a i) - fold_case (b i)))"

definition rt_strcasecmp :: "cstr \<Rightarrow> cstr \<Rightarrow> u32 option" where
  "rt_strcasecmp a b = map_option word_of_int (rt_strcasecmp_loop a b 0)"

fun rt_memcmp_loop :: "cstr \<Rightarrow> cstr \<Rightarrow> nat \<Rightarrow> nat \<Rightarrow> int \<Rightarrow> int" where
  "rt_memcmp_loop cs ct i 0 res = res"
| "rt_memcmp_loop cs ct i (Suc count) res =
     (let res = uint (cs i) - uint (ct i)
      in if res \<noteq> 0 then res else rt_memcmp_loop cs ct (i + 1) count res)"

definition rt_memcmp :: "cstr \<Rightarrow> cstr \<Rightarrow> nat \<Rightarrow> int" where
  "rt_memcmp cs ct count = rt_memcmp_loop cs ct 0 count 0"

text \<open>The result is the offset into \<open>s1\<close>; \<open>None\<close> inside is \<^verbatim>\<open>RT_NULL\<close>.\<close>

fun rt_strstr_loop :: "cstr \<Rightarrow> cstr \<Rightarrow> nat \<Rightarrow> nat \<Rightarrow> nat \<Rightarrow> nat option" where
  "rt_strstr_loop s1 s2 l2 0 off =
     (if l2 \<le> 0 then (if rt_memcmp (\<lambda>i. s1 (off + i)) s2 l2 = 0 then Some off else None) else None)"
| "rt_strstr_loop s1 s2 l2 (Suc l1) off =
     (if l2 \<le> Suc l1
      then if rt_memcmp (\<lambda>i. s1 (off + i)) s2 l2 = 0 then Some off
           else rt_strstr_loop s1 s2 l2 l1 (off + 1)
      else None)"

definition rt_strstr :: "cstr \<Rightarrow> cstr \<Rightarrow> nat option option" where
  "rt_strstr s1 s2 =
     (case rt_strlen s2 of
        None \<Rightarrow> None
      | Some l2 \<Rightarrow>
          if l2 = 0 then Some (Some 0)
          else (case rt_strlen s1 of
                  None \<Rightarrow> None
                | Some l1 \<Rightarrow> Some (rt_strstr_loop s1 s2 l2 l1 0)))"

section \<open>Zero-terminated sequences\<close>

definition cstring :: "cstr \<Rightarrow> u8 list \<Rightarrow> bool" where
  "cstring s xs \<longleftrightarrow> 0 \<notin> set xs \<and> (\<forall>i < length xs. s i = xs ! i) \<and> s (length xs) = 0"

definition cstr_of :: "u8 list \<Rightarrow> cstr" where
  "cstr_of xs i = (if i < length xs then xs ! i else 0)"

lemma cstring_cstr_of: "0 \<notin> set xs \<Longrightarrow> cstring (cstr_of xs) xs"
  by (simp add: cstring_def cstr_of_def)

lemma cstring_nth_neq_0: "cstring s xs \<Longrightarrow> i < length xs \<Longrightarrow> s i \<noteq> 0"
  by (metis cstring_def nth_mem)

lemma rt_strlen_loop:
  assumes "cstring s xs" "i \<le> length xs"
  shows "rt_strlen_loop s i = Some (length xs)"
  using assms(2)
proof (induction "length xs - i" arbitrary: i)
  case 0
  then have "i = length xs" by simp
  then show ?case
    using assms(1) by (subst rt_strlen_loop.simps) (simp add: cstring_def)
next
  case (Suc k)
  then have "i < length xs" by simp
  moreover have "rt_strlen_loop s (i + 1) = Some (length xs)"
    using Suc by (intro Suc.hyps) auto
  ultimately show ?case
    using cstring_nth_neq_0 [OF assms(1)] by (subst rt_strlen_loop.simps) simp
qed

lemma rt_strlen_cstring: "cstring s xs \<Longrightarrow> rt_strlen s = Some (length xs)"
  by (simp add: rt_strlen_def rt_strlen_loop)

section \<open>Copy and comparison up to a length\<close>

lemma rt_strncpy_pad: "rt_strncpy_pad d i n j = (if i \<le> j \<and> j < i + n then 0 else d j)"
  by (induction d i n arbitrary: j rule: rt_strncpy_pad.induct) auto

lemma rt_strncpy_loop:
  "rt_strncpy_loop d s i n j =
     (if i \<le> j \<and> j < i + n then (if \<exists>k. i \<le> k \<and> k < j \<and> s k = 0 then 0 else s j) else d j)"
proof (induction n arbitrary: d i)
  case (Suc n)
  show ?case
  proof (cases "s i = 0")
    case True
    then show ?thesis by (auto simp: rt_strncpy_pad Let_def)
  next
    case False
    then have "(\<exists>k. i \<le> k \<and> k < j \<and> s k = 0) \<longleftrightarrow> (\<exists>k. i + 1 \<le> k \<and> k < j \<and> s k = 0)"
      by (metis Suc_eq_plus1 Suc_leD not_less_eq_eq le_antisym)
    moreover have "rt_strncpy_loop d s i (Suc n) j = rt_strncpy_loop (d(i := s i)) s (i + 1) n j"
      using False by (simp add: Let_def)
    moreover have "rt_strncpy_loop (d(i := s i)) s (i + 1) n j =
        (if i + 1 \<le> j \<and> j < i + 1 + n then if \<exists>k. i + 1 \<le> k \<and> k < j \<and> s k = 0 then 0 else s j
         else (d(i := s i)) j)"
      by (rule Suc.IH)
    ultimately show ?thesis
      using False by (simp only:) auto
  qed
qed auto

lemma rt_strncpy_nth:
  "rt_strncpy d s n j = (if j < n then (if \<exists>k < j. s k = 0 then 0 else s j) else d j)"
  using rt_strncpy_loop [of d s 0 n j] by (simp add: rt_strncpy_def)

text \<open>What \<^verbatim>\<open>strncmp(...) == 0\<close> should mean: no difference before the first zero or the limit.\<close>

definition same_upto :: "cstr \<Rightarrow> cstr \<Rightarrow> nat \<Rightarrow> bool" where
  "same_upto cs ct n \<longleftrightarrow> (\<forall>i < n. (\<forall>k < i. cs k \<noteq> 0) \<longrightarrow> cs i = ct i)"

definition same_from :: "cstr \<Rightarrow> cstr \<Rightarrow> nat \<Rightarrow> nat \<Rightarrow> bool" where
  "same_from cs ct i n \<longleftrightarrow>
     (\<forall>j. i \<le> j \<longrightarrow> j < i + n \<longrightarrow> (\<forall>k. i \<le> k \<longrightarrow> k < j \<longrightarrow> cs k \<noteq> 0) \<longrightarrow> cs j = ct j)"

lemma same_fromI:
  "(\<And>j. i \<le> j \<Longrightarrow> j < i + n \<Longrightarrow> (\<And>k. i \<le> k \<Longrightarrow> k < j \<Longrightarrow> cs k \<noteq> 0) \<Longrightarrow> cs j = ct j) \<Longrightarrow> same_from cs ct i n"
  unfolding same_from_def by blast

lemma same_fromD:
  "same_from cs ct i n \<Longrightarrow> i \<le> j \<Longrightarrow> j < i + n \<Longrightarrow> (\<And>k. i \<le> k \<Longrightarrow> k < j \<Longrightarrow> cs k \<noteq> 0) \<Longrightarrow> cs j = ct j"
  unfolding same_from_def by blast

lemma same_from_Suc:
  "same_from cs ct i (Suc n) \<longleftrightarrow> cs i = ct i \<and> (cs i \<noteq> 0 \<longrightarrow> same_from cs ct (i + 1) n)"
proof (intro iffI conjI impI)
  assume *: "same_from cs ct i (Suc n)"
  show "cs i = ct i"
    by (rule same_fromD [OF *]) auto
  assume i: "cs i \<noteq> 0"
  show "same_from cs ct (i + 1) n"
  proof (rule same_fromI)
    fix j assume j: "i + 1 \<le> j" "j < i + 1 + n" "\<And>k. i + 1 \<le> k \<Longrightarrow> k < j \<Longrightarrow> cs k \<noteq> 0"
    have "cs k \<noteq> 0" if "i \<le> k" "k < j" for k
      using that i j(3) [of k] by (cases "k = i") auto
    then show "cs j = ct j"
      by (intro same_fromD [OF *]) (use j(1,2) in auto)
  qed
next
  assume *: "cs i = ct i \<and> (cs i \<noteq> 0 \<longrightarrow> same_from cs ct (i + 1) n)"
  show "same_from cs ct i (Suc n)"
  proof (rule same_fromI)
    fix j assume j: "i \<le> j" "j < i + Suc n" "\<And>k. i \<le> k \<Longrightarrow> k < j \<Longrightarrow> cs k \<noteq> 0"
    show "cs j = ct j"
    proof (cases "j = i")
      case False
      then have "cs i \<noteq> 0" using j(1) j(3) [of i] by simp
      then have "same_from cs ct (i + 1) n" using * by blast
      then show ?thesis
        by (rule same_fromD) (use j(1,2) False j(3) Suc_leD in \<open>auto dest: j(3)\<close>)
    qed (use * in blast)
  qed
qed

lemma rt_strncmp_loop_0: "rt_strncmp_loop cs ct i n 0 = 0 \<longleftrightarrow> same_from cs ct i n"
proof (induction n arbitrary: i)
  case (Suc n)
  show ?case
    using Suc [of "i + 1"] by (auto simp: same_from_Suc Let_def)
qed (simp add: same_from_def)

lemma rt_strncmp_eq_0: "rt_strncmp cs ct n = 0 \<longleftrightarrow> same_upto cs ct n"
  using rt_strncmp_loop_0 [of cs ct 0 n] by (simp add: rt_strncmp_def same_upto_def same_from_def signed_eq_0_iff)

end
