(* ===== verification/RT_Memory.thy ===== *)
theory RT_Memory
  imports RT_Prelude
begin

text \<open>
  Byte-addressed memory and the block routines of \<^verbatim>\<open>src/src/kservice.c\<close>: addresses are 32 bits and
  wrap, words are stored little-endian. The routines are the code's loops: four words at a time, one
  word at a time, then bytes.
\<close>

type_synonym mem = "u32 \<Rightarrow> u8"

definition write32 :: "u32 \<Rightarrow> u32 \<Rightarrow> mem \<Rightarrow> mem" where
  "write32 a w m = m(a := ucast w, a + 1 := ucast (drop_bit 8 w),
                     a + 2 := ucast (drop_bit 16 w), a + 3 := ucast (drop_bit 24 w))"

definition read32 :: "mem \<Rightarrow> u32 \<Rightarrow> u32" where
  "read32 m a = ucast (m a) OR push_bit 8 (ucast (m (a + 1))) OR
                push_bit 16 (ucast (m (a + 2))) OR push_bit 24 (ucast (m (a + 3)))"

section \<open>The routines\<close>

fun memset_bytes :: "u32 \<Rightarrow> u8 \<Rightarrow> nat \<Rightarrow> mem \<Rightarrow> mem" where
  "memset_bytes p d 0 m = m"
| "memset_bytes p d (Suc count) m = memset_bytes (p + 1) d count (m(p := d))"

text \<open>The word loops return the address and the count they stop at.\<close>

fun memset_words :: "u32 \<Rightarrow> u32 \<Rightarrow> nat \<Rightarrow> mem \<Rightarrow> u32 \<times> nat \<times> mem" where
  "memset_words p buffer count m =
     (if count \<ge> 4 then memset_words (p + 4) buffer (count - 4) (write32 p buffer m) else (p, count, m))"

fun memset_blocks :: "u32 \<Rightarrow> u32 \<Rightarrow> nat \<Rightarrow> mem \<Rightarrow> u32 \<times> nat \<times> mem" where
  "memset_blocks p buffer count m =
     (if count \<ge> 16
      then memset_blocks (p + 16) buffer (count - 16)
             (write32 (p + 12) buffer (write32 (p + 8) buffer (write32 (p + 4) buffer (write32 p buffer m))))
      else (p, count, m))"

definition rt_memset :: "u32 \<Rightarrow> u8 \<Rightarrow> nat \<Rightarrow> mem \<Rightarrow> mem" where
  "rt_memset s c count m =
     (if \<not> count < 4 \<and> s AND 3 = 0 then
        (let d = ucast c :: u32;
             buffer = push_bit 8 d OR d;
             buffer = buffer OR push_bit 16 buffer;
             (p, count, m) = memset_blocks s buffer count m;
             (p, count, m) = memset_words p buffer count m
         in memset_bytes p c count m)
      else memset_bytes s c count m)"

fun memcpy_bytes :: "u32 \<Rightarrow> u32 \<Rightarrow> nat \<Rightarrow> mem \<Rightarrow> mem" where
  "memcpy_bytes dst src 0 m = m"
| "memcpy_bytes dst src (Suc len) m = memcpy_bytes (dst + 1) (src + 1) len (m(dst := m src))"

definition copy_word :: "u32 \<Rightarrow> u32 \<Rightarrow> mem \<Rightarrow> mem" where
  "copy_word dst src m = write32 dst (read32 m src) m"

fun memcpy_words :: "u32 \<Rightarrow> u32 \<Rightarrow> nat \<Rightarrow> mem \<Rightarrow> u32 \<times> u32 \<times> nat \<times> mem" where
  "memcpy_words dst src len m =
     (if len \<ge> 4 then memcpy_words (dst + 4) (src + 4) (len - 4) (copy_word dst src m)
      else (dst, src, len, m))"

fun memcpy_blocks :: "u32 \<Rightarrow> u32 \<Rightarrow> nat \<Rightarrow> mem \<Rightarrow> u32 \<times> u32 \<times> nat \<times> mem" where
  "memcpy_blocks dst src len m =
     (if len \<ge> 16
      then memcpy_blocks (dst + 16) (src + 16) (len - 16)
             (copy_word (dst + 12) (src + 12) (copy_word (dst + 8) (src + 8)
               (copy_word (dst + 4) (src + 4) (copy_word dst src m))))
      else (dst, src, len, m))"

definition rt_memcpy :: "u32 \<Rightarrow> u32 \<Rightarrow> nat \<Rightarrow> mem \<Rightarrow> mem" where
  "rt_memcpy dst src count m =
     (if \<not> count < 16 \<and> (src AND 3) OR (dst AND 3) = 0 then
        (let (dst, src, len, m) = memcpy_blocks dst src count m;
             (dst, src, len, m) = memcpy_words dst src len m
         in memcpy_bytes dst src len m)
      else memcpy_bytes dst src count m)"

fun memmove_back :: "u32 \<Rightarrow> u32 \<Rightarrow> nat \<Rightarrow> mem \<Rightarrow> mem" where
  "memmove_back tmp s 0 m = m"
| "memmove_back tmp s (Suc n) m = memmove_back (tmp - 1) (s - 1) n (m(tmp - 1 := m (s - 1)))"

definition rt_memmove :: "u32 \<Rightarrow> u32 \<Rightarrow> nat \<Rightarrow> mem \<Rightarrow> mem" where
  "rt_memmove dest src n m =
     (if src < dest \<and> dest < src + of_nat n
      then memmove_back (dest + of_nat n) (src + of_nat n) n m
      else memcpy_bytes dest src n m)"

declare memset_words.simps [simp del] memset_blocks.simps [simp del]
  memcpy_words.simps [simp del] memcpy_blocks.simps [simp del]

section \<open>What they do\<close>

definition fill :: "u32 \<Rightarrow> u8 \<Rightarrow> nat \<Rightarrow> mem \<Rightarrow> mem" where
  "fill a d n m = (\<lambda>x. if unat (x - a) < n then d else m x)"

definition copied :: "u32 \<Rightarrow> u32 \<Rightarrow> nat \<Rightarrow> mem \<Rightarrow> mem" where
  "copied dst src n m = (\<lambda>x. if unat (x - dst) < n then m (src + (x - dst)) else m x)"

text \<open>Copying upwards is safe unless the destination starts inside the source.\<close>

definition copy_up_safe :: "u32 \<Rightarrow> u32 \<Rightarrow> nat \<Rightarrow> bool" where
  "copy_up_safe dst src n \<longleftrightarrow> dst = src \<or> n \<le> unat (dst - src)"

lemma unat_minus_of_nat:
  fixes w :: u32
  assumes "k < 2 ^ 32"
  shows "unat (w - of_nat k) = (if k \<le> unat w then unat w - k else 2 ^ 32 + unat w - k)"
proof -
  have w: "unat w < 2 ^ 32" using unsigned_less [of w] by simp
  have k: "unat (of_nat k :: u32) = k" using assms by (simp add: unat_of_nat take_bit_nat_eq_self)
  show ?thesis
  proof (cases "k \<le> unat w")
    case True
    then have "w - of_nat k = of_nat (unat w - k)" by simp
    then show ?thesis using True w by (simp add: unat_of_nat take_bit_nat_eq_self del: of_nat_diff)
  next
    case False
    then have "w - of_nat k = of_nat (2 ^ 32 + unat w - k)" using assms by simp
    then show ?thesis using False assms w
      by (simp add: unat_of_nat take_bit_nat_eq_self del: of_nat_diff)
  qed
qed

lemma in_range_iff:
  fixes x a :: u32
  assumes "k + n \<le> 2 ^ 32"
  shows "unat (x - (a + of_nat k)) < n \<longleftrightarrow> k \<le> unat (x - a) \<and> unat (x - a) < k + n"
proof (cases "n = 0")
  case False
  then have "k < 2 ^ 32" using assms by simp
  moreover have eq: "x - (a + of_nat k) = (x - a) - of_nat k" by simp
  moreover have "unat (x - a) < 2 ^ 32" using unsigned_less [of "x - a"] by simp
  ultimately show ?thesis
    unfolding eq using unat_minus_of_nat [of k "x - a"] assms by (auto split: if_splits)
qed simp

lemma fill_fill:
  "k + n \<le> 2 ^ 32 \<Longrightarrow> fill (a + of_nat k) d n (fill a d k m) = fill a d (k + n) m"
  by (rule ext) (auto simp: fill_def in_range_iff)

lemma fill_0 [simp]: "fill a d 0 m = m"
  by (simp add: fill_def)

lemma fill_1: "fill a d (Suc 0) m = m(a := d)"
  by (rule ext) (auto simp: fill_def unat_eq_0)

lemma memset_bytes_fill: "n \<le> 2 ^ 32 \<Longrightarrow> memset_bytes p d n m = fill p d n m"
proof (induction n arbitrary: p m)
  case (Suc n)
  then show ?case
    using fill_fill [of 1 n p d m] by (simp add: fill_1 [symmetric])
qed simp


definition splat :: "u8 \<Rightarrow> u32" where
  "splat c = (let buffer = push_bit 8 (ucast c) OR ucast c in buffer OR push_bit 16 buffer)"

lemma splat_bytes:
  "ucast (splat c) = c" "ucast (drop_bit 8 (splat c)) = c"
  "ucast (drop_bit 16 (splat c)) = c" "ucast (drop_bit 24 (splat c)) = c"
  by (rule bit_word_eqI; auto simp: splat_def Let_def bit_simps dest: bit_imp_le_length)+

lemma write32_splat: "write32 a (splat c) m = fill a c 4 m"
proof -
  have "fill a c 4 m = fill (a + 3) c 1 (fill (a + 2) c 1 (fill (a + 1) c 1 (fill a c 1 m)))"
    using fill_fill [of 1 1 a c m] fill_fill [of 2 1 a c m] fill_fill [of 3 1 a c m] by (simp del: One_nat_def)
  then show ?thesis
    by (simp add: write32_def splat_bytes fill_1)
qed

lemma memset_words_fill:
  "n \<le> 2 ^ 32 \<Longrightarrow>
   (case memset_words p (splat c) n m of (p, n, m) \<Rightarrow> memset_bytes p c n m) = fill p c n m"
proof (induction p "splat c" n m rule: memset_words.induct)
  case (1 p n m)
  show ?case
  proof (cases "n \<ge> 4")
    case True
    then show ?thesis
      using 1 fill_fill [of 4 "n - 4" p c m] by (subst memset_words.simps) (simp add: write32_splat)
  next
    case False
    then show ?thesis using 1 by (subst memset_words.simps) (simp add: memset_bytes_fill)
  qed
qed

lemma memset_blocks_fill:
  "n \<le> 2 ^ 32 \<Longrightarrow>
   (case memset_blocks p (splat c) n m of (p, n, m) \<Rightarrow>
      case memset_words p (splat c) n m of (p, n, m) \<Rightarrow> memset_bytes p c n m) = fill p c n m"
proof (induction p "splat c" n m rule: memset_blocks.induct)
  case (1 p n m)
  show ?case
  proof (cases "n \<ge> 16")
    case True
    then show ?thesis
      using 1 fill_fill [of 4 4 p c m] fill_fill [of 8 4 p c m] fill_fill [of 12 4 p c m]
        fill_fill [of 16 "n - 16" p c m]
      by (subst memset_blocks.simps) (simp add: write32_splat)
  next
    case False
    then show ?thesis using 1 by (subst memset_blocks.simps) (simp add: memset_words_fill)
  qed
qed

lemma rt_memset_fill: "n \<le> 2 ^ 32 \<Longrightarrow> rt_memset a c n m = fill a c n m"
  using memset_blocks_fill [where n = n and p = a and c = c and m = m]
  by (simp add: rt_memset_def memset_bytes_fill splat_def Let_def)

subsection \<open>Copying\<close>

lemma copied_0 [simp]: "copied dst src 0 m = m"
  by (simp add: copied_def)

lemma copied_1: "copied dst src (Suc 0) m = m(dst := m src)"
  by (rule ext) (auto simp: copied_def unat_eq_0)

lemma copied_copied:
  assumes kn: "k + n \<le> 2 ^ 32" and safe: "copy_up_safe dst src (k + n)"
  shows "copied (dst + of_nat k) (src + of_nat k) n (copied dst src k m) = copied dst src (k + n) m"
proof
  fix x
  define z where "z = x - dst"
  have eq: "src + of_nat k + (x - (dst + of_nat k)) = src + z"
    by (simp add: z_def)
  have no: "copied dst src k m (src + z) = m (src + z)" if z: "k \<le> unat z" "unat z < k + n"
  proof (cases "dst = src")
    case False
    define w where "w = src + z - dst"
    have "\<not> unat w < k"
    proof
      assume "unat w < k"
      then have "w \<le> z" "unat w < unat z" using z by (simp_all add: word_le_nat_alt)
      then have "unat (z - w) = unat z - unat w" by (simp add: unat_sub)
      moreover have "z - w = dst - src" by (simp add: w_def z_def)
      ultimately show False
        using safe False z(2) \<open>unat w < unat z\<close> by (simp add: copy_up_safe_def)
    qed
    then show ?thesis by (simp add: copied_def w_def)
  qed (simp add: copied_def)
  show "copied (dst + of_nat k) (src + of_nat k) n (copied dst src k m) x = copied dst src (k + n) m x"
  proof (cases "unat (x - (dst + of_nat k)) < n")
    case True
    then have z: "k \<le> unat z" "unat z < k + n" using in_range_iff [OF kn] by (simp_all add: z_def)
    have "copied (dst + of_nat k) (src + of_nat k) n (copied dst src k m) x = copied dst src k m (src + z)"
      using True unfolding copied_def [of "dst + of_nat k"] eq by simp
    also have "\<dots> = m (src + z)" by (rule no [OF z])
    also have "\<dots> = copied dst src (k + n) m x" using z by (simp add: copied_def z_def)
    finally show ?thesis .
  next
    case False
    then have z: "unat z < k \<or> k + n \<le> unat z" using in_range_iff [OF kn] by (auto simp: z_def not_less)
    have "copied (dst + of_nat k) (src + of_nat k) n (copied dst src k m) x = copied dst src k m x"
      using False by (simp add: copied_def [of "dst + of_nat k"])
    then show ?thesis using z by (auto simp: copied_def z_def)
  qed
qed

lemma copy_up_safe_mono: "copy_up_safe dst src n \<Longrightarrow> k \<le> n \<Longrightarrow> copy_up_safe dst src k"
  by (auto simp: copy_up_safe_def)

lemma copy_up_safe_shift: "copy_up_safe (dst + x) (src + x) n = copy_up_safe dst src n"
  by (simp add: copy_up_safe_def)

lemma memcpy_bytes_copied:
  "n \<le> 2 ^ 32 \<Longrightarrow> copy_up_safe dst src n \<Longrightarrow> memcpy_bytes dst src n m = copied dst src n m"
proof (induction n arbitrary: dst src m)
  case (Suc n)
  then show ?case
    using copied_copied [of 1 n dst src m] copy_up_safe_mono [of dst src "Suc n" n]
    by (simp add: copied_1 [symmetric] copy_up_safe_shift)
qed simp

lemma read32_bytes:
  "ucast (read32 m a) = m a" "ucast (drop_bit 8 (read32 m a)) = m (a + 1)"
  "ucast (drop_bit 16 (read32 m a)) = m (a + 2)" "ucast (drop_bit 24 (read32 m a)) = m (a + 3)"
  by (rule bit_word_eqI; auto simp: read32_def bit_simps dest: bit_imp_le_length)+

text \<open>A word that was written is read back.\<close>

lemma read32_eqI:
  assumes b: "m a = ucast w" "m (a + 1) = ucast (drop_bit 8 w)" "m (a + 2) = ucast (drop_bit 16 w)" "m (a + 3) = ucast (drop_bit 24 w)"
  shows "read32 m a = w"
proof -
  have "bit (read32 m a) n = bit w n" if "n < 32" for n
  proof -
    consider "n < 8" | "8 \<le> n" "n < 16" | "16 \<le> n" "n < 24" | "24 \<le> n" by linarith
    then show ?thesis using that by cases (auto simp: read32_def b bit_simps)
  qed
  then show ?thesis by (intro bit_word_eqI) simp
qed

lemma read32_write32: "read32 (write32 a w m) a = w"
  by (rule read32_eqI) (simp_all add: write32_def)

lemma read32_cong:
  assumes "\<And>i. i < 4 \<Longrightarrow> m' (a + of_nat i) = m (a + of_nat i)"
  shows "read32 m' a = read32 m a"
  using assms [of 0] assms [of 1] assms [of 2] assms [of 3] by (simp add: read32_def)

lemma copy_word_copied: "copy_word dst src m = copied dst src 4 m"
proof
  fix x
  define z where "z = x - dst"
  have x: "x = dst + z" by (simp add: z_def)
  have "unat z < 4 \<longleftrightarrow> z = 0 \<or> z = 1 \<or> z = 2 \<or> z = 3"
  proof -
    have "unat z < 4 \<longleftrightarrow> unat z = 0 \<or> unat z = 1 \<or> unat z = 2 \<or> unat z = 3" by auto
    then show ?thesis by (simp add: word_unat_eq_iff)
  qed
  then show "copy_word dst src m x = copied dst src 4 m x"
    by (auto simp: copy_word_def write32_def read32_bytes copied_def x)
qed

lemma memcpy_words_copied:
  "n \<le> 2 ^ 32 \<Longrightarrow> copy_up_safe dst src n \<Longrightarrow>
   (case memcpy_words dst src n m of (dst, src, n, m) \<Rightarrow> memcpy_bytes dst src n m) = copied dst src n m"
proof (induction dst src n m rule: memcpy_words.induct)
  case (1 dst src n m)
  show ?case
  proof (cases "n \<ge> 4")
    case True
    then show ?thesis
      using 1 copied_copied [of 4 "n - 4" dst src m] copy_up_safe_mono [of dst src n "n - 4"]
      by (subst memcpy_words.simps) (simp add: copy_word_copied copy_up_safe_shift)
  next
    case False
    then show ?thesis using 1 by (subst memcpy_words.simps) (simp add: memcpy_bytes_copied)
  qed
qed

lemma memcpy_blocks_copied:
  "n \<le> 2 ^ 32 \<Longrightarrow> copy_up_safe dst src n \<Longrightarrow>
   (case memcpy_blocks dst src n m of (dst, src, n, m) \<Rightarrow>
      case memcpy_words dst src n m of (dst, src, n, m) \<Rightarrow> memcpy_bytes dst src n m) = copied dst src n m"
proof (induction dst src n m rule: memcpy_blocks.induct)
  case (1 dst src n m)
  show ?case
  proof (cases "n \<ge> 16")
    case True
    have "copied (dst + 12) (src + 12) 4 (copied (dst + 8) (src + 8) 4
            (copied (dst + 4) (src + 4) 4 (copied dst src 4 m))) = copied dst src 16 m"
      using True copy_up_safe_mono [OF 1(3), of 8] copy_up_safe_mono [OF 1(3), of 12]
        copy_up_safe_mono [OF 1(3), of 16]
        copied_copied [of 4 4 dst src m] copied_copied [of 8 4 dst src m] copied_copied [of 12 4 dst src m]
      by simp
    then show ?thesis
      using True 1 copied_copied [of 16 "n - 16" dst src m] copy_up_safe_mono [of dst src n "n - 16"]
      by (subst memcpy_blocks.simps) (simp add: copy_word_copied copy_up_safe_shift)
  next
    case False
    then show ?thesis using 1 by (subst memcpy_blocks.simps) (simp add: memcpy_words_copied)
  qed
qed

lemma rt_memcpy_copied:
  "n \<le> 2 ^ 32 \<Longrightarrow> copy_up_safe dst src n \<Longrightarrow> rt_memcpy dst src n m = copied dst src n m"
  using memcpy_blocks_copied [where n = n and dst = dst and src = src and m = m]
  by (simp add: rt_memcpy_def memcpy_bytes_copied)

text \<open>
  Copying downwards from the top. \<open>copied\<close> of the top byte first, then of the rest, is safe when the
  source does not start inside the destination.
\<close>

lemma memmove_back_copied:
  assumes "n \<le> 2 ^ 32" "n \<le> unat (src - dst)"
  shows "memmove_back (dst + of_nat n) (src + of_nat n) n m = copied dst src n m"
  using assms
proof (induction n arbitrary: m)
  case (Suc n)
  let ?m = "m(dst + of_nat n := m (src + of_nat n))"
  have "memmove_back (dst + of_nat (Suc n)) (src + of_nat (Suc n)) (Suc n) m =
      memmove_back (dst + of_nat n) (src + of_nat n) n ?m"
    by (simp add: algebra_simps)
  also have "\<dots> = copied dst src n ?m"
    by (rule Suc.IH) (use Suc.prems in simp_all)
  also have "\<dots> = copied dst src (Suc n) m"
  proof
    fix x
    define z where "z = x - dst"
    have n: "unat (of_nat n :: u32) = n" using Suc.prems by (simp add: unat_of_nat take_bit_nat_eq_self)
    have zn: "unat z = n \<longleftrightarrow> z = of_nat n" using n by (simp add: word_unat_eq_iff)
    then have top: "x = dst + of_nat n \<longleftrightarrow> unat z = n" by (auto simp: z_def algebra_simps)
    have read: "?m (src + z) = m (src + z)" if "unat z < n"
    proof -
      have "src + z \<noteq> dst + of_nat n"
      proof
        assume "src + z = dst + of_nat n"
        then have "src - dst = of_nat n - z" by (simp add: algebra_simps)
        moreover have "unat (of_nat n - z) = n - unat z"
          using that n by (simp add: unat_sub word_le_nat_alt)
        ultimately show False using Suc.prems(2) by simp
      qed
      then show ?thesis by simp
    qed
    show "copied dst src n ?m x = copied dst src (Suc n) m x"
    proof (cases "unat z < n")
      case True
      then show ?thesis using read by (simp add: copied_def z_def)
    next
      case False
      have "src + (x - dst) = src + of_nat n" if "unat z = n"
        using that zn by (simp add: z_def)
      then show ?thesis using False top by (auto simp: copied_def z_def)
    qed
  qed
  finally show ?case .
qed simp

lemma rt_memmove_copied:
  assumes n: "n < 2 ^ 32" and s: "unat src + n < 2 ^ 32" and d: "unat dst + n < 2 ^ 32"
  shows "rt_memmove dst src n m = copied dst src n m"
proof -
  have nn: "unat (of_nat n :: u32) = n" using n by (simp add: unat_of_nat take_bit_nat_eq_self)
  have sn: "unat (src + of_nat n) = unat src + n"
    using s nn by (simp add: unat_word_ariths)
  show ?thesis
  proof (cases "src < dst \<and> dst < src + of_nat n")
    case True
    then have l: "unat src < unat dst" "unat dst < unat src + n"
      using sn by (simp_all add: word_less_nat_alt)
    have "unat (src - dst) = 2 ^ 32 + unat src - unat dst"
      using unat_minus_of_nat [of "unat dst" src] unsigned_less [of dst] l by simp
    then have "n \<le> unat (src - dst)" using d l by simp
    then show ?thesis
      using True n memmove_back_copied [of n src dst m] by (simp add: rt_memmove_def)
  next
    case False
    have "copy_up_safe dst src n"
    proof (cases "src < dst")
      case True
      then have "unat (dst - src) = unat dst - unat src" "unat src + n \<le> unat dst"
        using False sn by (simp_all add: unat_sub word_le_nat_alt word_less_nat_alt)
      then show ?thesis unfolding copy_up_safe_def by linarith
    next
      case ge: False
      show ?thesis
      proof (cases "src = dst")
        case False
        then have "unat dst < unat src"
          using ge by (simp add: word_less_nat_alt word_unat_eq_iff)
        then have "unat (dst - src) = 2 ^ 32 + unat dst - unat src"
          using unat_minus_of_nat [of "unat src" dst] unsigned_less [of src] by simp
        moreover have "n \<le> 2 ^ 32 + unat dst - unat src"
          using s by (intro add_le_imp_le_diff) simp
        ultimately show ?thesis by (simp add: copy_up_safe_def)
      qed (simp add: copy_up_safe_def)
    qed
    then show ?thesis
      using False n memcpy_bytes_copied [of n dst src m] by (auto simp: rt_memmove_def)
  qed
qed

end
