(* ===== verification/RT_State.thy ===== *)
theory RT_State
  imports RT_List RT_KService RT_Strings RT_Memory
begin

text \<open>
  The state of the kernel: the structures of \<^verbatim>\<open>src/include/rtdef.h\<close> and the static variables of
  \<^verbatim>\<open>src/src\<close>, in the configuration of \<^verbatim>\<open>src/bsp/tm4c129x/rtconfig.h\<close>. A pointer to a structure is the
  structure's identifier; the list nodes embedded in the structures, and the list heads, are the
  addresses of one link store (theory RT_List), so that a thread's \<^verbatim>\<open>tlist\<close> is in at most one ring
  and every list operation of the C code is the pointer operation itself.
\<close>

section \<open>Configuration\<close>

abbreviation (input) RT_THREAD_PRIORITY_MAX :: nat where "RT_THREAD_PRIORITY_MAX \<equiv> 256"
abbreviation (input) RT_NAME_MAX :: nat where "RT_NAME_MAX \<equiv> 16"
abbreviation (input) RT_TICK_PER_SECOND :: u32 where "RT_TICK_PER_SECOND \<equiv> 100"
abbreviation (input) RT_TICK_MAX :: u32 where "RT_TICK_MAX \<equiv> 0xffffffff"
abbreviation (input) RT_TICK_HALF :: u32 where "RT_TICK_HALF \<equiv> 0x7fffffff"  \<comment> \<open>\<^verbatim>\<open>RT_TICK_MAX / 2\<close>\<close>

text \<open>Error numbers and flags.\<close>

abbreviation (input) RT_EOK :: int where "RT_EOK \<equiv> 0"
abbreviation (input) RT_ERROR :: int where "RT_ERROR \<equiv> 1"
abbreviation (input) RT_ETIMEOUT :: int where "RT_ETIMEOUT \<equiv> 2"
abbreviation (input) RT_EFULL :: int where "RT_EFULL \<equiv> 3"
abbreviation (input) RT_EEMPTY :: int where "RT_EEMPTY \<equiv> 4"
abbreviation (input) RT_ENOMEM :: int where "RT_ENOMEM \<equiv> 5"
abbreviation (input) RT_EINTR :: int where "RT_EINTR \<equiv> 9"

abbreviation (input) RT_THREAD_INIT :: u8 where "RT_THREAD_INIT \<equiv> 0x00"
abbreviation (input) RT_THREAD_READY :: u8 where "RT_THREAD_READY \<equiv> 0x01"
abbreviation (input) RT_THREAD_SUSPEND :: u8 where "RT_THREAD_SUSPEND \<equiv> 0x02"
abbreviation (input) RT_THREAD_CLOSE :: u8 where "RT_THREAD_CLOSE \<equiv> 0x04"
abbreviation (input) RT_THREAD_STAT_MASK :: u8 where "RT_THREAD_STAT_MASK \<equiv> 0x0f"

abbreviation (input) RT_TIMER_FLAG_ACTIVATED :: u8 where "RT_TIMER_FLAG_ACTIVATED \<equiv> 0x1"
abbreviation (input) RT_TIMER_FLAG_PERIODIC :: u8 where "RT_TIMER_FLAG_PERIODIC \<equiv> 0x2"
abbreviation (input) RT_TIMER_FLAG_SOFT_TIMER :: u8 where "RT_TIMER_FLAG_SOFT_TIMER \<equiv> 0x4"

abbreviation (input) RT_TIMER_SKIP_LIST_LEVEL :: nat where "RT_TIMER_SKIP_LIST_LEVEL \<equiv> 1"

abbreviation (input) RT_IPC_FLAG_FIFO :: u8 where "RT_IPC_FLAG_FIFO \<equiv> 0x00"
abbreviation (input) RT_IPC_FLAG_PRIO :: u8 where "RT_IPC_FLAG_PRIO \<equiv> 0x01"

section \<open>Pointers and list nodes\<close>

type_synonym thread_id = nat

text \<open>The two threads that the kernel itself declares.\<close>

abbreviation (input) timer_thread :: thread_id where "timer_thread \<equiv> 0"
abbreviation (input) idle :: thread_id where "idle \<equiv> 1"

datatype timer_ref = Thread_timer thread_id | Timer nat

datatype ipc_ref = Sem nat | Mutex nat | Event nat | Mailbox nat | Msgqueue nat | Mempool nat
  | Completion nat | Data_push nat | Data_pop nat

datatype obj_ref = O_thread thread_id | O_timer timer_ref | O_ipc ipc_ref | O_device nat | O_memheap nat

datatype obj_class =
    Class_Thread | Class_Semaphore | Class_Mutex | Class_Event | Class_MailBox | Class_MessageQueue
  | Class_MemHeap | Class_MemPool | Class_Device | Class_Timer | Class_Module | Class_Unknown

datatype node =
    Priority_table nat            \<comment> \<open>\<^verbatim>\<open>rt_thread_priority_table[p]\<close>\<close>
  | Thread_defunct                \<comment> \<open>\<^verbatim>\<open>rt_thread_defunct\<close>\<close>
  | Timer_list nat                \<comment> \<open>\<^verbatim>\<open>rt_timer_list[level]\<close>\<close>
  | Soft_timer_list nat           \<comment> \<open>\<^verbatim>\<open>rt_soft_timer_list[level]\<close>\<close>
  | Suspend_thread ipc_ref        \<comment> \<open>\<^verbatim>\<open>suspend_thread\<close> of an IPC object, and the lists like it\<close>
  | Suspend_sender nat            \<comment> \<open>\<^verbatim>\<open>suspend_sender_thread\<close> of a mailbox\<close>
  | Object_list obj_class         \<comment> \<open>\<^verbatim>\<open>rt_object_container[...].object_list\<close>\<close>
  | Tlist thread_id               \<comment> \<open>\<^verbatim>\<open>thread->tlist\<close>\<close>
  | Row timer_ref nat             \<comment> \<open>\<^verbatim>\<open>timer->row[level]\<close>\<close>
  | Obj_node obj_ref              \<comment> \<open>\<^verbatim>\<open>object->list\<close>\<close>

primrec is_head :: "node \<Rightarrow> bool" where
  "is_head (Priority_table p) = True"
| "is_head Thread_defunct = True"
| "is_head (Timer_list i) = True"
| "is_head (Soft_timer_list i) = True"
| "is_head (Suspend_thread r) = True"
| "is_head (Suspend_sender r) = True"
| "is_head (Object_list c) = True"
| "is_head (Tlist t) = False"
| "is_head (Row t i) = False"
| "is_head (Obj_node ob) = False"

definition heads :: "node set" where
  "heads = {n. is_head n}"

lemma heads_iff [simp]: "n \<in> heads \<longleftrightarrow> is_head n"
  by (simp add: heads_def)

text \<open>\<^verbatim>\<open>rt_list_entry\<close> at the three places a node is embedded.\<close>

fun thread_entry :: "node \<Rightarrow> thread_id res" where
  "thread_entry (Tlist t) = Ok t"
| "thread_entry _ = Fault Bad_Entry"

fun timer_entry :: "nat \<Rightarrow> node \<Rightarrow> timer_ref res" where
  "timer_entry lvl (Row t i) = (if i = lvl then Ok t else Fault Bad_Entry)"
| "timer_entry lvl _ = Fault Bad_Entry"

fun object_entry :: "node \<Rightarrow> obj_ref res" where
  "object_entry (Obj_node ob) = Ok ob"
| "object_entry _ = Fault Bad_Entry"

section \<open>Structures\<close>

datatype param = P_null | P_thread thread_id | P_addr u32

datatype timeout_func = Rt_thread_timeout | User_timeout nat

record rt_object =
  ob_name :: "cstr"
  ob_type :: u8
  ob_flag :: u8

record rt_timer =
  tm_timeout_func :: timeout_func
  tm_parameter :: param
  tm_init_tick :: u32
  tm_timeout_tick :: u32

record rt_thread =
  th_sp :: u32
  th_entry :: u32
  th_parameter :: u32
  th_stack_addr :: u32
  th_stack_size :: u32
  th_error :: int
  th_stat :: u8
  th_current_priority :: u8
  th_init_priority :: u8
  th_number :: u8
  th_high_mask :: u8
  th_number_mask :: u32
  th_event_set :: u32
  th_event_info :: u8
  th_init_tick :: u32
  th_remaining_tick :: u32
  th_cleanup :: "nat option"
  th_user_data :: u32

record rt_semaphore =
  sem_value :: u16

record rt_mutex =
  mx_value :: u16
  mx_original_priority :: u8
  mx_hold :: u8
  mx_owner :: "thread_id option"

record rt_event =
  ev_set :: u32

record rt_mailbox =
  mb_msg_pool :: "u32 list"
  mb_size :: u16
  mb_entry :: u16
  mb_in_offset :: u16
  mb_out_offset :: u16

record rt_messagequeue =
  mq_msg_size :: u16
  mq_max_msgs :: u16
  mq_entry :: u16
  mq_msg_queue_head :: "nat option"
  mq_msg_queue_tail :: "nat option"
  mq_msg_queue_free :: "nat option"
  mq_next :: "nat \<Rightarrow> nat option"      \<comment> \<open>the \<^verbatim>\<open>next\<close> of the message in each block of the pool\<close>
  mq_data :: "nat \<Rightarrow> u8 list"         \<comment> \<open>the bytes after that header\<close>

datatype mp_header = Next_block "nat option" | Owner_pool nat

record rt_mempool =
  mp_size :: u32
  mp_block_size :: u32
  mp_block_list :: "nat option"
  mp_block_total_count :: u32
  mp_block_free_count :: u32
  mp_suspend_thread_count :: u32
  mp_header :: "nat \<Rightarrow> mp_header"     \<comment> \<open>the pointer stored in front of each block\<close>

text \<open>
  What a thread that called \<^verbatim>\<open>rt_schedule\<close> from inside a blocking call still has to execute: the
  call, with the values of its local variables that are live after the switch.
\<close>

datatype cont =
    C_sleep
  | C_sem_take nat
  | C_mutex_take nat u32
  | C_event_recv nat
  | C_mb_send nat u32 u32 u32
  | C_mb_recv nat u32 u32
  | C_mq_recv nat u32 u32 u32
  | C_mp_alloc nat u32 u32
  | C_completion_wait nat
  | C_data_push nat u32 u32 u32
  | C_data_pop nat u32

text \<open>The blocks given back with \<^verbatim>\<open>RT_KERNEL_FREE\<close>, in the order of the calls.\<close>

datatype kptr = K_object obj_ref | K_stack thread_id | K_pool ipc_ref | K_workqueue nat

record kstate =
  links :: "node links"
  mem :: mem
  object :: "obj_ref \<Rightarrow> rt_object"
  thread :: "thread_id \<Rightarrow> rt_thread"
  timer :: "timer_ref \<Rightarrow> rt_timer"
  sem :: "nat \<Rightarrow> rt_semaphore"
  mutex :: "nat \<Rightarrow> rt_mutex"
  event :: "nat \<Rightarrow> rt_event"
  mailbox :: "nat \<Rightarrow> rt_mailbox"
  msgqueue :: "nat \<Rightarrow> rt_messagequeue"
  mempool :: "nat \<Rightarrow> rt_mempool"
  rt_scheduler_lock_nest :: u16
  rt_current_thread :: "thread_id option"
  rt_current_priority :: u8
  rt_thread_ready_priority_group :: u32
  rt_thread_ready_table :: "nat \<Rightarrow> u8"
  rt_interrupt_nest :: u8
  rt_tick :: u32
  random_nr :: u32
  rt_errno :: int
  kfreed :: "kptr list"
  cont :: "thread_id \<Rightarrow> cont option"

section \<open>Updates\<close>

definition upd_links :: "(node links \<Rightarrow> node links) \<Rightarrow> kstate \<Rightarrow> kstate" where
  [simp]: "upd_links f s = s\<lparr>links := f (links s)\<rparr>"

definition upd_thread :: "thread_id \<Rightarrow> (rt_thread \<Rightarrow> rt_thread) \<Rightarrow> kstate \<Rightarrow> kstate" where
  [simp]: "upd_thread t f s = s\<lparr>thread := (thread s)(t := f (thread s t))\<rparr>"

definition upd_timer :: "timer_ref \<Rightarrow> (rt_timer \<Rightarrow> rt_timer) \<Rightarrow> kstate \<Rightarrow> kstate" where
  [simp]: "upd_timer t f s = s\<lparr>timer := (timer s)(t := f (timer s t))\<rparr>"

definition upd_object :: "obj_ref \<Rightarrow> (rt_object \<Rightarrow> rt_object) \<Rightarrow> kstate \<Rightarrow> kstate" where
  [simp]: "upd_object ob f s = s\<lparr>object := (object s)(ob := f (object s ob))\<rparr>"

definition kernel_free :: "kptr \<Rightarrow> kstate \<Rightarrow> kstate" where
  [simp]: "kernel_free p s = s\<lparr>kfreed := kfreed s @ [p]\<rparr>"

text \<open>The context checks of \<^verbatim>\<open>src/include/rtdebug.h\<close>.\<close>

definition not_in_interrupt :: "kstate \<Rightarrow> bool" where
  "not_in_interrupt s \<longleftrightarrow> rt_interrupt_nest s = 0"

definition in_thread_context :: "kstate \<Rightarrow> bool" where
  "in_thread_context s \<longleftrightarrow> rt_current_thread s \<noteq> None \<and> not_in_interrupt s"

text \<open>The state bits of a thread.\<close>

abbreviation th_state :: "rt_thread \<Rightarrow> u8" where
  "th_state th \<equiv> th_stat th AND RT_THREAD_STAT_MASK"

end
