(* ===== verification/RT_Object.thy ===== *)
theory RT_Object
  imports RT_State
begin

text \<open>
  Kernel object management, \<^verbatim>\<open>src/src/object.c\<close>: every kernel object is on the list of its class.
  \<^verbatim>\<open>RT_USING_MODULE\<close> is not configured. The memory of a dynamic object is the result of
  \<^verbatim>\<open>RT_KERNEL_MALLOC\<close> and an argument of the model; \<^verbatim>\<open>rt_object_find\<close> locks the scheduler and is in
  theory RT_Thread.
\<close>

primrec class_code :: "obj_class \<Rightarrow> u8" where
  "class_code Class_Thread = 0"
| "class_code Class_Semaphore = 1"
| "class_code Class_Mutex = 2"
| "class_code Class_Event = 3"
| "class_code Class_MailBox = 4"
| "class_code Class_MessageQueue = 5"
| "class_code Class_MemHeap = 6"
| "class_code Class_MemPool = 7"
| "class_code Class_Device = 8"
| "class_code Class_Timer = 9"
| "class_code Class_Module = 10"
| "class_code Class_Unknown = 11"

abbreviation (input) RT_Object_Class_Static :: u8 where "RT_Object_Class_Static \<equiv> 0x80"

definition rt_object_container :: "obj_class list" where
  "rt_object_container =
     [Class_Thread, Class_Semaphore, Class_Mutex, Class_Event, Class_MailBox, Class_MessageQueue,
      Class_MemHeap, Class_MemPool, Class_Device, Class_Timer]"

fun get_information_loop :: "obj_class list \<Rightarrow> u8 \<Rightarrow> obj_class option" where
  "get_information_loop [] type = None"
| "get_information_loop (c # cs) type =
     (if class_code c = type then Some c else get_information_loop cs type)"

definition rt_object_get_information :: "u8 \<Rightarrow> obj_class option" where
  "rt_object_get_information type = get_information_loop rt_object_container type"

definition rt_object_init :: "obj_ref \<Rightarrow> obj_class \<Rightarrow> cstr \<Rightarrow> kstate \<Rightarrow> kstate res" where
  "rt_object_init ob type name s =
     (case rt_object_get_information (class_code type) of
        None \<Rightarrow> Fault Assert_Failed
      | Some information \<Rightarrow>
          (let s = upd_object ob (\<lambda>r. r\<lparr>ob_type := class_code type OR RT_Object_Class_Static\<rparr>) s;
               s = upd_object ob (\<lambda>r. r\<lparr>ob_name := rt_strncpy (ob_name r) name RT_NAME_MAX\<rparr>) s
           in Ok (upd_links (rt_list_insert_after (Object_list information) (Obj_node ob)) s)))"

definition rt_object_detach :: "obj_ref \<Rightarrow> kstate \<Rightarrow> kstate" where
  "rt_object_detach ob s = upd_links (rt_list_remove (Obj_node ob)) s"

text \<open>\<open>malloc\<close> is what \<^verbatim>\<open>RT_KERNEL_MALLOC\<close> returned: no memory, or the object's address.\<close>

definition rt_object_allocate ::
    "obj_ref option \<Rightarrow> obj_class \<Rightarrow> cstr \<Rightarrow> kstate \<Rightarrow> (obj_ref option \<times> kstate) res" where
  "rt_object_allocate malloc type name s =
     rbind (rassert (not_in_interrupt s) s) (\<lambda>s.
     (case rt_object_get_information (class_code type) of
        None \<Rightarrow> Fault Assert_Failed
      | Some information \<Rightarrow>
          (case malloc of
             None \<Rightarrow> Ok (None, s)
           | Some ob \<Rightarrow>
               (let s = upd_object ob (\<lambda>r. r\<lparr>ob_type := class_code type\<rparr>) s;
                    s = upd_object ob (\<lambda>r. r\<lparr>ob_flag := 0\<rparr>) s;
                    s = upd_object ob (\<lambda>r. r\<lparr>ob_name := rt_strncpy (ob_name r) name RT_NAME_MAX\<rparr>) s;
                    s = upd_links (rt_list_insert_after (Object_list information) (Obj_node ob)) s
                in Ok (Some ob, s)))))"

definition rt_object_delete :: "obj_ref \<Rightarrow> kstate \<Rightarrow> kstate res" where
  "rt_object_delete ob s =
     rbind (rassert (ob_type (object s ob) AND RT_Object_Class_Static = 0) s) (\<lambda>s.
     Ok (kernel_free (K_object ob) (upd_links (rt_list_remove (Obj_node ob)) s)))"

definition rt_object_is_systemobject :: "obj_ref \<Rightarrow> kstate \<Rightarrow> bool" where
  "rt_object_is_systemobject ob s \<longleftrightarrow> ob_type (object s ob) AND RT_Object_Class_Static \<noteq> 0"

section \<open>The container has every class but modules and unknown objects\<close>

lemma get_information_class [simp]:
  "rt_object_get_information (class_code c) =
     (if c = Class_Module \<or> c = Class_Unknown then None else Some c)"
  by (cases c) (simp_all add: rt_object_get_information_def rt_object_container_def)

lemma rt_object_init_Ok:
  assumes "type \<noteq> Class_Module" "type \<noteq> Class_Unknown"
  shows "\<exists>s'. rt_object_init ob type name s = Ok s' \<and>
     links s' = rt_list_insert_after (Object_list type) (Obj_node ob) (links s) \<and>
     thread s' = thread s \<and> timer s' = timer s \<and> rt_object_is_systemobject ob s'"
proof -
  have "(class_code type OR RT_Object_Class_Static) AND RT_Object_Class_Static \<noteq> 0"
    by (cases type) simp_all
  then show ?thesis
    using assms by (simp add: rt_object_init_def rt_object_is_systemobject_def Let_def)
qed

end
