(* ===== verification/RT_Scheduler.thy ===== *)
theory RT_Scheduler
  imports RT_State
begin

text \<open>
  The scheduler, \<^verbatim>\<open>src/src/scheduler.c\<close>, with 256 priorities: a ring of ready threads per priority, a
  byte of ready bits per group of eight priorities and a word of ready groups. Hooks are not
  installed, signals are not configured, and a context switch is the change of
  \<^verbatim>\<open>rt_current_thread\<close>. The stack check ends in a fault where the code prints and loops for ever; the
  warning it prints when the stack is only close to its end, and goes on, is not modelled.
\<close>

section \<open>Operations\<close>

definition rt_scheduler_stack_check :: "thread_id \<Rightarrow> kstate \<Rightarrow> kstate res" where
  "rt_scheduler_stack_check t s =
     (let th = thread s t
      in if mem s (th_stack_addr th) \<noteq> 0x23 \<or> th_sp th \<le> th_stack_addr th \<or>
            th_sp th > th_stack_addr th + th_stack_size th
         then Fault Stack_Overflow
         else Ok s)"

definition rt_system_scheduler_init :: "kstate \<Rightarrow> kstate" where
  "rt_system_scheduler_init s =
     (let s = s\<lparr>rt_scheduler_lock_nest := 0\<rparr>;
          s = fold (\<lambda>offset. upd_links (rt_list_init (Priority_table offset)))
                [0..<RT_THREAD_PRIORITY_MAX] s;
          s = s\<lparr>rt_current_priority := of_nat (RT_THREAD_PRIORITY_MAX - 1)\<rparr>;
          s = s\<lparr>rt_current_thread := None\<rparr>;
          s = s\<lparr>rt_thread_ready_priority_group := 0\<rparr>;
          s = s\<lparr>rt_thread_ready_table := (\<lambda>n. if n < 32 then 0 else rt_thread_ready_table s n)\<rparr>
      in upd_links (rt_list_init Thread_defunct) s)"

definition highest_ready_priority :: "kstate \<Rightarrow> u32 res" where
  "highest_ready_priority s =
     (let number = of_nat (rt_ffs (rt_thread_ready_priority_group s)) - 1 :: u32
      in if number < 32
         then Ok (push_bit 3 number + of_nat (rt_ffs (ucast (rt_thread_ready_table s (unat number)))) - 1)
         else Fault Out_Of_Range)"

definition first_thread :: "u32 \<Rightarrow> kstate \<Rightarrow> thread_id res" where
  "first_thread prio s =
     (if prio < 256 then thread_entry (lnext (links s) (Priority_table (unat prio)))
      else Fault Out_Of_Range)"

definition rt_system_scheduler_start :: "kstate \<Rightarrow> kstate res" where
  "rt_system_scheduler_start s =
     rbind (highest_ready_priority s) (\<lambda>hp.
     rbind (first_thread hp s) (\<lambda>to_thread.
     Ok (s\<lparr>rt_current_thread := Some to_thread\<rparr>)))"

definition rt_schedule :: "kstate \<Rightarrow> kstate res" where
  "rt_schedule s =
     (if rt_scheduler_lock_nest s = 0 then
        rbind (highest_ready_priority s) (\<lambda>hp.
        rbind (first_thread hp s) (\<lambda>to_thread.
        if Some to_thread \<noteq> rt_current_thread s then
          (case rt_current_thread s of
             None \<Rightarrow> Fault Null_Pointer
           | Some from_thread \<Rightarrow>
               (let s = s\<lparr>rt_current_priority := ucast hp\<rparr>;
                    s = s\<lparr>rt_current_thread := Some to_thread\<rparr>
                in rt_scheduler_stack_check to_thread s))
        else Ok s))
      else Ok s)"

definition rt_schedule_insert_thread :: "thread_id \<Rightarrow> kstate \<Rightarrow> kstate" where
  "rt_schedule_insert_thread t s =
     (let s = upd_thread t (\<lambda>th. th\<lparr>th_stat := RT_THREAD_READY OR (th_stat th AND NOT RT_THREAD_STAT_MASK)\<rparr>) s;
          th = thread s t;
          s = upd_links (rt_list_insert_before (Priority_table (unat (th_current_priority th))) (Tlist t)) s;
          n = unat (th_number th);
          s = s\<lparr>rt_thread_ready_table :=
                (rt_thread_ready_table s)(n := rt_thread_ready_table s n OR th_high_mask th)\<rparr>
      in s\<lparr>rt_thread_ready_priority_group := rt_thread_ready_priority_group s OR th_number_mask th\<rparr>)"

definition rt_schedule_remove_thread :: "thread_id \<Rightarrow> kstate \<Rightarrow> kstate" where
  "rt_schedule_remove_thread t s =
     (let s = upd_links (rt_list_remove (Tlist t)) s;
          th = thread s t;
          n = unat (th_number th)
      in if rt_list_isempty (Priority_table (unat (th_current_priority th))) (links s) then
           (let s = s\<lparr>rt_thread_ready_table :=
                  (rt_thread_ready_table s)(n := rt_thread_ready_table s n AND NOT (th_high_mask th))\<rparr>
            in if rt_thread_ready_table s n = 0
               then s\<lparr>rt_thread_ready_priority_group :=
                      rt_thread_ready_priority_group s AND NOT (th_number_mask th)\<rparr>
               else s)
         else s)"

definition rt_enter_critical :: "kstate \<Rightarrow> kstate" where
  "rt_enter_critical s = s\<lparr>rt_scheduler_lock_nest := rt_scheduler_lock_nest s + 1\<rparr>"

definition rt_exit_critical :: "kstate \<Rightarrow> kstate res" where
  "rt_exit_critical s =
     (let s = s\<lparr>rt_scheduler_lock_nest := rt_scheduler_lock_nest s - 1\<rparr>
      in if sint (rt_scheduler_lock_nest s) \<le> 0
         then rt_schedule (s\<lparr>rt_scheduler_lock_nest := 0\<rparr>)
         else Ok s)"

definition rt_critical_level :: "kstate \<Rightarrow> u16" where
  "rt_critical_level s = rt_scheduler_lock_nest s"

section \<open>The ready queue\<close>

text \<open>The priority attributes that startup and a change of priority compute.\<close>

definition attr_ok :: "rt_thread \<Rightarrow> bool" where
  "attr_ok th \<longleftrightarrow>
     th_number th = drop_bit 3 (th_current_priority th) \<and>
     th_number_mask th = push_bit (unat (th_number th)) 1 \<and>
     th_high_mask th = push_bit (unat (th_current_priority th AND 7)) 1"

lemma prio_bound: "unat (p :: u8) < 256"
  using unsigned_less [of p] by simp

lemma attr_okD:
  assumes "attr_ok th"
  shows attr_number: "unat (th_number th) = unat (th_current_priority th) div 8"
    and attr_number_mask: "bit (th_number_mask th) i \<longleftrightarrow> i = unat (th_current_priority th) div 8"
    and attr_high_mask: "bit (th_high_mask th) i \<longleftrightarrow> i = unat (th_current_priority th) mod 8"
proof -
  let ?p = "unat (th_current_priority th)"
  show n: "unat (th_number th) = ?p div 8"
    using assms by (simp add: attr_ok_def drop_bit_eq_div unat_div)
  have p: "?p < 256"
    by (rule prio_bound)
  have "th_current_priority th AND 7 = take_bit 3 (th_current_priority th)"
    by (simp add: take_bit_eq_mask mask_eq_exp_minus_1)
  then have m: "unat (th_current_priority th AND 7) = ?p mod 8"
    by (simp add: unsigned_take_bit_eq take_bit_eq_mod unat_mod)
  have "th_number_mask th = push_bit (?p div 8) 1"
    using assms n by (simp add: attr_ok_def)
  then show "bit (th_number_mask th) i \<longleftrightarrow> i = ?p div 8"
    using p by (auto simp: bit_simps)
  have "th_high_mask th = push_bit (?p mod 8) 1"
    using assms m by (simp add: attr_ok_def)
  then show "bit (th_high_mask th) i \<longleftrightarrow> i = ?p mod 8"
    using p by (auto simp: bit_simps)
qed

definition ready_bits :: "kstate \<Rightarrow> (node \<Rightarrow> node list) \<Rightarrow> bool" where
  "ready_bits s F \<longleftrightarrow>
     (\<forall>p < 256. bit (rt_thread_ready_table s (p div 8)) (p mod 8) \<longleftrightarrow> F (Priority_table p) \<noteq> []) \<and>
     (\<forall>n < 32. bit (rt_thread_ready_priority_group s) n \<longleftrightarrow> rt_thread_ready_table s n \<noteq> 0)"

definition queue_member :: "kstate \<Rightarrow> nat \<Rightarrow> node \<Rightarrow> bool" where
  "queue_member s p n \<longleftrightarrow>
     (\<exists>t. n = Tlist t \<and> p = unat (th_current_priority (thread s t)) \<and> attr_ok (thread s t))"

definition queue_inv :: "kstate \<Rightarrow> (node \<Rightarrow> node list) \<Rightarrow> bool" where
  "queue_inv s F \<longleftrightarrow>
     lists_wf heads (links s) F \<and> ready_bits s F \<and>
     (\<forall>p n. n \<in> set (F (Priority_table p)) \<longrightarrow> queue_member s p n)"


lemma queue_inv_wf: "queue_inv s F \<Longrightarrow> lists_wf heads (links s) F"
  by (simp add: queue_inv_def)

lemma queue_inv_bits: "queue_inv s F \<Longrightarrow> ready_bits s F"
  by (simp add: queue_inv_def)

lemma queue_inv_member: "queue_inv s F \<Longrightarrow> n \<in> set (F (Priority_table p)) \<Longrightarrow> queue_member s p n"
  by (simp add: queue_inv_def)

lemma queue_inv_thread:
  "queue_inv s F \<Longrightarrow> Tlist t \<in> set (F (Priority_table p)) \<Longrightarrow>
   p = unat (th_current_priority (thread s t)) \<and> attr_ok (thread s t)"
  using queue_inv_member [of s F "Tlist t" p] by (simp add: queue_member_def)

lemma div_mod_8_eq: "p div 8 = q div 8 \<Longrightarrow> p mod 8 = q mod 8 \<Longrightarrow> p = (q :: nat)"
  by (metis div_mult_mod_eq)

lemma zero_word_bits: "w = 0 \<longleftrightarrow> (\<forall>i. \<not> bit (w :: 'a :: len word) i)"
  by (auto intro: bit_eqI)

text \<open>
  Setting and clearing the two levels of bits for one priority \<open>p\<close>: \<open>tbl\<close> is the byte table,
  \<open>grp\<close> the group word, \<open>hm\<close> and \<open>nm\<close> the thread's two masks.
\<close>

definition bits_for :: "(nat \<Rightarrow> u8) \<Rightarrow> u32 \<Rightarrow> (nat \<Rightarrow> bool) \<Rightarrow> bool" where
  "bits_for tbl grp R \<longleftrightarrow>
     (\<forall>p < 256. bit (tbl (p div 8)) (p mod 8) \<longleftrightarrow> R p) \<and> (\<forall>n < 32. bit grp n \<longleftrightarrow> tbl n \<noteq> 0)"

lemma bits_forD1: "bits_for tbl grp R \<Longrightarrow> p < 256 \<Longrightarrow> bit (tbl (p div 8)) (p mod 8) \<longleftrightarrow> R p"
  by (simp add: bits_for_def)

lemma bits_forD2: "bits_for tbl grp R \<Longrightarrow> n < 32 \<Longrightarrow> bit grp n \<longleftrightarrow> tbl n \<noteq> 0"
  by (simp add: bits_for_def)

lemma ready_bits_iff:
  "ready_bits s F \<longleftrightarrow>
   bits_for (rt_thread_ready_table s) (rt_thread_ready_priority_group s) (\<lambda>p. F (Priority_table p) \<noteq> [])"
  by (simp add: ready_bits_def bits_for_def)

lemma bits_for_set:
  assumes b: "bits_for tbl grp R" and p: "p < 256"
    and hm: "\<And>i. bit hm i \<longleftrightarrow> i = p mod 8" and nm: "\<And>i. bit nm i \<longleftrightarrow> i = p div 8"
  shows "bits_for (tbl(p div 8 := tbl (p div 8) OR hm)) (grp OR nm) (R(p := True))"
proof -
  have nz: "tbl (p div 8) OR hm \<noteq> 0"
    using hm [of "p mod 8"] by (metis bit_or_iff zero_word_bits)
  show ?thesis
    unfolding bits_for_def
  proof (intro conjI allI impI)
    fix q :: nat assume q: "q < 256"
    have "q = p \<longleftrightarrow> q div 8 = p div 8 \<and> q mod 8 = p mod 8"
      using div_mod_8_eq by blast
    then show "bit ((tbl(p div 8 := tbl (p div 8) OR hm)) (q div 8)) (q mod 8) \<longleftrightarrow> (R(p := True)) q"
      using bits_forD1 [OF b q] by (simp add: bit_or_iff hm) metis
  next
    fix n :: nat assume n: "n < 32"
    show "bit (grp OR nm) n \<longleftrightarrow> (tbl(p div 8 := tbl (p div 8) OR hm)) n \<noteq> 0"
      using bits_forD2 [OF b n] nz by (simp add: bit_or_iff nm)
  qed
qed

lemma bits_for_clear:
  assumes b: "bits_for tbl grp R" and p: "p < 256"
    and hm: "\<And>i. bit hm i \<longleftrightarrow> i = p mod 8" and nm: "\<And>i. bit nm i \<longleftrightarrow> i = p div 8"
  shows "bits_for (tbl(p div 8 := tbl (p div 8) AND NOT hm))
    (if tbl (p div 8) AND NOT hm = 0 then grp AND NOT nm else grp) (R(p := False))"
proof -
  have nz: "tbl (p div 8) \<noteq> 0" if "tbl (p div 8) AND NOT hm \<noteq> 0" using that by auto
  show ?thesis
    unfolding bits_for_def
  proof (intro conjI allI impI)
    fix q :: nat assume q: "q < 256"
    have "q = p \<longleftrightarrow> q div 8 = p div 8 \<and> q mod 8 = p mod 8"
      using div_mod_8_eq by blast
    moreover have "q mod 8 < LENGTH(8)" by simp
    ultimately show "bit ((tbl(p div 8 := tbl (p div 8) AND NOT hm)) (q div 8)) (q mod 8) \<longleftrightarrow> (R(p := False)) q"
      using bits_forD1 [OF b q] by (simp add: bit_and_iff bit_not_iff hm) metis
  next
    fix n :: nat assume n: "n < 32"
    show "bit (if tbl (p div 8) AND NOT hm = 0 then grp AND NOT nm else grp) n \<longleftrightarrow>
        (tbl(p div 8 := tbl (p div 8) AND NOT hm)) n \<noteq> 0"
      using bits_forD2 [OF b n] nz n by (simp add: bit_and_iff bit_not_iff nm)
  qed
qed

lemma bits_for_cong:
  "bits_for tbl grp R \<Longrightarrow> (\<And>p. p < 256 \<Longrightarrow> R p = R' p) \<Longrightarrow> bits_for tbl grp R'"
  by (simp add: bits_for_def)

section \<open>Inserting and removing threads keeps the ready queue\<close>

lemma queue_insert_thread:
  assumes inv: "queue_inv s F" and det: "detached F (Tlist t)" and attr: "attr_ok (thread s t)"
  defines "p \<equiv> unat (th_current_priority (thread s t))"
  shows "queue_inv (rt_schedule_insert_thread t s)
           (F(Priority_table p := F (Priority_table p) @ [Tlist t]))" (is "queue_inv ?s ?F")
proof -
  have n: "unat (th_number (thread s t)) = p div 8"
    using attr_number [OF attr] by (simp add: p_def)
  have p: "p < 256" by (simp add: p_def prio_bound)
  have attr': "attr_ok (th\<lparr>th_stat := x\<rparr>) = attr_ok th" for th x
    by (simp add: attr_ok_def)
  have "lists_wf heads (links ?s) ?F"
    using rl.push_back [OF queue_inv_wf [OF inv], of "Priority_table p" "Tlist t"] det
    by (simp add: rt_schedule_insert_thread_def Let_def p_def)
  moreover have "ready_bits ?s ?F"
  proof -
    have "bits_for ((rt_thread_ready_table s)(p div 8 := rt_thread_ready_table s (p div 8) OR th_high_mask (thread s t)))
        (rt_thread_ready_priority_group s OR th_number_mask (thread s t))
        ((\<lambda>p. F (Priority_table p) \<noteq> [])(p := True))"
      using inv attr_high_mask [OF attr] attr_number_mask [OF attr]
      by (intro bits_for_set p) (simp_all add: queue_inv_def ready_bits_iff p_def)
    moreover have "(\<lambda>p. F (Priority_table p) \<noteq> [])(p := True) = (\<lambda>q. ?F (Priority_table q) \<noteq> [])"
      by (simp add: fun_eq_iff)
    ultimately show ?thesis
      by (simp add: ready_bits_iff rt_schedule_insert_thread_def Let_def n)
  qed
  moreover have "queue_member ?s q x" if x: "x \<in> set (?F (Priority_table q))" for q x
  proof -
    have "x = Tlist t \<and> q = p \<or> x \<in> set (F (Priority_table q))"
      using x by (auto split: if_splits)
    then show ?thesis
      using queue_inv_member [OF inv, of x q] attr
      by (auto simp: queue_member_def rt_schedule_insert_thread_def Let_def p_def attr')
  qed
  ultimately show ?thesis by (simp add: queue_inv_def)
qed

lemma queue_remove_thread:
  assumes inv: "queue_inv s F" and attr: "attr_ok (thread s t)"
  shows "queue_inv (rt_schedule_remove_thread t s) (\<lambda>h. remove1 (Tlist t) (F h))"
    (is "queue_inv ?s ?G")
proof -
  define p where "p = unat (th_current_priority (thread s t))"
  have n: "unat (th_number (thread s t)) = p div 8"
    using attr_number [OF attr] by (simp add: p_def)
  have p: "p < 256" by (simp add: p_def prio_bound)
  have wf: "lists_wf heads (rt_list_remove (Tlist t) (links s)) ?G"
    using rl.remove_any [OF queue_inv_wf [OF inv], of "Tlist t"] by simp
  have links: "links ?s = rt_list_remove (Tlist t) (links s)"
    by (simp add: rt_schedule_remove_thread_def Let_def)
  have same: "thread ?s = thread s"
    by (simp add: rt_schedule_remove_thread_def Let_def)
  have empty: "rt_list_isempty (Priority_table p) (rt_list_remove (Tlist t) (links s)) \<longleftrightarrow>
      ?G (Priority_table p) = []"
    using rl.isempty_iff [OF wf, of "Priority_table p"] by simp
  have other: "?G (Priority_table q) = F (Priority_table q)" if "q \<noteq> p" for q
    using queue_inv_thread [OF inv, of t q] that by (auto simp: p_def intro: remove1_idem)
  have "ready_bits ?s ?G"
  proof (cases "?G (Priority_table p) = []")
    case True
    have "bits_for ((rt_thread_ready_table s)(p div 8 := rt_thread_ready_table s (p div 8) AND NOT (th_high_mask (thread s t))))
        (if rt_thread_ready_table s (p div 8) AND NOT (th_high_mask (thread s t)) = 0
         then rt_thread_ready_priority_group s AND NOT (th_number_mask (thread s t))
         else rt_thread_ready_priority_group s)
        ((\<lambda>p. F (Priority_table p) \<noteq> [])(p := False))"
      using inv attr_high_mask [OF attr] attr_number_mask [OF attr]
      by (intro bits_for_clear p) (simp_all add: queue_inv_def ready_bits_iff p_def)
    moreover have "((\<lambda>p. F (Priority_table p) \<noteq> [])(p := False)) = (\<lambda>p. ?G (Priority_table p) \<noteq> [])"
      using True other by (auto simp: fun_eq_iff)
    ultimately show ?thesis
      using True empty n by (simp add: ready_bits_iff rt_schedule_remove_thread_def Let_def p_def split: if_splits)
  next
    case False
    then have "F (Priority_table p) \<noteq> []" by auto
    then have "?G (Priority_table q) = [] \<longleftrightarrow> F (Priority_table q) = []" for q
      using False other [of q] by (cases "q = p") auto
    then show ?thesis
      using False empty queue_inv_bits [OF inv]
      by (simp add: ready_bits_iff rt_schedule_remove_thread_def Let_def p_def)
  qed
  moreover have "queue_member ?s q x" if "x \<in> set (?G (Priority_table q))" for q x
  proof -
    have "x \<in> set (F (Priority_table q))"
      using that notin_set_remove1 by metis
    then show ?thesis
      using queue_inv_member [OF inv, of x q] by (simp add: queue_member_def same)
  qed
  ultimately show ?thesis
    using wf by (simp add: queue_inv_def links)
qed

section \<open>The thread that rt_schedule picks\<close>

text \<open>\<open>highest_queue F p\<close>: \<open>p\<close> is the numerically smallest priority with a ready thread.\<close>

definition highest_queue :: "(node \<Rightarrow> node list) \<Rightarrow> nat \<Rightarrow> bool" where
  "highest_queue F p \<longleftrightarrow> F (Priority_table p) \<noteq> [] \<and> (\<forall>q < p. F (Priority_table q) = [])"

lemma queue_inv_range: "queue_inv s F \<Longrightarrow> F (Priority_table p) \<noteq> [] \<Longrightarrow> p < 256"
  using queue_inv_member [of s F "hd (F (Priority_table p))" p]
  by (auto simp: queue_member_def prio_bound)

lemma byte_lowest:
  fixes w :: u8
  assumes "w \<noteq> 0"
  shows "0 < rt_ffs (ucast w)" "rt_ffs (ucast w) - 1 < 8" "bit w (rt_ffs (ucast w) - 1)"
    and "j < rt_ffs (ucast w) - 1 \<Longrightarrow> \<not> bit w j"
proof -
  have u: "bit (ucast w :: u32) i \<longleftrightarrow> bit w i" for i
    by (auto simp: bit_unsigned_iff dest: bit_imp_le_length)
  have nz: "(ucast w :: u32) \<noteq> 0"
    using assms u by (metis zero_word_bits)
  have low: "lowest_set (ucast w) (rt_ffs (ucast w) - 1)"
    by (rule rt_ffs_lowest(2) [OF nz])
  show "0 < rt_ffs (ucast w)" by (rule rt_ffs_lowest(1) [OF nz])
  show b: "bit w (rt_ffs (ucast w) - 1)" using low u by (simp add: lowest_set_def)
  show "rt_ffs (ucast w) - 1 < 8" using bit_imp_le_length [OF b] by simp
  show "j < rt_ffs (ucast w) - 1 \<Longrightarrow> \<not> bit w j" using low u by (simp add: lowest_set_def)
qed

lemma group_lowest:
  assumes b: "bits_for tbl grp R" and R: "R p" "p < 256"
  defines "n \<equiv> rt_ffs grp - 1"
  defines "k \<equiv> rt_ffs (ucast (tbl n)) - 1"
  shows "0 < rt_ffs grp" "n < 32" "0 < rt_ffs (ucast (tbl n))" "k < 8" "R (8 * n + k)"
    and "q < 8 * n + k \<Longrightarrow> \<not> R q"
proof -
  have "bit (tbl (p div 8)) (p mod 8)" using bits_forD1 [OF b R(2)] R(1) by blast
  then have "tbl (p div 8) \<noteq> 0" by auto
  then have "bit grp (p div 8)" using bits_forD2 [OF b, of "p div 8"] R(2) by simp
  then have nz: "grp \<noteq> 0" by auto
  show "0 < rt_ffs grp" by (rule rt_ffs_lowest(1) [OF nz])
  have low: "lowest_set grp n" using rt_ffs_lowest(2) [OF nz] by (simp add: n_def)
  then show n: "n < 32" by (simp add: lowest_set_def)
  have t: "tbl n \<noteq> 0" using low bits_forD2 [OF b n] by (simp add: lowest_set_def)
  show "0 < rt_ffs (ucast (tbl n))" by (rule byte_lowest(1) [OF t])
  show k: "k < 8" using byte_lowest(2) [OF t] by (simp add: k_def)
  have kb: "bit (tbl n) k" using byte_lowest(3) [OF t] by (simp add: k_def)
  show "R (8 * n + k)" using bits_forD1 [OF b, of "8 * n + k"] n k kb by simp
  show "\<not> R q" if q: "q < 8 * n + k"
  proof (cases "q div 8 = n")
    case True
    then have "q mod 8 < k" using q mult_div_mod_eq [of 8 q] by simp
    then have "\<not> bit (tbl n) (q mod 8)" using byte_lowest(4) [OF t] by (simp add: k_def)
    then show ?thesis using bits_forD1 [OF b, of q] True q n k by simp
  next
    case False
    moreover have "q div 8 < n + 1" using q k by (intro less_mult_imp_div_less) simp
    ultimately have "q div 8 < n" by simp
    then have "tbl (q div 8) = 0"
      using low bits_forD2 [OF b, of "q div 8"] n by (simp add: lowest_set_def)
    then show ?thesis using bits_forD1 [OF b, of q] q n k by simp
  qed
qed

lemma highest_ready_priority_ok:
  assumes inv: "queue_inv s F" and ready: "F (Priority_table p) \<noteq> []"
  obtains hp where "highest_ready_priority s = Ok hp" "hp < 256" "highest_queue F (unat hp)"
proof -
  let ?grp = "rt_thread_ready_priority_group s" and ?tbl = "rt_thread_ready_table s"
  define n where "n = rt_ffs ?grp - 1"
  define k where "k = rt_ffs (ucast (?tbl n)) - 1"
  have b: "bits_for ?tbl ?grp (\<lambda>p. F (Priority_table p) \<noteq> [])"
    using queue_inv_bits [OF inv] by (simp add: ready_bits_iff)
  note g = group_lowest [OF b ready queue_inv_range [OF inv ready], folded n_def, folded k_def]
  have num: "of_nat (rt_ffs ?grp) - 1 = (of_nat n :: u32)"
    using g(1) by (simp add: n_def)
  have un: "unat (of_nat n :: u32) = n" using g(2) by (simp add: unat_of_nat take_bit_nat_eq_self)
  have hp: "highest_ready_priority s = Ok (of_nat (8 * n + k))"
  proof -
    have "(of_nat n :: u32) < 32" using g(2) un by (simp add: word_less_nat_alt)
    moreover have "of_nat (rt_ffs (ucast (?tbl n))) - 1 = (of_nat k :: u32)"
      using g(3) by (simp add: k_def)
    ultimately show ?thesis
      by (simp add: highest_ready_priority_def num un Let_def push_bit_eq_mult algebra_simps)
  qed
  have u: "unat (of_nat (8 * n + k) :: u32) = 8 * n + k"
    using g(2,4) by (subst unat_of_nat) (simp add: take_bit_nat_eq_self)
  moreover have "(of_nat (8 * n + k) :: u32) < 256"
    unfolding word_less_nat_alt u using g(2,4) by simp
  ultimately show ?thesis
    using that [OF hp] g(5,6) by (simp add: highest_queue_def)
qed

lemma first_thread_ok:
  assumes inv: "queue_inv s F" and ready: "F (Priority_table (unat hp)) \<noteq> []" and hp: "hp < 256"
  obtains t ts where "F (Priority_table (unat hp)) = Tlist t # ts" "first_thread hp s = Ok t"
proof -
  obtain x ts where F: "F (Priority_table (unat hp)) = x # ts"
    using ready by (cases "F (Priority_table (unat hp))") auto
  then obtain t where x: "x = Tlist t"
    using queue_inv_member [OF inv, of x "unat hp"] by (auto simp: queue_member_def)
  have "lnext (links s) (Priority_table (unat hp)) = Tlist t"
    using rl.nxt_head [OF queue_inv_wf [OF inv], of "Priority_table (unat hp)"] F x by simp
  then show ?thesis
    using that [of t ts] F x hp by (simp add: first_thread_def)
qed

text \<open>The stack of a thread as the scheduler checks it when it switches to the thread.\<close>

definition stack_ok :: "kstate \<Rightarrow> thread_id \<Rightarrow> bool" where
  "stack_ok s t \<longleftrightarrow>
     (let th = thread s t in mem s (th_stack_addr th) = 0x23 \<and> th_stack_addr th < th_sp th \<and>
        th_sp th \<le> th_stack_addr th + th_stack_size th)"

text \<open>The head of the highest ready queue.\<close>

definition next_thread :: "(node \<Rightarrow> node list) \<Rightarrow> thread_id \<Rightarrow> nat \<Rightarrow> bool" where
  "next_thread F t p \<longleftrightarrow> highest_queue F p \<and> hd (F (Priority_table p)) = Tlist t"

lemma next_thread_unique: "next_thread F t p \<Longrightarrow> next_thread F t' p' \<Longrightarrow> t = t' \<and> p = p'"
  by (cases p p' rule: linorder_cases) (auto simp: next_thread_def highest_queue_def)

lemma schedule_pick:
  assumes inv: "queue_inv s F" and ready: "F (Priority_table p) \<noteq> []"
  obtains hp t where "highest_ready_priority s = Ok hp" "first_thread hp s = Ok t"
    "next_thread F t (unat hp)" "hp < 256" "th_current_priority (thread s t) = ucast hp"
proof -
  obtain hp where hp: "highest_ready_priority s = Ok hp" "hp < 256" "highest_queue F (unat hp)"
    by (rule highest_ready_priority_ok [OF inv ready])
  then obtain t ts where t: "F (Priority_table (unat hp)) = Tlist t # ts" "first_thread hp s = Ok t"
    using first_thread_ok [OF inv _ hp(2)] by (auto simp: highest_queue_def)
  have "unat hp = unat (th_current_priority (thread s t))"
    using queue_inv_thread [OF inv, of t "unat hp"] t(1) by simp
  then have "th_current_priority (thread s t) = ucast hp"
    using prio_bound by (simp add: word_unat_eq_iff unsigned_ucast_eq take_bit_nat_eq_self)
  then show ?thesis
    using that [OF hp(1) t(2)] hp(2,3) t(1) by (simp add: next_thread_def)
qed

lemma rt_schedule_switches:
  assumes inv: "queue_inv s F" and lock: "rt_scheduler_lock_nest s = 0"
    and cur: "rt_current_thread s = Some c" and nt: "next_thread F t p"
    and st: "t \<noteq> c \<longrightarrow> stack_ok s t"
  shows "rt_schedule s =
    Ok (if t = c then s
        else s\<lparr>rt_current_priority := th_current_priority (thread s t), rt_current_thread := Some t\<rparr>)"
proof -
  have "F (Priority_table p) \<noteq> []" using nt by (simp add: next_thread_def highest_queue_def)
  from schedule_pick [OF inv this] obtain hp t' where
    hp: "highest_ready_priority s = Ok hp" "first_thread hp s = Ok t'" "next_thread F t' (unat hp)"
      "hp < 256" "th_current_priority (thread s t') = ucast hp" by blast
  then have "t' = t" using next_thread_unique [OF nt] by blast
  then show ?thesis
    using hp lock cur st
    by (auto simp: rt_schedule_def rt_scheduler_stack_check_def stack_ok_def Let_def)
qed

end
