(* ===== verification/RT_Timer.thy ===== *)
theory RT_Timer
  imports RT_Object RT_Scheduler
begin

text \<open>
  Timers, \<^verbatim>\<open>src/src/timer.c\<close>, up to the insertion of a started timer into its list; the wake-up of
  the timer thread that ends \<^verbatim>\<open>rt_timer_start\<close> is in theory RT_Thread and the expiry loops are in
  theory RT_Tick. \<^verbatim>\<open>RT_TIMER_SKIP_LIST_LEVEL\<close> is 1, so a timer list is one ring of
  \<^verbatim>\<open>row[0]\<close> nodes; deadlines are 32-bit ticks compared by their wrapped difference.
\<close>

section \<open>Operations\<close>

definition rt_timer_struct_init :: "timer_ref \<Rightarrow> timeout_func \<Rightarrow> param \<Rightarrow> u32 \<Rightarrow> u8 \<Rightarrow> kstate \<Rightarrow> kstate" where
  "rt_timer_struct_init tm timeout parameter time flag s =
     (let s = upd_object (O_timer tm) (\<lambda>r. r\<lparr>ob_flag := flag\<rparr>) s;
          s = upd_object (O_timer tm) (\<lambda>r. r\<lparr>ob_flag := ob_flag r AND NOT RT_TIMER_FLAG_ACTIVATED\<rparr>) s;
          s = upd_timer tm (\<lambda>r. r\<lparr>tm_timeout_func := timeout, tm_parameter := parameter\<rparr>) s;
          s = upd_timer tm (\<lambda>r. r\<lparr>tm_timeout_tick := 0, tm_init_tick := time\<rparr>) s
      in fold (\<lambda>i. upd_links (rt_list_init (Row tm i))) [0..<RT_TIMER_SKIP_LIST_LEVEL] s)"

definition rt_timer_list_next_timeout :: "(nat \<Rightarrow> node) \<Rightarrow> kstate \<Rightarrow> u32 res" where
  "rt_timer_list_next_timeout timer_list s =
     (let h = timer_list (RT_TIMER_SKIP_LIST_LEVEL - 1)
      in if rt_list_isempty h (links s) then Ok RT_TICK_MAX
         else rbind (timer_entry (RT_TIMER_SKIP_LIST_LEVEL - 1) (lnext (links s) h)) (\<lambda>tm.
              Ok (tm_timeout_tick (timer s tm))))"

definition rt_timer_remove :: "timer_ref \<Rightarrow> kstate \<Rightarrow> kstate" where
  "rt_timer_remove tm s =
     fold (\<lambda>i. upd_links (rt_list_remove (Row tm i))) [0..<RT_TIMER_SKIP_LIST_LEVEL] s"

definition rt_timer_init ::
    "timer_ref \<Rightarrow> cstr \<Rightarrow> timeout_func \<Rightarrow> param \<Rightarrow> u32 \<Rightarrow> u8 \<Rightarrow> kstate \<Rightarrow> kstate res" where
  "rt_timer_init tm name timeout parameter time flag s =
     rbind (rt_object_init (O_timer tm) Class_Timer name s) (\<lambda>s.
     Ok (rt_timer_struct_init tm timeout parameter time flag s))"

definition rt_timer_detach :: "timer_ref \<Rightarrow> kstate \<Rightarrow> int \<times> kstate" where
  "rt_timer_detach tm s =
     (let s = rt_timer_remove tm s
      in (- RT_EOK, rt_object_detach (O_timer tm) s))"

definition rt_timer_create ::
    "nat option \<Rightarrow> cstr \<Rightarrow> timeout_func \<Rightarrow> param \<Rightarrow> u32 \<Rightarrow> u8 \<Rightarrow> kstate \<Rightarrow> (timer_ref option \<times> kstate) res" where
  "rt_timer_create malloc name timeout parameter time flag s =
     rbind (rt_object_allocate (map_option (O_timer \<circ> Timer) malloc) Class_Timer name s) (\<lambda>(ob, s).
     case malloc of
       None \<Rightarrow> Ok (None, s)
     | Some i \<Rightarrow> Ok (Some (Timer i), rt_timer_struct_init (Timer i) timeout parameter time flag s))"

definition rt_timer_delete :: "timer_ref \<Rightarrow> kstate \<Rightarrow> (int \<times> kstate) res" where
  "rt_timer_delete tm s =
     (let s = rt_timer_remove tm s
      in rbind (rt_object_delete (O_timer tm) s) (\<lambda>s. Ok (- RT_EOK, s)))"

text \<open>The search of \<^verbatim>\<open>rt_timer_start\<close> for the node after which the timer belongs.\<close>

partial_function (option) timer_walk ::
    "(nat \<Rightarrow> node) \<Rightarrow> nat \<Rightarrow> u32 \<Rightarrow> kstate \<Rightarrow> node \<Rightarrow> node res option" where
  "timer_walk timer_list row_lvl timeout_tick s row_head =
     (if row_head = lprev (links s) (timer_list row_lvl) then Some (Ok row_head)
      else
        (let p = lnext (links s) row_head
         in case timer_entry row_lvl p of
              Fault e \<Rightarrow> Some (Fault e)
            | Ok t \<Rightarrow>
                (if tm_timeout_tick (timer s t) - timeout_tick = 0
                 then timer_walk timer_list row_lvl timeout_tick s p
                 else if tm_timeout_tick (timer s t) - timeout_tick < RT_TICK_HALF
                 then Some (Ok row_head)
                 else timer_walk timer_list row_lvl timeout_tick s p)))"

definition timer_list_of :: "timer_ref \<Rightarrow> kstate \<Rightarrow> nat \<Rightarrow> node" where
  "timer_list_of tm s =
     (if ob_flag (object s (O_timer tm)) AND RT_TIMER_FLAG_SOFT_TIMER \<noteq> 0
      then Soft_timer_list else Timer_list)"

definition timer_start_insert :: "timer_ref \<Rightarrow> kstate \<Rightarrow> kstate res" where
  "timer_start_insert tm s =
     (let s = rt_timer_remove tm s;
          s = upd_object (O_timer tm) (\<lambda>r. r\<lparr>ob_flag := ob_flag r AND NOT RT_TIMER_FLAG_ACTIVATED\<rparr>) s
      in rbind (rassert (tm_init_tick (timer s tm) < RT_TICK_HALF) s) (\<lambda>s.
         (let s = upd_timer tm (\<lambda>r. r\<lparr>tm_timeout_tick := rt_tick s + tm_init_tick r\<rparr>) s;
              timer_list = timer_list_of tm s
          in rbind (loop_res (timer_walk timer_list 0 (tm_timeout_tick (timer s tm)) s (timer_list 0)))
             (\<lambda>row_head.
              (let s = s\<lparr>random_nr := random_nr s + 1\<rparr>;
                   s = upd_links (rt_list_insert_after row_head (Row tm (RT_TIMER_SKIP_LIST_LEVEL - 1))) s
               in Ok (upd_object (O_timer tm)
                        (\<lambda>r. r\<lparr>ob_flag := ob_flag r OR RT_TIMER_FLAG_ACTIVATED\<rparr>) s))))))"

definition rt_timer_stop :: "timer_ref \<Rightarrow> kstate \<Rightarrow> int \<times> kstate" where
  "rt_timer_stop tm s =
     (if ob_flag (object s (O_timer tm)) AND RT_TIMER_FLAG_ACTIVATED = 0 then (- RT_ERROR, s)
      else
        (let s = rt_timer_remove tm s
         in (RT_EOK, upd_object (O_timer tm)
               (\<lambda>r. r\<lparr>ob_flag := ob_flag r AND NOT RT_TIMER_FLAG_ACTIVATED\<rparr>) s)))"

datatype timer_cmd = Timer_get_time | Timer_set_time u32 | Timer_set_oneshot | Timer_set_periodic

fun rt_timer_control :: "timer_ref \<Rightarrow> timer_cmd \<Rightarrow> kstate \<Rightarrow> u32 option \<times> kstate" where
  "rt_timer_control tm Timer_get_time s = (Some (tm_init_tick (timer s tm)), s)"
| "rt_timer_control tm (Timer_set_time tick) s = (None, upd_timer tm (\<lambda>r. r\<lparr>tm_init_tick := tick\<rparr>) s)"
| "rt_timer_control tm Timer_set_oneshot s =
     (None, upd_object (O_timer tm) (\<lambda>r. r\<lparr>ob_flag := ob_flag r AND NOT RT_TIMER_FLAG_PERIODIC\<rparr>) s)"
| "rt_timer_control tm Timer_set_periodic s =
     (None, upd_object (O_timer tm) (\<lambda>r. r\<lparr>ob_flag := ob_flag r OR RT_TIMER_FLAG_PERIODIC\<rparr>) s)"

definition rt_timer_next_timeout_tick :: "kstate \<Rightarrow> u32 res" where
  "rt_timer_next_timeout_tick s = rt_timer_list_next_timeout Timer_list s"

definition rt_system_timer_init :: "kstate \<Rightarrow> kstate" where
  "rt_system_timer_init s =
     fold (\<lambda>i. upd_links (rt_list_init (Timer_list i))) [0..<RT_TIMER_SKIP_LIST_LEVEL] s"

section \<open>Deadlines\<close>

lemma set_dropWhileD: "x \<in> set (dropWhile P xs) \<Longrightarrow> x \<in> set xs"
  by (metis in_set_conv_decomp append_Cons append_assoc takeWhile_dropWhile_id)

lemma last_prefix_ne: "distinct (xs @ ys) \<Longrightarrow> xs \<noteq> [] \<Longrightarrow> ys \<noteq> [] \<Longrightarrow> last xs \<noteq> last (xs @ ys)"
  by (metis disjoint_iff distinct_append last_appendR last_in_set)


text \<open>
  Deadlines wrap around. Measured from a base tick \<open>b\<close> they are ordered as natural numbers; the
  wrapped comparison of the code agrees with that order while the deadlines compared are less than
  half the tick range apart.
\<close>

definition deadline :: "kstate \<Rightarrow> u32 \<Rightarrow> timer_ref \<Rightarrow> nat" where
  "deadline s b tm = unat (tm_timeout_tick (timer s tm) - b)"

text \<open>\<open>later d x\<close>: the comparison of the code finds that \<open>x\<close> is strictly after \<open>d\<close>.\<close>

definition later :: "u32 \<Rightarrow> u32 \<Rightarrow> bool" where
  "later d x \<longleftrightarrow> x - d \<noteq> 0 \<and> x - d < RT_TICK_HALF"

lemma later_iff:
  assumes "unat (x - b) < unat (d - b) + 0x7fffffff" "unat (d - b) \<le> 0x7fffffff"
  shows "later d x \<longleftrightarrow> unat (d - b) < unat (x - b)"
proof -
  define m where "m = unat (x - b)"
  define n where "n = unat (d - b)"
  have "x - d = (x - b) - (d - b)" by simp
  then have xd: "x - d = of_nat m - of_nat n" by (simp add: m_def n_def)
  have lt: "x - d < 0x7fffffff \<longleftrightarrow> unat (x - d) < 0x7fffffff"
    by (simp add: word_less_nat_alt)
  show ?thesis
  proof (cases "n \<le> m")
    case True
    then have "x - d = of_nat (m - n)" using xd by simp
    moreover have "m - n < 2 ^ 32" using assms(1) by (simp add: m_def n_def)
    ultimately have u: "unat (x - d) = m - n"
      by (simp add: unat_of_nat take_bit_nat_eq_self)
    then have "x - d = 0 \<longleftrightarrow> m = n" using True by (simp add: unat_eq_0 [symmetric])
    moreover have "unat (x - d) < 0x7fffffff" using u True assms(1) by (simp add: m_def n_def)
    ultimately show ?thesis
      using True lt by (auto simp: later_def m_def n_def)
  next
    case False
    then have "d - x = of_nat (n - m)" using xd by (metis minus_diff_eq nat_le_linear of_nat_diff)
    moreover have "x - d = - (d - x)" by simp
    moreover have nm: "n - m < 2 ^ 32" "0 < n - m" using assms(2) False by (simp_all add: n_def)
    ultimately have "x - d = of_nat (2 ^ 32 - (n - m))"
      by (subst of_nat_diff) simp_all
    then have "unat (x - d) = 2 ^ 32 - (n - m)"
      using nm by (simp add: unat_of_nat take_bit_nat_eq_self del: of_nat_diff)
    then have "\<not> later d x"
      using lt assms(2) by (simp add: later_def n_def) arith
    then show ?thesis using False by (simp add: m_def n_def)
  qed
qed


lemma sorted_insert_stable:
  fixes f :: "'a \<Rightarrow> nat"
  assumes "sorted (map f xs)"
  shows "sorted (map f (takeWhile (\<lambda>x. f x \<le> f y) xs @ y # dropWhile (\<lambda>x. f x \<le> f y) xs))"
  using assms by (induction xs) (auto dest: set_dropWhileD set_takeWhileD)

section \<open>The walk finds the place by deadline\<close>

lemma timer_walk_spec:
  assumes wf: "lists_wf heads (links s) F" and h: "is_head (hs lvl)"
    and F: "F (hs lvl) = map (\<lambda>t. Row t lvl) (xs @ ys)"
  shows "timer_walk hs lvl d s (last (hs lvl # map (\<lambda>t. Row t lvl) xs)) =
    Some (Ok (last (hs lvl # map (\<lambda>t. Row t lvl)
       (xs @ takeWhile (\<lambda>t. \<not> later d (tm_timeout_tick (timer s t))) ys))))"
  using F
proof (induction ys arbitrary: xs)
  case Nil
  have "lprev (links s) (hs lvl) = last (hs lvl # F (hs lvl))"
    using lists_wf_prev [OF wf, of "hs lvl" "F (hs lvl)" "[]"] h by simp
  then show ?case
    using Nil by (subst timer_walk.simps) simp
next
  case (Cons t ys)
  let ?R = "\<lambda>t. Row t lvl"
  have prev: "lprev (links s) (hs lvl) = last (hs lvl # F (hs lvl))"
    using lists_wf_prev [OF wf, of "hs lvl" "F (hs lvl)" "[]"] h by simp
  have dist: "distinct (hs lvl # F (hs lvl))"
    using lists_wf_dist_head [OF wf] h by simp
  have "last (hs lvl # map ?R xs) \<noteq> last (hs lvl # F (hs lvl))"
    using last_prefix_ne [of "hs lvl # map ?R xs" "map ?R (t # ys)"] dist Cons.prems by simp
  moreover have "lnext (links s) (last (hs lvl # map ?R xs)) = Row t lvl"
    using lists_wf_next [OF wf, of "hs lvl" "map ?R xs" "map ?R (t # ys)"] h Cons.prems by simp
  ultimately have step: "timer_walk hs lvl d s (last (hs lvl # map ?R xs)) =
      (if later d (tm_timeout_tick (timer s t)) then Some (Ok (last (hs lvl # map ?R xs)))
       else timer_walk hs lvl d s (Row t lvl))"
    using prev by (subst timer_walk.simps) (auto simp: later_def Let_def simp del: last.simps)
  have "timer_walk hs lvl d s (Row t lvl) =
    Some (Ok (last (hs lvl # map ?R ((xs @ [t]) @ takeWhile (\<lambda>t. \<not> later d (tm_timeout_tick (timer s t))) ys))))"
    using Cons.IH [of "xs @ [t]"] Cons.prems by (simp add: last_append)
  then show ?case
    using step by (simp del: last.simps)
qed

section \<open>Starting a timer\<close>

text \<open>\<open>timer_nodes F h ts\<close>: the ring of head \<open>h\<close> holds exactly the timers \<open>ts\<close>.\<close>

abbreviation timer_nodes :: "(node \<Rightarrow> node list) \<Rightarrow> node \<Rightarrow> timer_ref list \<Rightarrow> bool" where
  "timer_nodes F h ts \<equiv> F h = map (\<lambda>t. Row t 0) ts"

lemma is_head_timer_list [simp]: "is_head (timer_list_of tm s i)"
  by (simp add: timer_list_of_def)

lemma timer_remove_eq [simp]: "rt_timer_remove tm s = upd_links (rt_list_remove (Row tm 0)) s"
  by (simp add: rt_timer_remove_def)

lemma map_Row_remove1: "map (\<lambda>t. Row t 0) (remove1 tm ts) = remove1 (Row tm 0) (map (\<lambda>t. Row t 0) ts)"
  by (induction ts) auto

text \<open>The lists after a start: the timer leaves its old place and enters its list by deadline.\<close>

definition insert_by :: "(timer_ref \<Rightarrow> bool) \<Rightarrow> timer_ref \<Rightarrow> timer_ref list \<Rightarrow> timer_ref list" where
  "insert_by late tm ts = takeWhile (\<lambda>t. \<not> late t) ts @ tm # dropWhile (\<lambda>t. \<not> late t) ts"

lemma set_insert_by [simp]: "set (insert_by late tm ts) = insert tm (set ts)"
proof -
  have "set ts = set (takeWhile (\<lambda>t. \<not> late t) ts) \<union> set (dropWhile (\<lambda>t. \<not> late t) ts)"
    by (metis set_append takeWhile_dropWhile_id)
  then show ?thesis by (auto simp: insert_by_def)
qed

lemma timer_start_insert_ok:
  assumes wf: "lists_wf heads (links s) F"
    and ts: "timer_nodes F (timer_list_of tm s 0) ts"
    and init: "tm_init_tick (timer s tm) < RT_TICK_HALF"
  defines "d \<equiv> rt_tick s + tm_init_tick (timer s tm)"
  defines "h \<equiv> timer_list_of tm s 0"
  obtains s' where "timer_start_insert tm s = Ok s'"
    "lists_wf heads (links s')
       ((\<lambda>k. remove1 (Row tm 0) (F k))
         (h := map (\<lambda>t. Row t 0) (insert_by (\<lambda>t. later d (tm_timeout_tick (timer s t))) tm (remove1 tm ts))))"
    "s' = s\<lparr>links := links s', random_nr := random_nr s + 1,
            timer := (timer s)(tm := (timer s tm)\<lparr>tm_timeout_tick := d\<rparr>),
            object := (object s)(O_timer tm := (object s (O_timer tm))\<lparr>ob_flag :=
               (ob_flag (object s (O_timer tm)) AND NOT 1) OR 1\<rparr>)\<rparr>"
proof -
  let ?G = "\<lambda>k. remove1 (Row tm 0) (F k)"
  define s1 where "s1 = s\<lparr>links := rt_list_remove (Row tm 0) (links s),
     object := (object s)(O_timer tm := (object s (O_timer tm))\<lparr>ob_flag := ob_flag (object s (O_timer tm)) AND NOT 1\<rparr>),
     timer := (timer s)(tm := (timer s tm)\<lparr>tm_timeout_tick := d\<rparr>)\<rparr>"
  have wf1: "lists_wf heads (links s1) ?G"
    using rl.remove_any [OF wf, of "Row tm 0"] by (simp add: s1_def)
  have list1: "timer_list_of tm s1 = timer_list_of tm s"
    by (simp add: timer_list_of_def s1_def flag_bits)
  have ts1: "?G h = map (\<lambda>t. Row t 0) (remove1 tm ts)"
    using ts by (simp add: h_def map_Row_remove1)
  have notin: "tm \<notin> set (remove1 tm ts)"
    using lists_wf_distinct [OF wf, of h] ts by (simp add: h_def distinct_map)
  define late where "late = (\<lambda>t. later d (tm_timeout_tick (timer s t)))"
  define pre where "pre = takeWhile (\<lambda>t. \<not> late t) (remove1 tm ts)"
  have same: "takeWhile (\<lambda>t. \<not> later d (tm_timeout_tick (timer s1 t))) (remove1 tm ts) = pre"
    unfolding pre_def late_def
    by (rule takeWhile_cong) (use notin in \<open>auto simp: s1_def\<close>)
  have walk: "timer_walk (timer_list_of tm s) 0 d s1 h = Some (Ok (last (h # map (\<lambda>t. Row t 0) pre)))"
    using timer_walk_spec [where lvl = 0 and hs = "timer_list_of tm s" and d = d and xs = "[]", OF wf1]
      ts1 same by (simp add: h_def)
  have "detached ?G (Row tm 0)"
    by (rule rl.remove_detaches [OF wf])
  then have "lists_wf heads (rt_list_insert_after (last (h # map (\<lambda>t. Row t 0) pre)) (Row tm 0) (links s1))
      (?G(h := map (\<lambda>t. Row t 0) pre @ Row tm 0 # map (\<lambda>t. Row t 0) (dropWhile (\<lambda>t. \<not> late t) (remove1 tm ts))))"
    using ts1 by (intro rl.insert_after_gap [OF wf1])
      (simp_all add: h_def pre_def flip: map_append)
  then show ?thesis
    using that [of "s1\<lparr>links := rt_list_insert_after (last (h # map (\<lambda>t. Row t 0) pre)) (Row tm 0) (links s1),
        random_nr := random_nr s + 1,
        object := (object s)(O_timer tm := (object s (O_timer tm))\<lparr>ob_flag :=
               (ob_flag (object s (O_timer tm)) AND NOT 1) OR 1\<rparr>)\<rparr>"]
      walk init list1
    by (simp add: timer_start_insert_def s1_def insert_by_def pre_def late_def d_def h_def Let_def del: last.simps)
qed

end
