(* ===== verification/RT_Thread.thy ===== *)
theory RT_Thread
  imports RT_Timer "HOL-Library.Signed_Division"
begin

text \<open>
  Threads, \<^verbatim>\<open>src/src/thread.c\<close>, with the initial stack frame of \<^verbatim>\<open>src/libcpu/arm/cortex-m4/cpuport.c\<close>,
  the millisecond conversion of \<^verbatim>\<open>src/src/clock.c\<close> that \<^verbatim>\<open>rt_thread_mdelay\<close> calls, the rest of
  \<^verbatim>\<open>rt_timer_start\<close>, and the two name searches that lock the scheduler. A call that blocks ends at
  its \<^verbatim>\<open>rt_schedule\<close>; what the thread does when it runs again is a second definition, named
  \<open>..._resume\<close>, and the field \<open>cont\<close> of the state says which one a thread still has to execute.
\<close>

section \<open>Suspending and resuming\<close>

definition rt_thread_suspend :: "thread_id \<Rightarrow> kstate \<Rightarrow> int \<times> kstate" where
  "rt_thread_suspend t s =
     (if th_state (thread s t) \<noteq> RT_THREAD_READY then (- RT_ERROR, s)
      else
        (let s = upd_thread t (\<lambda>th. th\<lparr>th_stat := RT_THREAD_SUSPEND OR (th_stat th AND NOT RT_THREAD_STAT_MASK)\<rparr>) s;
             s = rt_schedule_remove_thread t s;
             (r, s) = rt_timer_stop (Thread_timer t) s
         in (RT_EOK, s)))"

definition rt_thread_resume :: "thread_id \<Rightarrow> kstate \<Rightarrow> int \<times> kstate" where
  "rt_thread_resume t s =
     (if th_state (thread s t) \<noteq> RT_THREAD_SUSPEND then (- RT_ERROR, s)
      else
        (let s = upd_links (rt_list_remove (Tlist t)) s;
             (r, s) = rt_timer_stop (Thread_timer t) s
         in (RT_EOK, rt_schedule_insert_thread t s)))"

definition rt_timer_start :: "timer_ref \<Rightarrow> kstate \<Rightarrow> (int \<times> kstate) res" where
  "rt_timer_start tm s =
     rbind (timer_start_insert tm s) (\<lambda>s.
     if ob_flag (object s (O_timer tm)) AND RT_TIMER_FLAG_SOFT_TIMER \<noteq> 0 \<and>
        th_state (thread s timer_thread) \<noteq> RT_THREAD_READY
     then (let (r, s) = rt_thread_resume timer_thread s
           in rbind (rt_schedule s) (\<lambda>s. Ok (- RT_EOK, s)))
     else Ok (- RT_EOK, s))"

section \<open>Creating threads\<close>

text \<open>
  The frame a new thread is started from: with the floating-point unit it is a flag word, \<^verbatim>\<open>r4\<close> to
  \<^verbatim>\<open>r11\<close>, and the eight words of the exception frame, 68 bytes.
\<close>

definition rt_hw_stack_init :: "u32 \<Rightarrow> u32 \<Rightarrow> u32 \<Rightarrow> u32 \<Rightarrow> mem \<Rightarrow> u32 \<times> mem" where
  "rt_hw_stack_init tentry parameter stack_addr texit m =
     (let stk = stack_addr + 4;
          stk = stk AND NOT 7;
          stk = stk - 68;
          m = fold (\<lambda>i. write32 (stk + 4 * of_nat i) 0xdeadbeef) [0..<17] m;
          frame = stk + 36;
          m = write32 frame parameter m;
          m = write32 (frame + 4) 0 m;
          m = write32 (frame + 8) 0 m;
          m = write32 (frame + 12) 0 m;
          m = write32 (frame + 16) 0 m;
          m = write32 (frame + 20) texit m;
          m = write32 (frame + 24) tentry m;
          m = write32 (frame + 28) 0x01000000 m;
          m = write32 stk 0 m
      in (stk, m))"

text \<open>\<open>texit\<close> is the address of \<^verbatim>\<open>rt_thread_exit\<close> in the linked image.\<close>

definition rt_thread_struct_init ::
    "u32 \<Rightarrow> thread_id \<Rightarrow> cstr \<Rightarrow> u32 \<Rightarrow> u32 \<Rightarrow> u32 \<Rightarrow> u32 \<Rightarrow> u8 \<Rightarrow> u32 \<Rightarrow> kstate \<Rightarrow> (int \<times> kstate) res" where
  "rt_thread_struct_init texit t name entry parameter stack_start stack_size priority tick s =
     (let s = upd_links (rt_list_init (Tlist t)) s;
          s = upd_thread t (\<lambda>th. th\<lparr>th_entry := entry, th_parameter := parameter\<rparr>) s;
          s = upd_thread t (\<lambda>th. th\<lparr>th_stack_addr := stack_start, th_stack_size := stack_size\<rparr>) s;
          s = s\<lparr>mem := rt_memset stack_start 0x23 (unat stack_size) (mem s)\<rparr>;
          (sp, m) = rt_hw_stack_init entry parameter (stack_start + stack_size - 4) texit (mem s);
          s = upd_thread t (\<lambda>th. th\<lparr>th_sp := sp\<rparr>) (s\<lparr>mem := m\<rparr>)
      in rbind (rassert (unat priority < RT_THREAD_PRIORITY_MAX) s) (\<lambda>s.
         (let s = upd_thread t (\<lambda>th. th\<lparr>th_init_priority := priority, th_current_priority := priority\<rparr>) s;
              s = upd_thread t (\<lambda>th. th\<lparr>th_number_mask := 0, th_number := 0, th_high_mask := 0\<rparr>) s;
              s = upd_thread t (\<lambda>th. th\<lparr>th_init_tick := tick, th_remaining_tick := tick\<rparr>) s;
              s = upd_thread t (\<lambda>th. th\<lparr>th_error := RT_EOK, th_stat := RT_THREAD_INIT\<rparr>) s;
              s = upd_thread t (\<lambda>th. th\<lparr>th_cleanup := None, th_user_data := 0\<rparr>) s
          in rbind (rt_timer_init (Thread_timer t) (ob_name (object s (O_thread t)))
                      Rt_thread_timeout (P_thread t) 0 0 s) (\<lambda>s.
             Ok (RT_EOK, s)))))"

definition rt_thread_init ::
    "u32 \<Rightarrow> thread_id \<Rightarrow> cstr \<Rightarrow> u32 \<Rightarrow> u32 \<Rightarrow> u32 \<Rightarrow> u32 \<Rightarrow> u8 \<Rightarrow> u32 \<Rightarrow> kstate \<Rightarrow> (int \<times> kstate) res" where
  "rt_thread_init texit t name entry parameter stack_start stack_size priority tick s =
     rbind (rassert (stack_start \<noteq> 0) s) (\<lambda>s.
     rbind (rt_object_init (O_thread t) Class_Thread name s) (\<lambda>s.
     rt_thread_struct_init texit t name entry parameter stack_start stack_size priority tick s))"

definition rt_thread_self :: "kstate \<Rightarrow> thread_id option" where
  "rt_thread_self s = rt_current_thread s"

definition set_priority_attr :: "rt_thread \<Rightarrow> rt_thread" where
  "set_priority_attr th =
     (let th = th\<lparr>th_number := drop_bit 3 (th_current_priority th)\<rparr>;
          th = th\<lparr>th_number_mask := push_bit (unat (th_number th)) 1\<rparr>
      in th\<lparr>th_high_mask := push_bit (unat (th_current_priority th AND 7)) 1\<rparr>)"

definition rt_thread_startup :: "thread_id \<Rightarrow> kstate \<Rightarrow> (int \<times> kstate) res" where
  "rt_thread_startup t s =
     rbind (rassert (th_state (thread s t) = RT_THREAD_INIT) s) (\<lambda>s.
     (let s = upd_thread t (\<lambda>th. th\<lparr>th_current_priority := th_init_priority th\<rparr>) s;
          s = upd_thread t set_priority_attr s;
          s = upd_thread t (\<lambda>th. th\<lparr>th_stat := RT_THREAD_SUSPEND\<rparr>) s;
          (r, s) = rt_thread_resume t s
      in if rt_thread_self s \<noteq> None
         then rbind (rt_schedule s) (\<lambda>s. Ok (RT_EOK, s))
         else Ok (RT_EOK, s)))"

text \<open>\<open>malloc\<close> and \<open>stack\<close> are the blocks \<^verbatim>\<open>RT_KERNEL_MALLOC\<close> returned for the object and the stack.\<close>

definition rt_thread_create ::
    "u32 \<Rightarrow> thread_id option \<Rightarrow> u32 option \<Rightarrow> cstr \<Rightarrow> u32 \<Rightarrow> u32 \<Rightarrow> u32 \<Rightarrow> u8 \<Rightarrow> u32 \<Rightarrow> kstate \<Rightarrow>
     (thread_id option \<times> kstate) res" where
  "rt_thread_create texit malloc stack name entry parameter stack_size priority tick s =
     rbind (rt_object_allocate (map_option O_thread malloc) Class_Thread name s) (\<lambda>(ob, s).
     case malloc of
       None \<Rightarrow> Ok (None, s)
     | Some t \<Rightarrow>
         (case stack of
            None \<Rightarrow> rbind (rt_object_delete (O_thread t) s) (\<lambda>s. Ok (None, s))
          | Some stack_start \<Rightarrow>
              rbind (rt_thread_struct_init texit t name entry parameter stack_start stack_size priority tick s)
                (\<lambda>(r, s). Ok (Some t, s))))"

section \<open>Ending threads\<close>

definition rt_thread_exit :: "kstate \<Rightarrow> kstate res" where
  "rt_thread_exit s =
     (case rt_current_thread s of
        None \<Rightarrow> Fault Null_Pointer
      | Some t \<Rightarrow>
          (let s = rt_schedule_remove_thread t s;
               s = upd_thread t (\<lambda>th. th\<lparr>th_stat := RT_THREAD_CLOSE\<rparr>) s;
               (r, s) = rt_timer_detach (Thread_timer t) s;
               s = (if rt_object_is_systemobject (O_thread t) s \<and> th_cleanup (thread s t) = None
                    then rt_object_detach (O_thread t) s
                    else upd_links (rt_list_insert_after Thread_defunct (Tlist t)) s)
           in rt_schedule s))"

definition rt_thread_detach :: "thread_id \<Rightarrow> kstate \<Rightarrow> int \<times> kstate" where
  "rt_thread_detach t s =
     (let s = (if th_state (thread s t) \<noteq> RT_THREAD_INIT then rt_schedule_remove_thread t s else s);
          (r, s) = rt_timer_detach (Thread_timer t) s;
          s = upd_thread t (\<lambda>th. th\<lparr>th_stat := RT_THREAD_CLOSE\<rparr>) s;
          s = rt_object_detach (O_thread t) s
      in (RT_EOK,
          if th_cleanup (thread s t) \<noteq> None
          then upd_links (rt_list_insert_after Thread_defunct (Tlist t)) s else s))"

definition rt_thread_delete :: "thread_id \<Rightarrow> kstate \<Rightarrow> int \<times> kstate" where
  "rt_thread_delete t s =
     (let s = (if th_state (thread s t) \<noteq> RT_THREAD_INIT then rt_schedule_remove_thread t s else s);
          (r, s) = rt_timer_detach (Thread_timer t) s;
          s = upd_thread t (\<lambda>th. th\<lparr>th_stat := RT_THREAD_CLOSE\<rparr>) s
      in (RT_EOK, upd_links (rt_list_insert_after Thread_defunct (Tlist t)) s))"

section \<open>Giving up the processor\<close>

definition rt_thread_yield :: "kstate \<Rightarrow> (int \<times> kstate) res" where
  "rt_thread_yield s =
     (case rt_current_thread s of
        None \<Rightarrow> Fault Null_Pointer
      | Some t \<Rightarrow>
          if th_state (thread s t) = RT_THREAD_READY \<and>
             lnext (links s) (Tlist t) \<noteq> lprev (links s) (Tlist t)
          then
            (let s = upd_links (rt_list_remove (Tlist t)) s;
                 s = upd_links (rt_list_insert_before
                       (Priority_table (unat (th_current_priority (thread s t)))) (Tlist t)) s
             in rbind (rt_schedule s) (\<lambda>s. Ok (RT_EOK, s)))
          else Ok (RT_EOK, s))"

definition rt_thread_sleep :: "u32 \<Rightarrow> kstate \<Rightarrow> kstate res" where
  "rt_thread_sleep tick s =
     (case rt_current_thread s of
        None \<Rightarrow> Fault Assert_Failed
      | Some t \<Rightarrow>
          (let (r, s) = rt_thread_suspend t s;
               (r, s) = rt_timer_control (Thread_timer t) (Timer_set_time tick) s
           in rbind (rt_timer_start (Thread_timer t) s) (\<lambda>(r, s).
              rt_schedule (s\<lparr>cont := (cont s)(t := Some C_sleep)\<rparr>))))"

definition rt_thread_sleep_resume :: "thread_id \<Rightarrow> kstate \<Rightarrow> int \<times> kstate" where
  "rt_thread_sleep_resume t s =
     (let s = s\<lparr>cont := (cont s)(t := None)\<rparr>
      in (RT_EOK,
          if th_error (thread s t) = - RT_ETIMEOUT
          then upd_thread t (\<lambda>th. th\<lparr>th_error := RT_EOK\<rparr>) s else s))"

definition rt_thread_delay :: "u32 \<Rightarrow> kstate \<Rightarrow> kstate res" where
  "rt_thread_delay tick s = rt_thread_sleep tick s"

text \<open>The arithmetic is that of a 32-bit \<^verbatim>\<open>int\<close>; the division truncates towards zero.\<close>

definition rt_tick_from_millisecond :: "32 word \<Rightarrow> u32" where
  "rt_tick_from_millisecond ms =
     (if sint ms < 0 then 0xffffffff
      else of_int (sint (RT_TICK_PER_SECOND * ms + 999) sdiv 1000))"

definition rt_thread_mdelay :: "32 word \<Rightarrow> kstate \<Rightarrow> kstate res" where
  "rt_thread_mdelay ms s =
     (let tick = rt_tick_from_millisecond ms in rt_thread_sleep tick s)"

datatype thread_cmd = Change_priority u8 | Cmd_startup | Cmd_close | Cmd_other

fun rt_thread_control :: "thread_id \<Rightarrow> thread_cmd \<Rightarrow> kstate \<Rightarrow> (int \<times> kstate) res" where
  "rt_thread_control t (Change_priority prio) s =
     (if th_state (thread s t) = RT_THREAD_READY then
        (let s = rt_schedule_remove_thread t s;
             s = upd_thread t (\<lambda>th. th\<lparr>th_current_priority := prio\<rparr>) s;
             s = upd_thread t set_priority_attr s
         in Ok (RT_EOK, rt_schedule_insert_thread t s))
      else
        (let s = upd_thread t (\<lambda>th. th\<lparr>th_current_priority := prio\<rparr>) s
         in Ok (RT_EOK, upd_thread t set_priority_attr s)))"
| "rt_thread_control t Cmd_startup s = rt_thread_startup t s"
| "rt_thread_control t Cmd_close s = Ok (rt_thread_delete t s)"
| "rt_thread_control t Cmd_other s = Ok (RT_EOK, s)"

definition rt_thread_timeout :: "thread_id \<Rightarrow> kstate \<Rightarrow> kstate res" where
  "rt_thread_timeout t s =
     rbind (rassert (th_state (thread s t) = RT_THREAD_SUSPEND) s) (\<lambda>s.
     (let s = upd_thread t (\<lambda>th. th\<lparr>th_error := - RT_ETIMEOUT\<rparr>) s;
          s = upd_links (rt_list_remove (Tlist t)) s;
          s = rt_schedule_insert_thread t s
      in rt_schedule s))"

section \<open>Finding objects by name\<close>

partial_function (option) object_find_loop ::
    "node \<Rightarrow> cstr \<Rightarrow> kstate \<Rightarrow> node \<Rightarrow> obj_ref option res option" where
  "object_find_loop object_list name s node =
     (if node \<noteq> object_list then
        (case object_entry node of
           Fault e \<Rightarrow> Some (Fault e)
         | Ok ob \<Rightarrow>
             if rt_strncmp (ob_name (object s ob)) name RT_NAME_MAX = 0 then Some (Ok (Some ob))
             else object_find_loop object_list name s (lnext (links s) node))
      else Some (Ok None))"

definition rt_object_find :: "cstr option \<Rightarrow> u8 \<Rightarrow> kstate \<Rightarrow> (obj_ref option \<times> kstate) res" where
  "rt_object_find name type s =
     (case name of
        None \<Rightarrow> Ok (None, s)
      | Some name \<Rightarrow>
          if type > 11 then Ok (None, s)
          else
            rbind (rassert (not_in_interrupt s) s) (\<lambda>s.
            (let s = rt_enter_critical s
             in case rt_object_get_information type of
                  None \<Rightarrow> Fault Assert_Failed
                | Some information \<Rightarrow>
                    rbind (loop_res (object_find_loop (Object_list information) name s
                             (lnext (links s) (Object_list information)))) (\<lambda>ob.
                    rbind (rt_exit_critical s) (\<lambda>s. Ok (ob, s))))))"

definition rt_thread_find :: "cstr \<Rightarrow> kstate \<Rightarrow> (obj_ref option \<times> kstate) res" where
  "rt_thread_find name s =
     (let s = (if rt_thread_self s \<noteq> None then rt_enter_critical s else s)
      in case rt_object_get_information (class_code Class_Thread) of
           None \<Rightarrow> Fault Assert_Failed
         | Some information \<Rightarrow>
             rbind (loop_res (object_find_loop (Object_list information) name s
                      (lnext (links s) (Object_list information)))) (\<lambda>ob.
             if rt_thread_self s \<noteq> None
             then rbind (rt_exit_critical s) (\<lambda>s. Ok (ob, s))
             else Ok (ob, s)))"

end
