(* ===== verification/RT_Kernel_Inv.thy ===== *)
theory RT_Kernel_Inv
  imports RT_Thread
begin

text \<open>
  The invariant that ties the kernel's lists to the states of threads and timers, and its
  preservation by the thread, timer and scheduler operations. \<open>F\<close> is the content of every list; it
  is determined by the link store.
\<close>

section \<open>The invariant\<close>

abbreviation (input) ready :: "kstate \<Rightarrow> thread_id \<Rightarrow> bool" where
  "ready s t \<equiv> th_state (thread s t) = RT_THREAD_READY"

abbreviation (input) suspended :: "kstate \<Rightarrow> thread_id \<Rightarrow> bool" where
  "suspended s t \<equiv> th_state (thread s t) = RT_THREAD_SUSPEND"

abbreviation ready_head :: "kstate \<Rightarrow> thread_id \<Rightarrow> node" where
  "ready_head s t \<equiv> Priority_table (unat (th_current_priority (thread s t)))"

text \<open>A thread's own timer calls \<^verbatim>\<open>rt_thread_timeout\<close> on the thread, once.\<close>

definition thread_timer_ok :: "kstate \<Rightarrow> thread_id \<Rightarrow> bool" where
  "thread_timer_ok s t \<longleftrightarrow>
     tm_timeout_func (timer s (Thread_timer t)) = Rt_thread_timeout \<and>
     tm_parameter (timer s (Thread_timer t)) = P_thread t \<and>
     \<not> bit (ob_flag (object s (O_timer (Thread_timer t)))) 1 \<and>
     \<not> bit (ob_flag (object s (O_timer (Thread_timer t)))) 2"

text \<open>
  A listed timer is activated, on the list of its kind; a listed thread timer belongs to a suspended
  thread.
\<close>

definition timer_ok :: "kstate \<Rightarrow> bool \<Rightarrow> timer_ref \<Rightarrow> bool" where
  "timer_ok s soft tm \<longleftrightarrow>
     bit (ob_flag (object s (O_timer tm))) 0 \<and>
     (bit (ob_flag (object s (O_timer tm))) 2 \<longleftrightarrow> soft) \<and>
     (\<forall>t. tm = Thread_timer t \<longrightarrow> suspended s t \<and> thread_timer_ok s t)"

primrec node_ok :: "kstate \<Rightarrow> node \<Rightarrow> node \<Rightarrow> bool" where
  "node_ok s (Priority_table p) n = (\<exists>t. n = Tlist t \<and> ready s t \<and> p = unat (th_current_priority (thread s t)))"
| "node_ok s Thread_defunct n = (\<exists>t. n = Tlist t \<and> th_state (thread s t) = RT_THREAD_CLOSE)"
| "node_ok s (Timer_list i) n = (\<exists>tm. n = Row tm 0 \<and> i = 0 \<and> timer_ok s False tm)"
| "node_ok s (Soft_timer_list i) n = (\<exists>tm. n = Row tm 0 \<and> i = 0 \<and> timer_ok s True tm)"
| "node_ok s (Suspend_thread r) n = (\<exists>t. n = Tlist t \<and> suspended s t)"
| "node_ok s (Suspend_sender r) n = (\<exists>t. n = Tlist t \<and> suspended s t)"
| "node_ok s (Object_list c) n = (\<exists>ob. n = Obj_node ob)"
| "node_ok s (Tlist t) n = False"
| "node_ok s (Row t i) n = False"
| "node_ok s (Obj_node ob) n = False"

definition kinv :: "kstate \<Rightarrow> (node \<Rightarrow> node list) \<Rightarrow> bool" where
  "kinv s F \<longleftrightarrow>
     lists_wf heads (links s) F \<and>
     ready_bits s F \<and>
     (\<forall>h. \<forall>n \<in> set (F h). node_ok s h n) \<and>
     (\<forall>t. ready s t \<longrightarrow> Tlist t \<in> set (F (ready_head s t))) \<and>
     (\<forall>t. th_state (thread s t) \<noteq> RT_THREAD_INIT \<longrightarrow> attr_ok (thread s t) \<and> thread_timer_ok s t)"

lemma kinvI:
  assumes "lists_wf heads (links s) F" "ready_bits s F"
    and "\<And>h n. n \<in> set (F h) \<Longrightarrow> node_ok s h n"
    and "\<And>t. ready s t \<Longrightarrow> Tlist t \<in> set (F (ready_head s t))"
    and "\<And>t. th_state (thread s t) \<noteq> RT_THREAD_INIT \<Longrightarrow> attr_ok (thread s t) \<and> thread_timer_ok s t"
  shows "kinv s F"
  using assms by (simp add: kinv_def)

lemma kinv_wf: "kinv s F \<Longrightarrow> lists_wf heads (links s) F"
  and kinv_bits: "kinv s F \<Longrightarrow> ready_bits s F"
  and kinv_node: "kinv s F \<Longrightarrow> n \<in> set (F h) \<Longrightarrow> node_ok s h n"
  and kinv_ready: "kinv s F \<Longrightarrow> ready s t \<Longrightarrow> Tlist t \<in> set (F (ready_head s t))"
  and kinv_attr: "kinv s F \<Longrightarrow> th_state (thread s t) \<noteq> RT_THREAD_INIT \<Longrightarrow> attr_ok (thread s t)"
  and kinv_timer: "kinv s F \<Longrightarrow> th_state (thread s t) \<noteq> RT_THREAD_INIT \<Longrightarrow> thread_timer_ok s t"
  by (simp_all add: kinv_def)

lemma kinv_queue: "kinv s F \<Longrightarrow> queue_inv s F"
  unfolding queue_inv_def queue_member_def
  using kinv_wf kinv_bits kinv_node kinv_attr by fastforce

text \<open>What the invariant reads of a state.\<close>

definition same_threads :: "kstate \<Rightarrow> kstate \<Rightarrow> bool" where
  "same_threads s s' \<longleftrightarrow>
     (\<forall>t. th_stat (thread s' t) = th_stat (thread s t) \<and>
        th_current_priority (thread s' t) = th_current_priority (thread s t) \<and>
        th_number (thread s' t) = th_number (thread s t) \<and>
        th_high_mask (thread s' t) = th_high_mask (thread s t) \<and>
        th_number_mask (thread s' t) = th_number_mask (thread s t))"

definition same_timers :: "kstate \<Rightarrow> kstate \<Rightarrow> bool" where
  "same_timers s s' \<longleftrightarrow>
     (\<forall>tm. tm_timeout_func (timer s' tm) = tm_timeout_func (timer s tm) \<and>
        tm_parameter (timer s' tm) = tm_parameter (timer s tm) \<and>
        ob_flag (object s' (O_timer tm)) = ob_flag (object s (O_timer tm)))"

definition same_bits :: "kstate \<Rightarrow> kstate \<Rightarrow> bool" where
  "same_bits s s' \<longleftrightarrow>
     rt_thread_ready_table s' = rt_thread_ready_table s \<and>
     rt_thread_ready_priority_group s' = rt_thread_ready_priority_group s"

lemmas same_defs = same_threads_def same_timers_def same_bits_def

lemma thread_timer_ok_cong: "same_timers s s' \<Longrightarrow> thread_timer_ok s' t = thread_timer_ok s t"
  by (simp add: same_timers_def thread_timer_ok_def)

lemma timer_ok_cong:
  "same_threads s s' \<Longrightarrow> same_timers s s' \<Longrightarrow> timer_ok s' soft tm = timer_ok s soft tm"
  by (simp add: timer_ok_def thread_timer_ok_def same_defs)

lemma node_ok_cong:
  "same_threads s s' \<Longrightarrow> same_timers s s' \<Longrightarrow> node_ok s' h n = node_ok s h n"
  using timer_ok_cong [of s s'] by (cases h) (simp_all add: same_threads_def)

lemma attr_ok_cong: "same_threads s s' \<Longrightarrow> attr_ok (thread s' t) = attr_ok (thread s t)"
  by (simp add: same_threads_def attr_ok_def)

lemma kinv_cong:
  assumes "kinv s F" "links s' = links s" "same_threads s s'" "same_timers s s'" "same_bits s s'"
  shows "kinv s' F"
proof (rule kinvI)
  have st: "th_stat (thread s' t) = th_stat (thread s t)"
    "th_current_priority (thread s' t) = th_current_priority (thread s t)" for t
    using assms(3) by (simp_all add: same_threads_def)
  show "lists_wf heads (links s') F" using assms(1,2) by (simp add: kinv_def)
  show "ready_bits s' F" using kinv_bits [OF assms(1)] assms(5) by (simp add: ready_bits_def same_bits_def)
  show "node_ok s' h n" if "n \<in> set (F h)" for h n
    using kinv_node [OF assms(1) that] node_ok_cong [OF assms(3,4)] by simp
  show "Tlist t \<in> set (F (ready_head s' t))" if "ready s' t" for t
    using kinv_ready [OF assms(1), of t] that by (simp add: st)
  show "attr_ok (thread s' t) \<and> thread_timer_ok s' t" if "th_state (thread s' t) \<noteq> RT_THREAD_INIT" for t
    using kinv_attr [OF assms(1), of t] kinv_timer [OF assms(1), of t] that
      attr_ok_cong [OF assms(3)] thread_timer_ok_cong [OF assms(4)] by (simp add: st)
qed

section \<open>Where a thread is\<close>

lemma stat_set: "x AND 0xf = x \<Longrightarrow> ((x :: u8) OR (y AND NOT 0xf)) AND 0xf = x"
  by (simp add: bit.conj_disj_distrib2 and.assoc)

lemma kinv_tlist_head:
  assumes "kinv s F" "Tlist t \<in> set (F h)"
  shows "h = ready_head s t \<and> ready s t \<or> h = Thread_defunct \<and> th_state (thread s t) = RT_THREAD_CLOSE
     \<or> suspended s t \<and> ((\<exists>r. h = Suspend_thread r) \<or> (\<exists>r. h = Suspend_sender r))"
  using kinv_node [OF assms] by (cases h) auto

lemma kinv_row_suspended:
  assumes "kinv s F" "Row (Thread_timer t) 0 \<in> set (F h)"
  shows "suspended s t"
  using kinv_node [OF assms] by (cases h) (auto simp: timer_ok_def)

lemma kinv_ready_timer_off:
  "kinv s F \<Longrightarrow> \<not> suspended s t \<Longrightarrow> detached F (Row (Thread_timer t) 0)"
  using kinv_row_suspended by blast

lemma kinv_row_activated:
  assumes "kinv s F" "Row tm i \<in> set (F h)"
  shows "bit (ob_flag (object s (O_timer tm))) 0"
  using kinv_node [OF assms] by (cases h) (auto simp: timer_ok_def)

section \<open>Timers\<close>

text \<open>Clearing the active flag of a timer that no list holds.\<close>

lemma kinv_flag_clear:
  assumes inv: "kinv s F" and off: "\<And>h. Row tm 0 \<notin> set (F h)"
    and fl: "ob_flag ob' = ob_flag (object s (O_timer tm)) AND NOT 1"
  shows "kinv (s\<lparr>object := (object s)(O_timer tm := ob')\<rparr>) F" (is "kinv ?s F")
proof (rule kinvI)
  have tt: "thread_timer_ok ?s t = thread_timer_ok s t" for t
    by (auto simp: thread_timer_ok_def fl flag_bits)
  show "node_ok ?s h n" if n: "n \<in> set (F h)" for h n
  proof -
    have "n \<noteq> Row tm 0" using n off by blast
    then have "timer_ok ?s soft tm' = timer_ok s soft tm'" if "n = Row tm' 0" for soft tm'
      using that by (auto simp: timer_ok_def tt)
    then show ?thesis using kinv_node [OF inv n] by (cases h) auto
  qed
qed (use inv kinv_wf kinv_bits kinv_ready kinv_attr kinv_timer in
      \<open>auto simp: ready_bits_def thread_timer_ok_def fl flag_bits\<close>)

text \<open>Taking nodes other than ready threads out of their lists.\<close>

lemma kinv_remove_row:
  assumes inv: "kinv s F"
  shows "kinv (s\<lparr>links := rt_list_remove (Row tm 0) (links s)\<rparr>) (\<lambda>h. remove1 (Row tm 0) (F h))"
    (is "kinv ?s ?F")
proof (rule kinvI)
  have same: "same_threads s ?s" "same_timers s ?s" by (simp_all add: same_defs)
  show "lists_wf heads (links ?s) ?F"
    using rl.remove_any [OF kinv_wf [OF inv], of "Row tm 0"] by simp
  have pt: "?F (Priority_table p) = F (Priority_table p)" for p
    using kinv_node [OF inv, of "Row tm 0" "Priority_table p"] by (auto intro: remove1_idem)
  show "ready_bits ?s ?F"
    using kinv_bits [OF inv] unfolding ready_bits_def pt by simp
  show "node_ok ?s h n" if "n \<in> set (?F h)" for h n
    using that kinv_node [OF inv] node_ok_cong [OF same] notin_set_remove1 by metis
  show "Tlist t \<in> set (?F (ready_head ?s t))" if "ready ?s t" for t
    using kinv_ready [OF inv, of t] that pt by simp
  show "attr_ok (thread ?s t) \<and> thread_timer_ok ?s t" if "th_state (thread ?s t) \<noteq> RT_THREAD_INIT" for t
    using kinv_attr [OF inv, of t] kinv_timer [OF inv, of t] that by (simp add: thread_timer_ok_def)
qed

lemma kinv_timer_stop:
  assumes inv: "kinv s F"
  shows "kinv (snd (rt_timer_stop tm s)) (\<lambda>h. remove1 (Row tm 0) (F h))"
proof (cases "ob_flag (object s (O_timer tm)) AND 1 = 0")
  case True
  then have "Row tm 0 \<notin> set (F h)" for h
    using kinv_row_activated [OF inv] flag_bit_0 by blast
  then have "(\<lambda>h. remove1 (Row tm 0) (F h)) = F" by (simp add: remove1_idem)
  then show ?thesis using True inv by (simp add: rt_timer_stop_def)
next
  case False
  let ?s = "s\<lparr>links := rt_list_remove (Row tm 0) (links s)\<rparr>"
  have "kinv (?s\<lparr>object := (object ?s)(O_timer tm := (object s (O_timer tm))\<lparr>ob_flag :=
      ob_flag (object s (O_timer tm)) AND NOT 1\<rparr>)\<rparr>) (\<lambda>h. remove1 (Row tm 0) (F h))"
    using rl.remove_detaches [OF kinv_wf [OF inv], of "Row tm 0"]
    by (intro kinv_flag_clear [OF kinv_remove_row [OF inv]]) simp_all
  then show ?thesis using False by (simp add: rt_timer_stop_def Let_def)
qed

lemma timer_stop_thread [simp]:
  "thread (snd (rt_timer_stop tm s)) = thread s"
  "rt_current_thread (snd (rt_timer_stop tm s)) = rt_current_thread s"
  "rt_scheduler_lock_nest (snd (rt_timer_stop tm s)) = rt_scheduler_lock_nest s"
  "timer (snd (rt_timer_stop tm s)) = timer s"
  "mem (snd (rt_timer_stop tm s)) = mem s"
  "rt_tick (snd (rt_timer_stop tm s)) = rt_tick s"
  by (simp_all add: rt_timer_stop_def Let_def)

section \<open>Threads enter and leave the ready queue\<close>

lemma queue_inv_thread_upd:
  assumes q: "queue_inv s F" and attr: "attr_ok th"
    and prio: "th_current_priority th = th_current_priority (thread s t)"
  shows "queue_inv (s\<lparr>thread := (thread s)(t := th)\<rparr>) F" (is "queue_inv ?s F")
proof -
  have "queue_member ?s p n" if n: "n \<in> set (F (Priority_table p))" for p n
  proof -
    obtain t' where "n = Tlist t'" "p = unat (th_current_priority (thread s t'))" "attr_ok (thread s t')"
      using queue_inv_member [OF q n] by (auto simp: queue_member_def)
    then show ?thesis
      using attr prio by (cases "t' = t") (auto simp: queue_member_def)
  qed
  then show ?thesis using q by (simp add: queue_inv_def ready_bits_def)
qed

lemma kinv_remove_thread:
  assumes inv: "kinv s F" and rdy: "ready s t"
    and st: "th_state th \<noteq> RT_THREAD_READY"
    and same: "th_current_priority th = th_current_priority (thread s t)" "th_number th = th_number (thread s t)"
      "th_high_mask th = th_high_mask (thread s t)" "th_number_mask th = th_number_mask (thread s t)"
  shows "kinv (rt_schedule_remove_thread t (s\<lparr>thread := (thread s)(t := th)\<rparr>)) (\<lambda>h. remove1 (Tlist t) (F h))"
    (is "kinv (rt_schedule_remove_thread t ?s) ?F")
proof -
  have attr: "attr_ok th"
    using kinv_attr [OF inv, of t] rdy same by (simp add: attr_ok_def)
  have "queue_inv ?s F"
    by (rule queue_inv_thread_upd [OF kinv_queue [OF inv] attr same(1)])
  then have q: "queue_inv (rt_schedule_remove_thread t ?s) ?F"
    using attr by (intro queue_remove_thread) simp_all
  have eq: "thread (rt_schedule_remove_thread t ?s) = (thread s)(t := th)"
    "timer (rt_schedule_remove_thread t ?s) = timer s"
    "object (rt_schedule_remove_thread t ?s) = object s"
    by (simp_all add: rt_schedule_remove_thread_def Let_def)
  show ?thesis
  proof (rule kinvI)
    show "node_ok (rt_schedule_remove_thread t ?s) h n" if n: "n \<in> set (?F h)" for h n
    proof -
      have "n \<noteq> Tlist t" "n \<in> set (F h)"
        using n rl.remove_detaches [OF kinv_wf [OF inv], of "Tlist t"] notin_set_remove1 by fastforce+
      then show ?thesis
        using kinv_node [OF inv, of n h] rdy st
        by (cases h) (auto simp: eq timer_ok_def thread_timer_ok_def split: if_splits)
    qed
    show "Tlist t' \<in> set (?F (ready_head (rt_schedule_remove_thread t ?s) t'))"
      if "ready (rt_schedule_remove_thread t ?s) t'" for t'
      using that kinv_ready [OF inv, of t'] st by (cases "t' = t") (auto simp: eq in_set_remove1)
    show "attr_ok (thread (rt_schedule_remove_thread t ?s) t') \<and> thread_timer_ok (rt_schedule_remove_thread t ?s) t'"
      if "th_state (thread (rt_schedule_remove_thread t ?s) t') \<noteq> RT_THREAD_INIT" for t'
      using that attr kinv_attr [OF inv, of t'] kinv_timer [OF inv, of t'] rdy
      by (cases "t' = t") (auto simp: eq thread_timer_ok_def)
  qed (use q in \<open>simp_all add: queue_inv_def\<close>)
qed

lemma kinv_insert_thread:
  assumes inv: "kinv s F" and det: "detached F (Tlist t)" and off: "detached F (Row (Thread_timer t) 0)"
    and st: "th_state (thread s t) \<noteq> RT_THREAD_INIT"
  shows "kinv (rt_schedule_insert_thread t s) (F(ready_head s t := F (ready_head s t) @ [Tlist t]))"
    (is "kinv ?s ?F")
proof -
  have q: "queue_inv ?s ?F"
    using queue_insert_thread [OF kinv_queue [OF inv] det kinv_attr [OF inv st]] .
  have eq: "thread ?s = (thread s)(t := (thread s t)\<lparr>th_stat := 1 OR (th_stat (thread s t) AND NOT 0xf)\<rparr>)"
    "timer ?s = timer s" "object ?s = object s"
    by (simp_all add: rt_schedule_insert_thread_def Let_def)
  have rdy: "(1 OR (th_stat (thread s t) AND NOT 0xf)) AND 0xf = 1"
    by (rule stat_set) simp
  show ?thesis
  proof (rule kinvI)
    show "node_ok ?s h n" if n: "n \<in> set (?F h)" for h n
    proof (cases "n = Tlist t")
      case True
      then show ?thesis using n det rdy by (auto simp: eq split: if_splits)
    next
      case False
      then have n': "n \<in> set (F h)" using n by (auto split: if_splits)
      then have "n \<noteq> Row (Thread_timer t) 0" using off by blast
      then show ?thesis
        using kinv_node [OF inv n'] False
        by (cases h) (auto simp: eq timer_ok_def thread_timer_ok_def)
    qed
    show "Tlist t' \<in> set (?F (ready_head ?s t'))" if "ready ?s t'" for t'
      using that kinv_ready [OF inv, of t'] by (cases "t' = t") (auto simp: eq)
    show "attr_ok (thread ?s t') \<and> thread_timer_ok ?s t'"
      if "th_state (thread ?s t') \<noteq> RT_THREAD_INIT" for t'
      using that kinv_attr [OF inv, of t'] kinv_timer [OF inv, of t'] st
      by (cases "t' = t") (auto simp: eq thread_timer_ok_def attr_ok_def)
  qed (use q in \<open>simp_all add: queue_inv_def\<close>)
qed

lemma kinv_remove_tlist:
  assumes inv: "kinv s F" and nr: "\<not> ready s t"
  shows "kinv (s\<lparr>links := rt_list_remove (Tlist t) (links s)\<rparr>) (\<lambda>h. remove1 (Tlist t) (F h))"
    (is "kinv ?s ?F")
proof (rule kinvI)
  have same: "same_threads s ?s" "same_timers s ?s" by (simp_all add: same_defs)
  show "lists_wf heads (links ?s) ?F"
    using rl.remove_any [OF kinv_wf [OF inv], of "Tlist t"] by simp
  have pt: "?F (Priority_table p) = F (Priority_table p)" for p
    using kinv_node [OF inv, of "Tlist t" "Priority_table p"] nr by (auto intro: remove1_idem)
  show "ready_bits ?s ?F"
    using kinv_bits [OF inv] unfolding ready_bits_def pt by simp
  show "node_ok ?s h n" if "n \<in> set (?F h)" for h n
    using that kinv_node [OF inv] node_ok_cong [OF same] notin_set_remove1 by metis
  show "Tlist t' \<in> set (?F (ready_head ?s t'))" if "ready ?s t'" for t'
    using kinv_ready [OF inv, of t'] that pt by simp
  show "attr_ok (thread ?s t') \<and> thread_timer_ok ?s t'" if "th_state (thread ?s t') \<noteq> RT_THREAD_INIT" for t'
    using kinv_attr [OF inv, of t'] kinv_timer [OF inv, of t'] that by (simp add: thread_timer_ok_def)
qed

lemma kinv_link:
  assumes inv: "kinv s F" and wf: "lists_wf heads l (F(h := zs))"
    and h: "\<And>p. h \<noteq> Priority_table p" and zs: "\<And>n. n \<in> set zs \<Longrightarrow> node_ok s h n"
  shows "kinv (s\<lparr>links := l\<rparr>) (F(h := zs))" (is "kinv ?s ?F")
proof (rule kinvI)
  have same: "same_threads s ?s" "same_timers s ?s" by (simp_all add: same_defs)
  have pt: "?F (Priority_table p) = F (Priority_table p)" for p using h by auto
  show "ready_bits ?s ?F"
    using kinv_bits [OF inv] unfolding ready_bits_def pt by simp
  show "node_ok ?s k n" if "n \<in> set (?F k)" for k n
    using that kinv_node [OF inv, of n k] zs node_ok_cong [OF same] by (cases "k = h") auto
  show "Tlist t' \<in> set (?F (ready_head ?s t'))" if "ready ?s t'" for t'
    using kinv_ready [OF inv, of t'] that pt by simp
  show "attr_ok (thread ?s t') \<and> thread_timer_ok ?s t'" if "th_state (thread ?s t') \<noteq> RT_THREAD_INIT" for t'
    using kinv_attr [OF inv, of t'] kinv_timer [OF inv, of t'] that by (simp add: thread_timer_ok_def)
qed (use wf in simp)

section \<open>The operations of thread.c\<close>

lemma kinv_schedule:
  assumes "kinv s F" "rt_schedule s = Ok s'"
  shows "kinv s' F" "s' = s\<lparr>rt_current_priority := rt_current_priority s', rt_current_thread := rt_current_thread s'\<rparr>"
proof -
  show eq: "s' = s\<lparr>rt_current_priority := rt_current_priority s', rt_current_thread := rt_current_thread s'\<rparr>"
    using assms(2) by (auto simp: rt_schedule_def rt_scheduler_stack_check_def Let_def split: if_splits option.splits)
  show "kinv s' F"
    by (subst eq, rule kinv_cong [OF assms(1)]) (simp_all add: same_defs)
qed

definition drop_thread :: "thread_id \<Rightarrow> (node \<Rightarrow> node list) \<Rightarrow> node \<Rightarrow> node list" where
  "drop_thread t F = (\<lambda>h. remove1 (Tlist t) (F h))"

definition drop_timer :: "timer_ref \<Rightarrow> (node \<Rightarrow> node list) \<Rightarrow> node \<Rightarrow> node list" where
  "drop_timer tm F = (\<lambda>h. remove1 (Row tm 0) (F h))"

lemma drop_timer_id: "detached F (Row tm 0) \<Longrightarrow> drop_timer tm F = F"
  by (simp add: drop_timer_def remove1_idem)

lemma drop_thread_id: "detached F (Tlist t) \<Longrightarrow> drop_thread t F = F"
  by (simp add: drop_thread_def remove1_idem)

lemma drop_thread_detaches: "kinv s F \<Longrightarrow> detached (drop_thread t F) (Tlist t)"
  unfolding drop_thread_def by (rule rl.remove_detaches [OF kinv_wf])

lemma drop_timer_detaches: "kinv s F \<Longrightarrow> detached (drop_timer tm F) (Row tm 0)"
  unfolding drop_timer_def by (rule rl.remove_detaches [OF kinv_wf])

lemma drop_subset: "x \<in> set (drop_thread t F h) \<Longrightarrow> x \<in> set (F h)" "x \<in> set (drop_timer tm F h) \<Longrightarrow> x \<in> set (F h)"
  by (auto simp: drop_thread_def drop_timer_def dest: notin_set_remove1 [THEN contrapos_pp] in_set_remove1 [THEN iffD1] intro: ccontr)

lemma kinv_thread_suspend:
  assumes inv: "kinv s F" and rdy: "ready s t"
  shows "kinv (snd (rt_thread_suspend t s)) (drop_thread t F)"
    and "suspended (snd (rt_thread_suspend t s)) t"
    and "fst (rt_thread_suspend t s) = RT_EOK"
proof -
  define th where "th = (thread s t)\<lparr>th_stat := RT_THREAD_SUSPEND OR (th_stat (thread s t) AND NOT RT_THREAD_STAT_MASK)\<rparr>"
  define s1 where "s1 = rt_schedule_remove_thread t (s\<lparr>thread := (thread s)(t := th)\<rparr>)"
  have st: "th_state th = RT_THREAD_SUSPEND"
    using stat_set [of 2 "th_stat (thread s t)"] by (simp add: th_def)
  have inv1: "kinv s1 (drop_thread t F)"
    unfolding s1_def drop_thread_def using st by (intro kinv_remove_thread [OF inv rdy]) (simp_all add: th_def)
  have off: "detached (drop_thread t F) (Row (Thread_timer t) 0)"
    using kinv_ready_timer_off [OF inv, of t] rdy drop_subset(1) by fastforce
  have eq: "rt_thread_suspend t s = (RT_EOK, snd (rt_timer_stop (Thread_timer t) s1))"
    using rdy by (simp add: rt_thread_suspend_def s1_def th_def Let_def case_prod_beta)
  show "kinv (snd (rt_thread_suspend t s)) (drop_thread t F)"
    using kinv_timer_stop [OF inv1, of "Thread_timer t"] drop_timer_id [OF off]
    by (simp add: eq drop_timer_def)
  have "thread s1 t = th" by (simp add: s1_def rt_schedule_remove_thread_def Let_def)
  then show "suspended (snd (rt_thread_suspend t s)) t" using st by (simp add: eq)
  show "fst (rt_thread_suspend t s) = RT_EOK" by (simp add: eq)
qed

text \<open>The lists after a suspended thread was made ready.\<close>

definition make_ready :: "kstate \<Rightarrow> thread_id \<Rightarrow> (node \<Rightarrow> node list) \<Rightarrow> node \<Rightarrow> node list" where
  "make_ready s t F =
     (let G = drop_timer (Thread_timer t) (drop_thread t F)
      in G(ready_head s t := F (ready_head s t) @ [Tlist t]))"

lemma kinv_pt_drop:
  assumes "kinv s F" "\<not> ready s t"
  shows "drop_timer tm (drop_thread t F) (Priority_table p) = F (Priority_table p)"
proof -
  have "Tlist t \<notin> set (F (Priority_table p))" "Row tm 0 \<notin> set (F (Priority_table p))"
    using kinv_node [OF assms(1), of _ "Priority_table p"] assms(2) by auto
  then show ?thesis by (simp add: drop_timer_def drop_thread_def remove1_idem)
qed

lemma kinv_thread_resume:
  assumes inv: "kinv s F" and sus: "suspended s t"
  shows "kinv (snd (rt_thread_resume t s)) (make_ready s t F)"
    and "fst (rt_thread_resume t s) = RT_EOK"
proof -
  define s1 where "s1 = s\<lparr>links := rt_list_remove (Tlist t) (links s)\<rparr>"
  define s2 where "s2 = snd (rt_timer_stop (Thread_timer t) s1)"
  have inv1: "kinv s1 (drop_thread t F)"
    unfolding s1_def drop_thread_def by (rule kinv_remove_tlist [OF inv]) (use sus in simp)
  have inv2: "kinv s2 (drop_timer (Thread_timer t) (drop_thread t F))"
    unfolding s2_def drop_timer_def by (rule kinv_timer_stop [OF inv1])
  have th: "thread s2 = thread s" by (simp add: s2_def s1_def)
  have eq: "rt_thread_resume t s = (RT_EOK, rt_schedule_insert_thread t s2)"
    using sus by (simp add: rt_thread_resume_def s1_def s2_def Let_def case_prod_beta)
  have "detached (drop_timer (Thread_timer t) (drop_thread t F)) (Tlist t)"
    using drop_thread_detaches [OF inv, of t] drop_subset(2) by fast
  from kinv_insert_thread [OF inv2 this drop_timer_detaches [OF inv1]] sus
  show "kinv (snd (rt_thread_resume t s)) (make_ready s t F)"
    using kinv_pt_drop [OF inv, of t] by (simp add: th eq make_ready_def Let_def)
  show "fst (rt_thread_resume t s) = RT_EOK" by (simp add: eq)
qed


lemma kinv_timer_nodes:
  assumes "kinv s F"
  obtains ts where "timer_nodes F (timer_list_of tm s 0) ts"
proof -
  have "\<exists>tm. n = Row tm 0" if "n \<in> set (F (timer_list_of tm s 0))" for n
    using kinv_node [OF assms that] by (auto simp: timer_list_of_def split: if_splits)
  then have "\<exists>ts. F (timer_list_of tm s 0) = map (\<lambda>t. Row t 0) ts"
    unfolding ex_map_conv by blast
  then show ?thesis using that by blast
qed

lemma kinv_timer_start_insert:
  assumes inv: "kinv s F" and init: "tm_init_tick (timer s tm) < RT_TICK_HALF"
    and own: "\<And>t. tm = Thread_timer t \<Longrightarrow> suspended s t"
    and ts: "timer_nodes F (timer_list_of tm s 0) ts"
  defines "d \<equiv> rt_tick s + tm_init_tick (timer s tm)"
  obtains s' where "timer_start_insert tm s = Ok s'"
    "kinv s' ((drop_timer tm F)(timer_list_of tm s 0 :=
        map (\<lambda>t. Row t 0) (insert_by (\<lambda>t. later d (tm_timeout_tick (timer s t))) tm (remove1 tm ts))))"
    "s' = s\<lparr>links := links s', random_nr := random_nr s + 1,
            timer := (timer s)(tm := (timer s tm)\<lparr>tm_timeout_tick := d\<rparr>),
            object := (object s)(O_timer tm := (object s (O_timer tm))\<lparr>ob_flag :=
               (ob_flag (object s (O_timer tm)) AND NOT 1) OR 1\<rparr>)\<rparr>"
proof -
  define h where "h = timer_list_of tm s 0"
  define us where "us = insert_by (\<lambda>t. later d (tm_timeout_tick (timer s t))) tm (remove1 tm ts)"
  define F' where "F' = (drop_timer tm F)(h := map (\<lambda>t. Row t 0) us)"
  obtain s' where s': "timer_start_insert tm s = Ok s'" "lists_wf heads (links s') F'"
    and eq: "s' = s\<lparr>links := links s', random_nr := random_nr s + 1,
            timer := (timer s)(tm := (timer s tm)\<lparr>tm_timeout_tick := d\<rparr>),
            object := (object s)(O_timer tm := (object s (O_timer tm))\<lparr>ob_flag :=
               (ob_flag (object s (O_timer tm)) AND NOT 1) OR 1\<rparr>)\<rparr>"
    using timer_start_insert_ok [OF kinv_wf [OF inv] ts init]
    unfolding F'_def us_def h_def drop_timer_def d_def by metis
  have th: "thread s' = thread s" by (subst eq) simp
  have bits: "same_bits s s'" unfolding same_bits_def by (subst (1 2) eq) simp
  have tmr: "tm_timeout_func (timer s' t) = tm_timeout_func (timer s t)"
    "tm_parameter (timer s' t) = tm_parameter (timer s t)" for t
    by (subst eq, simp)+
  have fl: "bit (ob_flag (object s' (O_timer t))) i \<longleftrightarrow>
     (if t = tm \<and> i = 0 then True else bit (ob_flag (object s (O_timer t))) i)" for t i
    by (subst eq) (auto simp: flag_bits dest: bit_imp_le_length)
  have tt: "thread_timer_ok s' t = thread_timer_ok s t" for t
    by (simp add: thread_timer_ok_def tmr fl)
  have pt: "F' (Priority_table p) = F (Priority_table p)" for p
    using kinv_node [OF inv, of "Row tm 0" "Priority_table p"]
    by (auto simp: F'_def h_def timer_list_of_def drop_timer_def intro: remove1_idem)
  have new: "timer_ok s' (bit (ob_flag (object s (O_timer tm))) 2) tm"
    using own kinv_timer [OF inv] by (auto simp: timer_ok_def th tt fl)
  have old: "timer_ok s' soft t" if "timer_ok s soft t" for soft t
    using that by (auto simp: timer_ok_def th tt fl)
  have "kinv s' F'"
  proof (rule kinvI)
    show "ready_bits s' F'"
      using kinv_bits [OF inv] bits unfolding ready_bits_def pt by (simp add: same_bits_def)
    show "node_ok s' k n" if n: "n \<in> set (F' k)" for k n
    proof -
      have "n = Row tm 0 \<and> k = h \<or> n \<in> set (F k)"
        using n ts unfolding F'_def us_def drop_timer_def h_def
        by (auto split: if_splits dest: notin_set_remove1 [THEN contrapos_pp] intro: ccontr)
      then consider "n = Row tm 0" "k = h" | "n \<in> set (F k)" by blast
      then show ?thesis
      proof cases
        case 1
        then show ?thesis using new by (auto simp: h_def timer_list_of_def flag_bits)
      next
        case 2
        then show ?thesis using kinv_node [OF inv 2] old by (cases k) (auto simp: th)
      qed
    qed
    show "Tlist t \<in> set (F' (ready_head s' t))" if "ready s' t" for t
      using kinv_ready [OF inv, of t] that by (simp add: th pt)
    show "attr_ok (thread s' t) \<and> thread_timer_ok s' t" if "th_state (thread s' t) \<noteq> RT_THREAD_INIT" for t
      using kinv_attr [OF inv, of t] kinv_timer [OF inv, of t] that by (simp add: th tt)
  qed (rule s'(2))
  then show ?thesis
    using that [OF s'(1) _ eq] by (simp add: F'_def us_def h_def)
qed

lemma kinv_wait:
  assumes inv: "kinv s F" and sus: "suspended s t" and det: "detached F (Tlist t)"
    and h: "(\<exists>r. h = Suspend_thread r) \<or> (\<exists>r. h = Suspend_sender r)" and F: "F h = xs @ ys"
  shows "kinv (s\<lparr>links := rt_list_insert_before (hd (ys @ [h])) (Tlist t) (links s)\<rparr>)
           (F(h := xs @ Tlist t # ys))"
proof (rule kinv_link [OF inv])
  have hh: "h \<in> heads" "Tlist t \<notin> heads" using h by auto
  show "lists_wf heads (rt_list_insert_before (hd (ys @ [h])) (Tlist t) (links s)) (F(h := xs @ Tlist t # ys))"
    by (rule rl.insert_before_gap [OF kinv_wf [OF inv] hh det F])
  show "h \<noteq> Priority_table p" for p using h by auto
  show "node_ok s h n" if "n \<in> set (xs @ Tlist t # ys)" for n
    using that kinv_node [OF inv, of n h] F sus h by auto
qed

text \<open>A suspended thread whose timer is off becomes ready, with its error number changed.\<close>

lemma kinv_wake:
  fixes e :: int
  assumes inv: "kinv s F" and sus: "suspended s t" and off: "detached F (Row (Thread_timer t) 0)"
  defines "s1 \<equiv> (upd_thread t (\<lambda>th. th\<lparr>th_error := e\<rparr>) s)\<lparr>links := rt_list_remove (Tlist t) (links s)\<rparr>"
  shows "kinv (rt_schedule_insert_thread t s1) (make_ready s t F)"
proof -
  let ?s = "s\<lparr>links := rt_list_remove (Tlist t) (links s)\<rparr>"
  have inv0: "kinv ?s (drop_thread t F)"
    unfolding drop_thread_def by (rule kinv_remove_tlist [OF inv]) (use sus in simp)
  then have inv1: "kinv s1 (drop_thread t F)"
    by (rule kinv_cong) (simp_all add: s1_def same_defs)
  have off': "detached (drop_thread t F) (Row (Thread_timer t) 0)"
    using off drop_subset(1) by fastforce
  have prio: "ready_head s1 t = ready_head s t" by (simp add: s1_def)
  have "kinv (rt_schedule_insert_thread t s1)
      ((drop_thread t F)(ready_head s t := drop_thread t F (ready_head s t) @ [Tlist t]))"
    using kinv_insert_thread [OF inv1 drop_thread_detaches [OF inv] off'] sus unfolding prio
    by (simp add: s1_def)
  moreover have "drop_thread t F (ready_head s t) = F (ready_head s t)"
    using kinv_pt_drop [OF inv, of t "Thread_timer t"] sus drop_timer_id [OF off'] by simp
  ultimately show ?thesis
    by (simp add: make_ready_def drop_timer_id [OF off'] Let_def)
qed

lemma kinv_thread_timeout:
  assumes inv: "kinv s F" and sus: "suspended s t" and off: "detached F (Row (Thread_timer t) 0)"
    and ok: "rt_thread_timeout t s = Ok s'"
  shows "kinv s' (make_ready s t F)"
proof -
  have "rt_schedule (rt_schedule_insert_thread t
      ((upd_thread t (\<lambda>th. th\<lparr>th_error := - RT_ETIMEOUT\<rparr>) s)\<lparr>links := rt_list_remove (Tlist t) (links s)\<rparr>)) = Ok s'"
    using ok sus by (simp add: rt_thread_timeout_def Let_def)
  then show ?thesis
    by (rule kinv_schedule(1) [OF kinv_wake [OF inv sus off]])
qed

lemma drop_thread_ready_head:
  assumes inv: "kinv s F" and rdy: "ready s t"
  shows "drop_thread t F = F(ready_head s t := remove1 (Tlist t) (F (ready_head s t)))"
  unfolding drop_thread_def by (rule remove1_upd [OF kinv_wf [OF inv] kinv_ready [OF inv rdy]])

lemma attr_ok_set: "attr_ok (set_priority_attr th)"
  by (simp add: attr_ok_def set_priority_attr_def Let_def)

lemma set_priority_attr_simps [simp]:
  "th_stat (set_priority_attr th) = th_stat th"
  "th_current_priority (set_priority_attr th) = th_current_priority th"
  by (simp_all add: set_priority_attr_def Let_def)

lemma kinv_not_queued:
  assumes inv: "kinv s F" and nr: "\<not> ready s t" and st: "th_stat th = th_stat (thread s t)"
    and attr: "attr_ok th"
  shows "kinv (s\<lparr>thread := (thread s)(t := th)\<rparr>) F" (is "kinv ?s F")
proof (rule kinvI)
  have tt: "thread_timer_ok ?s t' = thread_timer_ok s t'" for t' by (simp add: thread_timer_ok_def)
  have stat: "th_stat (thread ?s t') = th_stat (thread s t')" for t' using st by simp
  show "node_ok ?s h n" if n: "n \<in> set (F h)" for h n
  proof (cases "n = Tlist t")
    case True
    then show ?thesis using kinv_node [OF inv n] nr by (cases h) (auto simp: stat st)
  next
    case False
    then show ?thesis
      using kinv_node [OF inv n] by (cases h) (auto simp: timer_ok_def tt stat st)
  qed
  show "Tlist t' \<in> set (F (ready_head ?s t'))" if "ready ?s t'" for t'
    using that kinv_ready [OF inv, of t'] nr st by (cases "t' = t") auto
  show "attr_ok (thread ?s t') \<and> thread_timer_ok ?s t'" if "th_state (thread ?s t') \<noteq> RT_THREAD_INIT" for t'
    using that kinv_attr [OF inv, of t'] kinv_timer [OF inv, of t'] st attr by (auto simp: tt)
qed (use kinv_wf [OF inv] kinv_bits [OF inv] in \<open>simp_all add: ready_bits_def\<close>)

text \<open>The lists after a ready thread changed its priority to \<open>p\<close>.\<close>

definition requeue :: "thread_id \<Rightarrow> u8 \<Rightarrow> (node \<Rightarrow> node list) \<Rightarrow> node \<Rightarrow> node list" where
  "requeue t p F =
     (drop_thread t F)(Priority_table (unat p) := drop_thread t F (Priority_table (unat p)) @ [Tlist t])"

lemma kinv_change_priority:
  assumes inv: "kinv s F" and ok: "rt_thread_control t (Change_priority p) s = Ok (r, s')"
  shows "kinv s' (if ready s t then requeue t p F else F)"
proof (cases "ready s t")
  case False
  have "kinv (s\<lparr>thread := (thread s)(t := set_priority_attr ((thread s t)\<lparr>th_current_priority := p\<rparr>))\<rparr>) F"
    by (rule kinv_not_queued [OF inv False]) (simp_all add: attr_ok_set)
  then show ?thesis using ok False by (auto simp: Let_def)
next
  case True
  define s1 where "s1 = rt_schedule_remove_thread t s"
  define th where "th = set_priority_attr ((thread s t)\<lparr>th_current_priority := p\<rparr>)"
  define s2 where "s2 = s1\<lparr>thread := (thread s1)(t := th)\<rparr>"
  have eq1: "thread s1 = thread s" "object s1 = object s" "timer s1 = timer s"
    by (simp_all add: s1_def rt_schedule_remove_thread_def Let_def)
  have q1: "queue_inv s1 (drop_thread t F)"
    unfolding s1_def drop_thread_def
    by (rule queue_remove_thread [OF kinv_queue [OF inv] kinv_attr [OF inv]]) (use True in simp)
  have det: "detached (drop_thread t F) (Tlist t)" by (rule drop_thread_detaches [OF inv])
  have q2: "queue_inv s2 (drop_thread t F)"
    using q1 det unfolding queue_inv_def queue_member_def s2_def
    by (auto simp: ready_bits_def) (metis)
  have s3: "s' = rt_schedule_insert_thread t s2"
    using ok True by (auto simp: Let_def s2_def s1_def th_def rt_schedule_remove_thread_def)
  have "queue_inv s' (requeue t p F)"
    unfolding s3 requeue_def using queue_insert_thread [OF q2 det] by (simp add: s2_def th_def attr_ok_set)
  moreover have eq: "thread s' = (thread s)(t := th\<lparr>th_stat := 1 OR (th_stat th AND NOT 0xf)\<rparr>)"
    "object s' = object s" "timer s' = timer s"
    by (simp_all add: s3 rt_schedule_insert_thread_def s2_def eq1 Let_def)
  moreover have rdy: "(1 OR (th_stat th AND NOT 0xf)) AND 0xf = 1" by (rule stat_set) simp
  moreover have "node_ok s' h n" if n: "n \<in> set (requeue t p F h)" for h n
  proof (cases "n = Tlist t")
    case True
    then have "h = Priority_table (unat p)" using n det by (auto simp: requeue_def split: if_splits)
    then show ?thesis using True rdy by (simp add: eq th_def)
  next
    case False
    then have "n \<in> set (F h)"
      using n by (auto simp: requeue_def split: if_splits dest: drop_subset)
    from kinv_node [OF inv this] False True show ?thesis
      by (cases h) (auto simp: eq timer_ok_def thread_timer_ok_def)
  qed
  moreover have "Tlist t' \<in> set (requeue t p F (ready_head s' t'))" if "ready s' t'" for t'
    using that kinv_ready [OF inv, of t'] by (cases "t' = t") (auto simp: eq th_def requeue_def drop_thread_def)
  moreover have "attr_ok (thread s' t') \<and> thread_timer_ok s' t'" if "th_state (thread s' t') \<noteq> RT_THREAD_INIT" for t'
  proof (cases "t' = t")
    case True
    have "attr_ok th" by (simp add: th_def attr_ok_set)
    then show ?thesis
      using True kinv_timer [OF inv, of t] \<open>ready s t\<close> by (auto simp: eq thread_timer_ok_def attr_ok_def)
  next
    case False
    then show ?thesis
      using that kinv_attr [OF inv, of t'] kinv_timer [OF inv, of t'] by (auto simp: eq thread_timer_ok_def)
  qed
  ultimately show ?thesis
    using True by (auto simp: kinv_def queue_inv_def)
qed

end
