(* ===== verification/RT_Thread_Props.thy ===== *)
theory RT_Thread_Props
  imports RT_Kernel_Inv
begin

text \<open>
  The operations of \<^verbatim>\<open>src/src/thread.c\<close> keep the kernel invariant: starting, yielding, sleeping,
  ending and creating threads.
\<close>

section \<open>Starting\<close>

lemma kinv_unlisted:
  assumes inv: "kinv s F" and det: "detached F (Tlist t)" and off: "detached F (Row (Thread_timer t) 0)"
    and st: "th_state th \<noteq> RT_THREAD_READY"
    and attr: "th_state th \<noteq> RT_THREAD_INIT \<Longrightarrow> attr_ok th \<and> thread_timer_ok s t"
  shows "kinv (s\<lparr>thread := (thread s)(t := th)\<rparr>) F" (is "kinv ?s F")
proof (rule kinvI)
  have tt: "thread_timer_ok ?s t' = thread_timer_ok s t'" for t' by (simp add: thread_timer_ok_def)
  show "node_ok ?s h n" if n: "n \<in> set (F h)" for h n
  proof -
    have "n \<noteq> Tlist t" "n \<noteq> Row (Thread_timer t) 0" using n det off by blast+
    then show ?thesis
      using kinv_node [OF inv n] by (cases h) (auto simp: timer_ok_def tt)
  qed
  show "Tlist t' \<in> set (F (ready_head ?s t'))" if "ready ?s t'" for t'
    using that kinv_ready [OF inv, of t'] st by (cases "t' = t") auto
  show "attr_ok (thread ?s t') \<and> thread_timer_ok ?s t'" if "th_state (thread ?s t') \<noteq> RT_THREAD_INIT" for t'
    using that kinv_attr [OF inv, of t'] kinv_timer [OF inv, of t'] attr by (auto simp: tt)
qed (use kinv_wf [OF inv] kinv_bits [OF inv] in \<open>simp_all add: ready_bits_def\<close>)

lemma kinv_init_unlisted:
  assumes inv: "kinv s F" and st: "th_state (thread s t) = RT_THREAD_INIT"
  shows "detached F (Tlist t)" "detached F (Row (Thread_timer t) 0)"
  using kinv_tlist_head [OF inv] kinv_ready_timer_off [OF inv] st by (force, fastforce)

lemma kinv_startup:
  assumes inv: "kinv s F" and tt: "thread_timer_ok s t"
    and ok: "rt_thread_startup t s = Ok (r, s')"
  defines "p \<equiv> th_init_priority (thread s t)"
  shows "kinv s' (F(Priority_table (unat p) := F (Priority_table (unat p)) @ [Tlist t]))" "r = RT_EOK"
proof -
  define th where "th = (set_priority_attr ((thread s t)\<lparr>th_current_priority := p\<rparr>))\<lparr>th_stat := RT_THREAD_SUSPEND\<rparr>"
  define s1 where "s1 = s\<lparr>thread := (thread s)(t := th)\<rparr>"
  have st: "th_state (thread s t) = RT_THREAD_INIT"
    using ok by (simp add: rt_thread_startup_def)
  note det = kinv_init_unlisted [OF inv st]
  have "attr_ok th" using attr_ok_set by (simp add: th_def attr_ok_def)
  then have inv1: "kinv s1 F"
    unfolding s1_def using tt by (intro kinv_unlisted [OF inv det]) (simp_all add: th_def)
  have sus: "suspended s1 t" by (simp add: s1_def th_def)
  have head: "ready_head s1 t = Priority_table (unat p)" by (simp add: s1_def th_def)
  have eq: "rt_thread_startup t s =
      (let s = snd (rt_thread_resume t s1)
       in if rt_thread_self s \<noteq> None then rbind (rt_schedule s) (\<lambda>s. Ok (RT_EOK, s)) else Ok (RT_EOK, s))"
    using st by (simp add: rt_thread_startup_def s1_def th_def p_def Let_def case_prod_beta)
  have "make_ready s1 t F = F(Priority_table (unat p) := F (Priority_table (unat p)) @ [Tlist t])"
    using head by (simp add: make_ready_def drop_thread_id [OF det(1)] drop_timer_id [OF det(2)] Let_def)
  then have "kinv (snd (rt_thread_resume t s1)) (F(Priority_table (unat p) := F (Priority_table (unat p)) @ [Tlist t]))"
    using kinv_thread_resume(1) [OF inv1 sus] by simp
  then show "kinv s' (F(Priority_table (unat p) := F (Priority_table (unat p)) @ [Tlist t]))" "r = RT_EOK"
    using ok kinv_schedule(1) unfolding eq by (auto simp: Let_def split: if_splits)
qed

section \<open>Yielding\<close>

lemma ring_two_neighbours:
  assumes wf: "lists_wf heads l F" and n: "n \<in> set (F h)"
  shows "lnext l n \<noteq> lprev l n \<longleftrightarrow> F h \<noteq> [n]"
proof -
  have h: "h \<in> heads" using rl.mem_head [OF wf n] by blast
  obtain xs ys where F: "F h = xs @ n # ys" using n by (meson split_list)
  have nx: "lnext l n = hd (ys @ [h])" by (rule rl.nxt_member [OF wf F])
  have pv: "lprev l n = last (h # xs)" using lists_wf_prev [OF wf h, of xs "n # ys"] F by simp
  have dist: "distinct (h # xs @ n # ys)" using lists_wf_dist_head [OF wf h] F by simp
  have "hd (ys @ [h]) = last (h # xs) \<longleftrightarrow> xs = [] \<and> ys = []"
  proof
    assume eq: "hd (ys @ [h]) = last (h # xs)"
    show "xs = [] \<and> ys = []"
    proof (rule ccontr)
      assume "\<not> (xs = [] \<and> ys = [])"
      then show False
        using eq dist last_in_set [of xs] by (cases ys; cases "xs = []") auto
    qed
  qed simp
  moreover have "F h = [n] \<longleftrightarrow> xs = [] \<and> ys = []"
    using F by (auto simp: append_eq_Cons_conv)
  ultimately show ?thesis by (simp add: nx pv)
qed

lemma kinv_rotate:
  assumes inv: "kinv s F" and rdy: "ready s t"
  defines "h \<equiv> ready_head s t"
  shows "kinv (s\<lparr>links := rt_list_insert_before h (Tlist t) (rt_list_remove (Tlist t) (links s))\<rparr>)
    (F(h := remove1 (Tlist t) (F h) @ [Tlist t]))" (is "kinv ?s ?F")
proof -
  have "drop_thread t F = F(h := remove1 (Tlist t) (F h))"
    using drop_thread_ready_head [OF inv rdy] by (simp add: h_def)
  then have wf: "lists_wf heads (links ?s) ?F"
    using rl.move_back [OF kinv_wf [OF inv], of h "Tlist t"] by (simp add: h_def drop_thread_def)
  have set: "set (?F k) = set (F k)" for k
    using kinv_ready [OF inv rdy] rl.mem_distinct [OF kinv_wf [OF inv], of h]
    by (auto simp: h_def dest: notin_set_remove1 [THEN contrapos_pp] intro: ccontr)
  have emp: "?F k = [] \<longleftrightarrow> F k = []" for k using set [of k] by (metis set_empty)
  have same: "same_threads s ?s" "same_timers s ?s" by (simp_all add: same_defs)
  show ?thesis
  proof (rule kinvI)
    show "ready_bits ?s ?F" using kinv_bits [OF inv] unfolding ready_bits_def emp by simp
    show "node_ok ?s k n" if "n \<in> set (?F k)" for k n
      using that kinv_node [OF inv, of n k] node_ok_cong [OF same] unfolding set by simp
    show "Tlist t' \<in> set (?F (ready_head ?s t'))" if "ready ?s t'" for t'
      using that kinv_ready [OF inv, of t'] unfolding set by simp
    show "attr_ok (thread ?s t') \<and> thread_timer_ok ?s t'" if "th_state (thread ?s t') \<noteq> RT_THREAD_INIT" for t'
      using kinv_attr [OF inv, of t'] kinv_timer [OF inv, of t'] that by (simp add: thread_timer_ok_def)
  qed (rule wf)
qed

lemma kinv_yield:
  assumes inv: "kinv s F" and cur: "rt_current_thread s = Some t" and ok: "rt_thread_yield s = Ok (r, s')"
  defines "h \<equiv> ready_head s t"
  shows "kinv s' (if ready s t then F(h := remove1 (Tlist t) (F h) @ [Tlist t]) else F)" "r = RT_EOK"
proof -
  let ?F = "F(h := remove1 (Tlist t) (F h) @ [Tlist t])"
  have "kinv s' (if ready s t then ?F else F) \<and> r = RT_EOK"
  proof (cases "ready s t \<and> lnext (links s) (Tlist t) \<noteq> lprev (links s) (Tlist t)")
    case False
    have "?F = F" if rdy: "ready s t"
    proof -
      have "F h = [Tlist t]"
        using ring_two_neighbours [OF kinv_wf [OF inv] kinv_ready [OF inv rdy]] False rdy by (simp add: h_def)
      then show ?thesis by auto
    qed
    then show ?thesis using False ok cur inv by (auto simp: rt_thread_yield_def)
  next
    case True
    then have "rt_schedule (s\<lparr>links := rt_list_insert_before h (Tlist t) (rt_list_remove (Tlist t) (links s))\<rparr>) = Ok s'" "r = RT_EOK"
      using ok cur by (auto simp: rt_thread_yield_def h_def Let_def)
    then show ?thesis using kinv_schedule(1) [OF kinv_rotate [OF inv, of t]] True by (simp add: h_def)
  qed
  then show "kinv s' (if ready s t then ?F else F)" "r = RT_EOK" by auto
qed

section \<open>Sleeping\<close>

text \<open>The common end of every blocking call: the thread's timer is set to \<open>tick\<close> and started.\<close>

lemma timer_list_thread: "thread_timer_ok s t \<Longrightarrow> timer_list_of (Thread_timer t) s = Timer_list"
  using flag_bit_2 by (auto simp: timer_list_of_def thread_timer_ok_def)

definition start_timeout :: "thread_id \<Rightarrow> u32 \<Rightarrow> kstate \<Rightarrow> kstate res" where
  "start_timeout t tick s =
     rbind (rt_timer_start (Thread_timer t) (snd (rt_timer_control (Thread_timer t) (Timer_set_time tick) s)))
       (\<lambda>(r, s). Ok s)"

lemma kinv_start_timeout:
  assumes inv: "kinv s F" and sus: "suspended s t" and tick: "tick < RT_TICK_HALF"
  obtains s' ts where "start_timeout t tick s = Ok s'" "timer_nodes F (Timer_list 0) ts"
    "kinv s' ((drop_timer (Thread_timer t) F)(Timer_list 0 := map (\<lambda>t. Row t 0)
        (insert_by (\<lambda>tm. later (rt_tick s + tick) (tm_timeout_tick (timer s tm))) (Thread_timer t)
          (remove1 (Thread_timer t) ts))))"
    "thread s' = thread s" "rt_current_thread s' = rt_current_thread s"
    "rt_scheduler_lock_nest s' = rt_scheduler_lock_nest s" "mem s' = mem s" "rt_tick s' = rt_tick s"
    "tm_timeout_tick (timer s' (Thread_timer t)) = rt_tick s + tick"
    "timer s' = (timer s)(Thread_timer t := (timer s (Thread_timer t))\<lparr>tm_init_tick := tick, tm_timeout_tick := rt_tick s + tick\<rparr>)"
    "\<forall>x. bit (ob_flag (object s' (O_timer x))) 1 = bit (ob_flag (object s (O_timer x))) 1"
proof -
  let ?tm = "Thread_timer t"
  define s1 where "s1 = s\<lparr>timer := (timer s)(?tm := (timer s ?tm)\<lparr>tm_init_tick := tick\<rparr>)\<rparr>"
  have inv1: "kinv s1 F"
    by (rule kinv_cong [OF inv]) (simp_all add: s1_def same_defs)
  have tt: "thread_timer_ok s1 t" using kinv_timer [OF inv1, of t] sus by (simp add: s1_def)
  obtain ts where ts: "timer_nodes F (timer_list_of ?tm s1 0) ts"
    by (rule kinv_timer_nodes [OF inv1])
  have sus1: "suspended s1 t" using sus by (simp add: s1_def)
  have tick1: "tm_init_tick (timer s1 ?tm) < RT_TICK_HALF" using tick by (simp add: s1_def)
  obtain s' where s': "timer_start_insert ?tm s1 = Ok s'"
    and inv': "kinv s' ((drop_timer ?tm F)(timer_list_of ?tm s1 0 := map (\<lambda>t. Row t 0)
        (insert_by (\<lambda>tm. later (rt_tick s1 + tm_init_tick (timer s1 ?tm)) (tm_timeout_tick (timer s1 tm))) ?tm
          (remove1 ?tm ts))))"
    and eq: "s' = s1\<lparr>links := links s', random_nr := random_nr s1 + 1,
            timer := (timer s1)(?tm := (timer s1 ?tm)\<lparr>tm_timeout_tick := rt_tick s1 + tm_init_tick (timer s1 ?tm)\<rparr>),
            object := (object s1)(O_timer ?tm := (object s1 (O_timer ?tm))\<lparr>ob_flag :=
               (ob_flag (object s1 (O_timer ?tm)) AND NOT 1) OR 1\<rparr>)\<rparr>"
    using kinv_timer_start_insert [OF inv1 tick1 _ ts] sus1 by blast
  have nosoft: "ob_flag (object s' (O_timer ?tm)) AND 4 = 0"
  proof -
    have "\<not> bit (ob_flag (object s' (O_timer ?tm))) 2"
      using tt by (subst eq) (simp add: thread_timer_ok_def flag_bits)
    then show ?thesis using flag_bit_2 by blast
  qed
  have start: "start_timeout t tick s = Ok s'"
    using s' nosoft by (simp add: start_timeout_def rt_timer_start_def s1_def)
  have td: "(\<lambda>tm. later (rt_tick s1 + tm_init_tick (timer s1 ?tm)) (tm_timeout_tick (timer s1 tm)))
      = (\<lambda>tm. later (rt_tick s + tick) (tm_timeout_tick (timer s tm)))"
    by (rule ext) (simp add: s1_def)
  show ?thesis
  proof (rule that [OF start])
    show "timer_nodes F (Timer_list 0) ts" using ts timer_list_thread [OF tt] by simp
    show "kinv s' ((drop_timer ?tm F)(Timer_list 0 := map (\<lambda>t. Row t 0)
        (insert_by (\<lambda>tm. later (rt_tick s + tick) (tm_timeout_tick (timer s tm))) ?tm (remove1 ?tm ts))))"
      using inv' timer_list_thread [OF tt] unfolding td by simp
    show "\<forall>x. bit (ob_flag (object s' (O_timer x))) 1 = bit (ob_flag (object s (O_timer x))) 1"
      by (subst eq) (simp add: s1_def flag_bits)
  qed (subst eq, simp add: s1_def)+
qed

lemma rt_thread_sleep_eq:
  "rt_current_thread s = Some t \<Longrightarrow>
   rt_thread_sleep tick s =
     rbind (start_timeout t tick (snd (rt_thread_suspend t s)))
       (\<lambda>s. rt_schedule (s\<lparr>cont := (cont s)(t := Some C_sleep)\<rparr>))"
  by (simp add: rt_thread_sleep_def start_timeout_def split_def Let_def rbind_assoc)


text \<open>\<open>top_thread s t\<close>: \<open>t\<close> is ready and no ready thread has a numerically smaller priority.\<close>

definition top_thread :: "kstate \<Rightarrow> thread_id \<Rightarrow> bool" where
  "top_thread s t \<longleftrightarrow>
     ready s t \<and> (\<forall>u. ready s u \<longrightarrow> th_current_priority (thread s t) \<le> th_current_priority (thread s u))"

definition stacks_ok :: "kstate \<Rightarrow> bool" where
  "stacks_ok s \<longleftrightarrow> (\<forall>u. ready s u \<longrightarrow> stack_ok s u)"

lemma next_thread_top:
  assumes inv: "kinv s F" and nt: "next_thread F t p"
  shows "top_thread s t" "p = unat (th_current_priority (thread s t))"
proof -
  have "F (Priority_table p) \<noteq> []" and hd: "hd (F (Priority_table p)) = Tlist t"
    and lo: "\<forall>q < p. F (Priority_table q) = []"
    using nt by (simp_all add: next_thread_def highest_queue_def)
  then have "Tlist t \<in> set (F (Priority_table p))" using hd_in_set by metis
  from kinv_node [OF inv this] have t: "ready s t" "p = unat (th_current_priority (thread s t))" by simp_all
  show "p = unat (th_current_priority (thread s t))" by (rule t(2))
  show "top_thread s t"
    unfolding top_thread_def
  proof (intro conjI allI impI)
    fix u assume "ready s u"
    then have "F (ready_head s u) \<noteq> []" using kinv_ready [OF inv] by fastforce
    then have "\<not> unat (th_current_priority (thread s u)) < p" using lo by blast
    then show "th_current_priority (thread s t) \<le> th_current_priority (thread s u)"
      using t(2) by (simp add: word_le_nat_alt)
  qed (rule t(1))
qed

lemma ready_next_thread:
  assumes inv: "kinv s F" and u: "ready s u"
  obtains t p where "next_thread F t p"
proof -
  have "F (ready_head s u) \<noteq> []" using kinv_ready [OF inv u] by fastforce
  from schedule_pick [OF kinv_queue [OF inv] this] show ?thesis using that by blast
qed

lemma kinv_schedule_ok:
  assumes inv: "kinv s F" and lock: "rt_scheduler_lock_nest s = 0" and cur: "rt_current_thread s = Some c"
    and u: "ready s u" and st: "stacks_ok s"
  obtains t p where "next_thread F t p" "top_thread s t" "rt_schedule s =
    Ok (if t = c then s
        else s\<lparr>rt_current_priority := th_current_priority (thread s t), rt_current_thread := Some t\<rparr>)"
proof -
  obtain t p where t: "next_thread F t p" by (rule ready_next_thread [OF inv u])
  then have top: "top_thread s t" by (rule next_thread_top(1) [OF inv])
  moreover have "stack_ok s t" using top st by (simp add: top_thread_def stacks_ok_def)
  ultimately show ?thesis
    using that [OF t] rt_schedule_switches [OF kinv_queue [OF inv] lock cur t] by simp
qed

lemma remove_thread_frame [simp]:
  "thread (rt_schedule_remove_thread t s) = thread s"
  "timer (rt_schedule_remove_thread t s) = timer s"
  "object (rt_schedule_remove_thread t s) = object s"
  "mem (rt_schedule_remove_thread t s) = mem s"
  "rt_tick (rt_schedule_remove_thread t s) = rt_tick s"
  "cont (rt_schedule_remove_thread t s) = cont s"
  "rt_interrupt_nest (rt_schedule_remove_thread t s) = rt_interrupt_nest s"
  "rt_current_thread (rt_schedule_remove_thread t s) = rt_current_thread s"
  "rt_scheduler_lock_nest (rt_schedule_remove_thread t s) = rt_scheduler_lock_nest s"
  by (simp_all add: rt_schedule_remove_thread_def Let_def)

lemma suspend_frame:
  "mem (snd (rt_thread_suspend t s)) = mem s"
  "rt_tick (snd (rt_thread_suspend t s)) = rt_tick s"
  "rt_current_thread (snd (rt_thread_suspend t s)) = rt_current_thread s"
  "rt_scheduler_lock_nest (snd (rt_thread_suspend t s)) = rt_scheduler_lock_nest s"
  "u \<noteq> t \<Longrightarrow> thread (snd (rt_thread_suspend t s)) u = thread s u"
  "th_sp (thread (snd (rt_thread_suspend t s)) t) = th_sp (thread s t)"
  "timer (snd (rt_thread_suspend t s)) = timer s"
  by (simp_all add: rt_thread_suspend_def Let_def case_prod_beta)

lemma suspend_ready_iff:
  assumes inv: "kinv s F" and rdy: "ready s t"
  shows "ready (snd (rt_thread_suspend t s)) u \<longleftrightarrow> ready s u \<and> u \<noteq> t"
  using kinv_thread_suspend(2) [OF assms] suspend_frame(5) [of u t s] by (cases "u = t") auto

lemma stack_ok_cong:
  "thread s' u = thread s u \<Longrightarrow> mem s' = mem s \<Longrightarrow> stack_ok s' u = stack_ok s u"
  by (simp add: stack_ok_def)

text \<open>
  A running thread that sleeps is suspended with its timer armed for \<open>tick\<close> ticks from now, and the
  processor goes to the first of the other ready threads of highest priority.
\<close>

lemma rt_thread_sleep_ok:
  assumes inv: "kinv s F" and cur: "rt_current_thread s = Some t" and rdy: "ready s t"
    and lock: "rt_scheduler_lock_nest s = 0" and tick: "tick < RT_TICK_HALF"
    and u: "ready s u" "u \<noteq> t" and st: "stacks_ok s"
  obtains s' F' v where "rt_thread_sleep tick s = Ok s'" "kinv s' F'" "suspended s' t"
    "Row (Thread_timer t) 0 \<in> set (F' (Timer_list 0))"
    "tm_timeout_tick (timer s' (Thread_timer t)) = rt_tick s + tick"
    "detached F' (Tlist t)" "rt_current_thread s' = Some v" "top_thread s' v" "cont s' t = Some C_sleep"
proof -
  define s1 where "s1 = snd (rt_thread_suspend t s)"
  note inv1 = kinv_thread_suspend(1) [OF inv rdy, folded s1_def]
  note sus1 = kinv_thread_suspend(2) [OF inv rdy, folded s1_def]
  obtain s2 ts where s2: "start_timeout t tick s1 = Ok s2" "thread s2 = thread s1"
      "rt_current_thread s2 = rt_current_thread s1" "rt_scheduler_lock_nest s2 = rt_scheduler_lock_nest s1"
      "mem s2 = mem s1" "tm_timeout_tick (timer s2 (Thread_timer t)) = rt_tick s1 + tick"
    and inv2: "kinv s2 ((drop_timer (Thread_timer t) (drop_thread t F))(Timer_list 0 := map (\<lambda>t. Row t 0)
        (insert_by (\<lambda>tm. later (rt_tick s1 + tick) (tm_timeout_tick (timer s1 tm))) (Thread_timer t)
          (remove1 (Thread_timer t) ts))))" (is "kinv s2 ?F")
    by (rule kinv_start_timeout [OF inv1 sus1 tick]) blast
  define s3 where "s3 = s2\<lparr>cont := (cont s2)(t := Some C_sleep)\<rparr>"
  have inv3: "kinv s3 ?F" by (rule kinv_cong [OF inv2]) (simp_all add: s3_def same_defs)
  have rdy3: "ready s3 x \<longleftrightarrow> ready s x \<and> x \<noteq> t" for x
    using suspend_ready_iff [OF inv rdy, of x] s2(2) by (simp add: s3_def s1_def)
  have st3: "stacks_ok s3"
    unfolding stacks_ok_def rdy3
  proof (intro allI impI)
    fix x assume x: "ready s x \<and> x \<noteq> t"
    then have "thread s3 x = thread s x" "mem s3 = mem s"
      using s2(2,5) suspend_frame(1,5) by (simp_all add: s3_def s1_def)
    then show "stack_ok s3 x" using st x stack_ok_cong [of s3 x s] by (simp add: stacks_ok_def)
  qed
  have "rt_scheduler_lock_nest s3 = 0" "rt_current_thread s3 = Some t" "ready s3 u"
    using s2(3,4) lock cur u suspend_frame rdy3 by (simp_all add: s3_def s1_def)
  from kinv_schedule_ok [OF inv3 this st3] obtain v p where v: "top_thread s3 v"
    and sch: "rt_schedule s3 = Ok (if v = t then s3 else s3\<lparr>rt_current_priority := th_current_priority (thread s3 v),
        rt_current_thread := Some v\<rparr>)" by metis
  have vt: "v \<noteq> t" using v rdy3 by (simp add: top_thread_def)
  define s' where "s' = s3\<lparr>rt_current_priority := th_current_priority (thread s3 v), rt_current_thread := Some v\<rparr>"
  have ok: "rt_thread_sleep tick s = Ok s'"
    using sch vt s2(1) by (simp add: rt_thread_sleep_eq [OF cur] s1_def [symmetric] s3_def s'_def)
  have det: "detached ?F (Tlist t)"
    using drop_thread_detaches [OF inv, of t] by (auto dest: drop_subset)
  show ?thesis
  proof (rule that [OF ok _ _ _ _ det, of v])
    show "kinv s' ?F" by (rule kinv_cong [OF inv3]) (simp_all add: s'_def same_defs)
    show "suspended s' t" using sus1 s2(2) by (simp add: s'_def s3_def)
    show "Row (Thread_timer t) 0 \<in> set (?F (Timer_list 0))" by simp
    show "tm_timeout_tick (timer s' (Thread_timer t)) = rt_tick s + tick"
      using s2(6) suspend_frame(2) by (simp add: s'_def s3_def s1_def)
    show "top_thread s' v" using v by (simp add: top_thread_def s'_def)
  qed (simp_all add: s'_def s3_def)
qed

section \<open>Ending\<close>

lemma kinv_remove_unready:
  assumes inv: "kinv s F" and nr: "\<not> ready s t" and st: "th_state (thread s t) \<noteq> RT_THREAD_INIT"
  shows "kinv (rt_schedule_remove_thread t s) (drop_thread t F)"
proof -
  have q: "queue_inv (rt_schedule_remove_thread t s) (drop_thread t F)"
    unfolding drop_thread_def by (rule queue_remove_thread [OF kinv_queue [OF inv] kinv_attr [OF inv st]])
  have k: "kinv (s\<lparr>links := rt_list_remove (Tlist t) (links s)\<rparr>) (drop_thread t F)"
    unfolding drop_thread_def by (rule kinv_remove_tlist [OF inv nr])
  let ?s = "s\<lparr>links := rt_list_remove (Tlist t) (links s)\<rparr>" and ?t = "rt_schedule_remove_thread t s"
  have same: "same_threads ?s ?t" "same_timers ?s ?t" by (simp_all add: same_defs)
  show ?thesis
  proof (rule kinvI)
    show "node_ok ?t h n" if "n \<in> set (drop_thread t F h)" for h n
      using kinv_node [OF k that] node_ok_cong [OF same] by simp
    show "Tlist u \<in> set (drop_thread t F (ready_head ?t u))" if "ready ?t u" for u
      using kinv_ready [OF k, of u] that by simp
    show "attr_ok (thread ?t u) \<and> thread_timer_ok ?t u" if "th_state (thread ?t u) \<noteq> RT_THREAD_INIT" for u
      using kinv_attr [OF k, of u] kinv_timer [OF k, of u] that by (simp add: thread_timer_ok_def)
  qed (use q in \<open>simp_all add: queue_inv_def\<close>)
qed

definition drop_obj :: "obj_ref \<Rightarrow> (node \<Rightarrow> node list) \<Rightarrow> node \<Rightarrow> node list" where
  "drop_obj ob F = (\<lambda>h. remove1 (Obj_node ob) (F h))"

lemma drop_obj_subset: "x \<in> set (drop_obj ob F h) \<Longrightarrow> x \<in> set (F h)"
  unfolding drop_obj_def by (meson notin_set_remove1)

lemma kinv_object_detach:
  assumes inv: "kinv s F"
  shows "kinv (rt_object_detach ob s) (drop_obj ob F)" (is "kinv ?s ?F")
proof (rule kinvI)
  have same: "same_threads s ?s" "same_timers s ?s" by (simp_all add: same_defs rt_object_detach_def)
  show "lists_wf heads (links ?s) ?F"
    using rl.remove_any [OF kinv_wf [OF inv], of "Obj_node ob"] by (simp add: rt_object_detach_def drop_obj_def)
  have pt: "?F (Priority_table p) = F (Priority_table p)" for p
    using kinv_node [OF inv, of "Obj_node ob" "Priority_table p"] by (auto simp: drop_obj_def intro: remove1_idem)
  show "ready_bits ?s ?F"
    using kinv_bits [OF inv] unfolding ready_bits_def pt by (simp add: rt_object_detach_def)
  show "node_ok ?s h n" if "n \<in> set (?F h)" for h n
    using kinv_node [OF inv drop_obj_subset [OF that]] node_ok_cong [OF same] by simp
  show "Tlist t \<in> set (?F (ready_head ?s t))" if "ready ?s t" for t
    using kinv_ready [OF inv, of t] that pt by (simp add: rt_object_detach_def)
  show "attr_ok (thread ?s t) \<and> thread_timer_ok ?s t" if "th_state (thread ?s t) \<noteq> RT_THREAD_INIT" for t
    using kinv_attr [OF inv, of t] kinv_timer [OF inv, of t] that
    by (simp add: thread_timer_ok_def rt_object_detach_def)
qed

text \<open>
  The lists after a thread was closed: it is in none of them, and neither are its timer and its
  timer's object.
\<close>

definition close_lists :: "thread_id \<Rightarrow> (node \<Rightarrow> node list) \<Rightarrow> node \<Rightarrow> node list" where
  "close_lists t F = drop_obj (O_timer (Thread_timer t)) (drop_timer (Thread_timer t) (drop_thread t F))"

definition thread_close :: "thread_id \<Rightarrow> kstate \<Rightarrow> kstate" where
  "thread_close t s =
     (let s = (if th_state (thread s t) \<noteq> RT_THREAD_INIT then rt_schedule_remove_thread t s else s);
          (r, s) = rt_timer_detach (Thread_timer t) s
      in upd_thread t (\<lambda>th. th\<lparr>th_stat := RT_THREAD_CLOSE\<rparr>) s)"

lemma kinv_timer_detach:
  assumes "kinv s F"
  shows "kinv (snd (rt_timer_detach tm s)) (drop_obj (O_timer tm) (drop_timer tm F))"
  using kinv_object_detach [OF kinv_remove_row [OF assms, of tm], of "O_timer tm"]
  by (simp add: rt_timer_detach_def drop_timer_def Let_def)

lemma close_lists_detached:
  assumes "kinv s F"
  shows "detached (close_lists t F) (Tlist t)" "detached (close_lists t F) (Row (Thread_timer t) 0)"
proof -
  show "detached (close_lists t F) (Tlist t)"
    unfolding close_lists_def
    using drop_thread_detaches [OF assms, of t] by (auto dest!: drop_subset(2) drop_obj_subset)
  have "detached (drop_timer (Thread_timer t) (drop_thread t F)) (Row (Thread_timer t) 0)"
    unfolding drop_timer_def drop_thread_def
    using rl.mem_distinct [OF kinv_wf [OF assms]] by (simp add: distinct_remove1)
  then show "detached (close_lists t F) (Row (Thread_timer t) 0)"
    unfolding close_lists_def by (auto dest!: drop_obj_subset)
qed

lemma thread_close_ready:
  assumes "ready s t"
  shows "thread_close t s = snd (rt_timer_detach (Thread_timer t)
    (rt_schedule_remove_thread t (s\<lparr>thread := (thread s)(t := (thread s t)\<lparr>th_stat := RT_THREAD_CLOSE\<rparr>)\<rparr>)))"
  using assms
  by (simp add: thread_close_def rt_timer_detach_def rt_object_detach_def rt_schedule_remove_thread_def Let_def)

lemma kinv_thread_close:
  assumes inv: "kinv s F" and tt: "thread_timer_ok s t"
    and attr: "th_state (thread s t) = RT_THREAD_INIT \<Longrightarrow> attr_ok (thread s t)"
  shows "kinv (thread_close t s) (close_lists t F)"
proof (cases "ready s t")
  case True
  have "kinv (rt_schedule_remove_thread t (s\<lparr>thread := (thread s)(t := (thread s t)\<lparr>th_stat := RT_THREAD_CLOSE\<rparr>)\<rparr>))
      (drop_thread t F)"
    unfolding drop_thread_def by (rule kinv_remove_thread [OF inv True]) simp_all
  then show ?thesis
    using kinv_timer_detach [of _ "drop_thread t F" "Thread_timer t"]
    unfolding thread_close_ready [OF True] close_lists_def by blast
next
  case False
  define s1 where "s1 = (if th_state (thread s t) \<noteq> RT_THREAD_INIT then rt_schedule_remove_thread t s else s)"
  have k1: "kinv s1 (drop_thread t F)"
  proof (cases "th_state (thread s t) = RT_THREAD_INIT")
    case True
    then show ?thesis
      using inv drop_thread_id [OF kinv_init_unlisted(1) [OF inv True]] by (simp add: s1_def)
  next
    case False
    then show ?thesis
      using kinv_remove_unready [OF inv \<open>\<not> ready s t\<close> False] by (simp add: s1_def)
  qed
  define s2 where "s2 = snd (rt_timer_detach (Thread_timer t) s1)"
  have k2: "kinv s2 (close_lists t F)"
    unfolding s2_def close_lists_def by (rule kinv_timer_detach [OF k1])
  have eq2: "thread s2 = thread s" "timer s2 = timer s" "object s2 = object s"
    by (simp_all add: s2_def s1_def rt_timer_detach_def rt_object_detach_def Let_def)
  have att: "attr_ok ((thread s t)\<lparr>th_stat := RT_THREAD_CLOSE\<rparr>)"
    using attr kinv_attr [OF inv, of t] by (cases "th_state (thread s t) = RT_THREAD_INIT") (simp_all add: attr_ok_def)
  have "kinv (s2\<lparr>thread := (thread s2)(t := (thread s t)\<lparr>th_stat := RT_THREAD_CLOSE\<rparr>)\<rparr>) (close_lists t F)"
    using att tt eq2 by (intro kinv_unlisted [OF k2 close_lists_detached [OF inv]]) (simp_all add: thread_timer_ok_def)
  moreover have "thread_close t s = s2\<lparr>thread := (thread s2)(t := (thread s t)\<lparr>th_stat := RT_THREAD_CLOSE\<rparr>)\<rparr>"
    unfolding thread_close_def s1_def [symmetric] Let_def using eq2(1) by (simp add: s2_def case_prod_beta)
  ultimately show ?thesis by simp
qed

lemma thread_close_state: "th_state (thread (thread_close t s) t) = RT_THREAD_CLOSE"
  by (simp add: thread_close_def case_prod_beta Let_def)

lemma kinv_defunct:
  assumes inv: "kinv s F" and det: "detached F (Tlist t)" and st: "th_state (thread s t) = RT_THREAD_CLOSE"
  shows "kinv (upd_links (rt_list_insert_after Thread_defunct (Tlist t)) s)
           (F(Thread_defunct := Tlist t # F Thread_defunct))"
  unfolding upd_links_def
proof (rule kinv_link [OF inv])
  show "lists_wf heads (rt_list_insert_after Thread_defunct (Tlist t) (links s))
          (F(Thread_defunct := Tlist t # F Thread_defunct))"
    using rl.push_front [OF kinv_wf [OF inv] _ _ det, of Thread_defunct] by simp
  show "node_ok s Thread_defunct n" if "n \<in> set (Tlist t # F Thread_defunct)" for n
    using that kinv_node [OF inv, of n Thread_defunct] st by auto
qed simp

lemma kinv_thread_delete:
  assumes inv: "kinv s F" and tt: "thread_timer_ok s t"
    and attr: "th_state (thread s t) = RT_THREAD_INIT \<Longrightarrow> attr_ok (thread s t)"
  shows "kinv (snd (rt_thread_delete t s))
    ((close_lists t F)(Thread_defunct := Tlist t # close_lists t F Thread_defunct))"
proof -
  have "snd (rt_thread_delete t s) = upd_links (rt_list_insert_after Thread_defunct (Tlist t)) (thread_close t s)"
    by (simp add: rt_thread_delete_def thread_close_def case_prod_beta Let_def)
  then show ?thesis
    using kinv_defunct [OF kinv_thread_close [OF assms] close_lists_detached(1) [OF inv] thread_close_state]
    by (simp only:)
qed

lemma kinv_thread_exit:
  assumes inv: "kinv s F" and cur: "rt_current_thread s = Some t" and rdy: "ready s t"
    and ok: "rt_thread_exit s = Ok s'"
  shows "kinv s' (if rt_object_is_systemobject (O_thread t) s \<and> th_cleanup (thread s t) = None
      then drop_obj (O_thread t) (close_lists t F)
      else (close_lists t F)(Thread_defunct := Tlist t # close_lists t F Thread_defunct))"
proof -
  define s1 where "s1 = thread_close t s"
  have k1: "kinv s1 (close_lists t F)"
    unfolding s1_def using kinv_timer [OF inv, of t] rdy by (intro kinv_thread_close [OF inv]) simp_all
  have st1: "th_state (thread s1 t) = RT_THREAD_CLOSE" by (simp add: s1_def thread_close_state)
  have eq: "rt_thread_exit s = rt_schedule
      (if rt_object_is_systemobject (O_thread t) s \<and> th_cleanup (thread s t) = None
       then rt_object_detach (O_thread t) s1
       else upd_links (rt_list_insert_after Thread_defunct (Tlist t)) s1)"
    using cur rdy by (simp add: rt_thread_exit_def s1_def thread_close_def rt_timer_detach_def
        rt_object_detach_def rt_object_is_systemobject_def case_prod_beta Let_def)
  show ?thesis
    using ok kinv_schedule(1) [OF kinv_object_detach [OF k1]]
      kinv_schedule(1) [OF kinv_defunct [OF k1 close_lists_detached(1) [OF inv] st1]]
    unfolding eq by (auto split: if_splits)
qed

section \<open>Initialising\<close>

lemma write32_other:
  assumes "4 \<le> unat (x - a)"
  shows "write32 a w m x = m x"
proof -
  have "unat (x - a) \<noteq> 0" "unat (x - a) \<noteq> 1" "unat (x - a) \<noteq> 2" "unat (x - a) \<noteq> 3" using assms by auto
  then have "x \<noteq> a" "x \<noteq> a + 1" "x \<noteq> a + 2" "x \<noteq> a + 3" by auto
  then show ?thesis by (simp add: write32_def)
qed

lemma write32_frame:
  assumes "68 \<le> unat (x - stk)" "k \<le> 64"
  shows "write32 (stk + of_nat k) w m x = m x"
  using assms in_range_iff [of k 4 x stk] by (intro write32_other) auto

lemma stack_init_outside:
  assumes "68 \<le> unat (x - fst (rt_hw_stack_init tentry parameter stack_addr texit m))"
  shows "snd (rt_hw_stack_init tentry parameter stack_addr texit m) x = m x"
proof -
  define stk where "stk = ((stack_addr + 4) AND NOT 7) - 68"
  have x: "68 \<le> unat (x - stk)" using assms by (simp add: rt_hw_stack_init_def stk_def Let_def)
  have w: "write32 (stk + of_nat k) w m x = m x" if "k \<le> 64" for k w m
    by (rule write32_frame [OF x that])
  have fold: "fold (\<lambda>i. write32 (stk + 4 * of_nat i) 0xdeadbeef) is m x = m x" if "\<forall>i \<in> set is. i < 17" for "is" m
    using that
  proof (induction "is" arbitrary: m)
    case (Cons i "is")
    then show ?case using w [of "4 * i" "0xdeadbeef" m] by simp
  qed simp
  show ?thesis
    unfolding rt_hw_stack_init_def Let_def stk_def [symmetric] snd_conv
    using w [of 0] w [of 36] w [of 40] w [of 44] w [of 48] w [of 52] w [of 56] w [of 60] w [of 64]
    by (simp add: fold add.assoc)
qed

lemma split_and_not: "((a :: u32) AND NOT b) + (a AND b) = a"
proof -
  have "(a AND NOT b) + (a AND b) = (a AND NOT b) OR (a AND b)"
    by (rule disjunctive_add) (auto simp: bit_and_iff bit_not_iff)
  also have "\<dots> = a"
    by (rule bit_word_eqI) (auto simp: bit_and_iff bit_or_iff bit_not_iff)
  finally show ?thesis .
qed

lemma align_down_8:
  fixes a :: u32
  shows "unat (a AND NOT 7) = unat a - unat a mod 8"
proof -
  have "a AND 7 = take_bit 3 a" by (simp add: take_bit_eq_mask mask_eq_exp_minus_1)
  then have m: "unat (a AND 7) = unat a mod 8" by (simp add: unsigned_take_bit_eq take_bit_eq_mod unat_mod)
  have "a AND NOT 7 = a - (a AND 7)"
    using split_and_not [of a 7] by (metis add_diff_cancel_right')
  moreover have "a AND 7 \<le> a" by (simp add: m word_le_nat_alt)
  ultimately show ?thesis using m by (simp add: unat_sub)
qed

text \<open>
  What the switch to a new thread pops: the flag of the FPU, then from offset 36 on the frame of the exception, with the
  parameter in r0, zero in r1 to r3 and r12, the exit function in lr, the entry function in pc, and the thumb bit in psr.
\<close>

definition first_frame :: "u32 \<Rightarrow> u32 \<Rightarrow> u32 \<Rightarrow> u32 \<Rightarrow> mem \<Rightarrow> bool" where
  "first_frame tentry parameter texit sp m \<longleftrightarrow>
     read32 m sp = 0 \<and> read32 m (sp + 36) = parameter \<and> read32 m (sp + 40) = 0 \<and> read32 m (sp + 44) = 0 \<and>
     read32 m (sp + 48) = 0 \<and> read32 m (sp + 52) = 0 \<and> read32 m (sp + 56) = texit \<and> read32 m (sp + 60) = tentry \<and>
     read32 m (sp + 64) = 0x01000000"

lemma read32_other:
  assumes "unat (b - a) \<in> {4..2 ^ 32 - 4}"
  shows "read32 (write32 a w m) b = read32 m b"
proof (rule read32_cong)
  fix i :: nat assume i: "i < 4"
  have "unat (b - a + of_nat i) = unat (b - a) + i" using assms i by (subst unat_word_ariths) (simp add: unat_of_nat)
  moreover have "b + of_nat i - a = b - a + of_nat i" by simp
  ultimately have "4 \<le> unat (b + of_nat i - a)" using assms by (simp only: atLeastAtMost_iff) linarith
  then show "write32 a w m (b + of_nat i) = m (b + of_nat i)" by (rule write32_other)
qed

lemma stack_init_frame:
  "first_frame tentry parameter texit (fst (rt_hw_stack_init tentry parameter stack_addr texit m))
     (snd (rt_hw_stack_init tentry parameter stack_addr texit m))"
proof -
  define stk where "stk = ((stack_addr + 4) AND NOT 7) - 68"
  show ?thesis
    unfolding rt_hw_stack_init_def Let_def stk_def [symmetric] fst_conv snd_conv first_frame_def
    by (simp add: read32_write32 read32_other add.assoc)
qed

text \<open>
  A stack of at least 76 bytes that does not wrap around the address space: the frame lies inside
  it, above the guard byte the scheduler checks.
\<close>

lemma stack_init_ok:
  fixes entry parameter texit :: u32 and m :: mem
  assumes sz: "76 \<le> unat len" and wrap: "unat start + unat len < 2 ^ 32"
  defines "r \<equiv> rt_hw_stack_init entry parameter (start + len - 4) texit (rt_memset start 0x23 (unat len) m)"
  shows "start < fst r" "fst r \<le> start + len" "snd r start = 0x23"
    and "unat start < unat (fst r)" "unat (fst r) + 68 \<le> unat start + unat len" "(unat (fst r) + 68) mod 8 = 0"
    and "unat len \<le> unat (x - start) \<Longrightarrow> snd r x = m x"
proof -
  define top where "top = start + len"
  have top: "unat top = unat start + unat len" using wrap by (simp add: top_def unat_word_ariths)
  have sp: "fst r = (top AND NOT 7) - 68" by (simp add: r_def rt_hw_stack_init_def Let_def top_def)
  have al: "unat (top AND NOT 7) = unat top - unat top mod 8" by (rule align_down_8)
  have "unat top mod 8 < 8" by simp
  then have ge: "unat start + 69 \<le> unat (top AND NOT 7)" using al top sz by linarith
  then have usp: "unat (fst r) = unat top - unat top mod 8 - 68"
    using al unat_minus_of_nat [of 68 "top AND NOT 7"] by (simp add: sp)
  have lt: "unat start < unat (fst r)" using usp ge al by linarith
  show "unat start < unat (fst r)" by (rule lt)
  show room: "unat (fst r) + 68 \<le> unat start + unat len" using usp ge al top by linarith
  have "unat (fst r) + 68 = unat top - unat top mod 8" using usp ge al by linarith
  then show "(unat (fst r) + 68) mod 8 = 0" by (simp add: minus_mod_eq_mult_div)
  show "snd r x = m x" if x: "unat len \<le> unat (x - start)"
  proof -
    have "68 \<le> unat (x - fst r)"
    proof (rule ccontr)
      assume "\<not> 68 \<le> unat (x - fst r)"
      then have d: "unat (x - fst r) < 68" by simp
      define u v where "u = fst r - start" and "v = x - fst r"
      have u: "unat u = unat (fst r) - unat start" using lt unfolding u_def by (simp add: unat_sub word_le_nat_alt)
      have "unat u + unat v < 2 ^ 32" using u d room lt wrap unfolding v_def by linarith
      then have "unat (u + v) = unat u + unat v" using unat_add_lem [of u v] by simp
      moreover have "u + v = x - start" by (simp add: u_def v_def)
      ultimately have "unat (x - start) = unat (fst r) - unat start + unat (x - fst r)" by (simp only: u v_def [symmetric])
      then show False using x d room lt by linarith
    qed
    then have "snd r x = rt_memset start 0x23 (unat len) m x" unfolding r_def by (rule stack_init_outside)
    then show ?thesis using x wrap by (subst (asm) rt_memset_fill) (simp_all add: fill_def)
  qed
  show "start < fst r" using lt by (simp add: word_less_nat_alt)
  show "fst r \<le> start + len" using usp top by (simp add: word_le_nat_alt top_def [symmetric])
  have "unat (start - fst r) = 2 ^ 32 + unat start - unat (fst r)"
    using unat_minus_of_nat [of "unat (fst r)" start] unsigned_less [of "fst r"] lt by simp
  moreover have "unat (fst r) + 68 \<le> unat top" using usp ge al by linarith
  ultimately have "68 \<le> unat (start - fst r)" using top wrap by linarith
  then have "snd r start = rt_memset start 0x23 (unat len) m start"
    unfolding r_def by (rule stack_init_outside)
  then show "snd r start = 0x23"
    using wrap sz by (subst (asm) rt_memset_fill) (simp_all add: fill_def)
qed

lemma kinv_object_init:
  assumes inv: "kinv s F" and det: "detached F (Obj_node ob)" and ok: "rt_object_init ob c name s = Ok s'"
  shows "kinv s' (F(Object_list c := Obj_node ob # F (Object_list c)))"
    and "ob_flag (object s' ob') = ob_flag (object s ob')" "thread s' = thread s" "timer s' = timer s" "mem s' = mem s"
proof -
  have c: "rt_object_get_information (class_code c) = Some c"
    using ok by (auto simp: rt_object_init_def split: if_splits)
  define s1 where "s1 = s'\<lparr>links := links s\<rparr>"
  have s': "links s' = rt_list_insert_after (Object_list c) (Obj_node ob) (links s)"
    and ob: "\<And>ob'. ob_flag (object s' ob') = ob_flag (object s ob')" "thread s' = thread s" "timer s' = timer s" "mem s' = mem s"
    and bits: "same_bits s s'"
    using ok c by (auto simp: rt_object_init_def Let_def same_bits_def split: if_splits)
  have "kinv s1 F"
    by (rule kinv_cong [OF inv]) (use ob bits in \<open>simp_all add: s1_def same_defs\<close>)
  then have "kinv (s1\<lparr>links := links s'\<rparr>) (F(Object_list c := Obj_node ob # F (Object_list c)))"
  proof (rule kinv_link)
    show "lists_wf heads (links s') (F(Object_list c := Obj_node ob # F (Object_list c)))"
      using rl.push_front [OF kinv_wf [OF inv] _ _ det, of "Object_list c"] by (simp add: s')
    show "node_ok s1 (Object_list c) n" if "n \<in> set (Obj_node ob # F (Object_list c))" for n
      using that kinv_node [OF inv, of n "Object_list c"] by auto
  qed simp
  then show "kinv s' (F(Object_list c := Obj_node ob # F (Object_list c)))" by (simp add: s1_def)
  show "ob_flag (object s' ob') = ob_flag (object s ob')" by (rule ob(1))
qed (use ok in \<open>auto simp: rt_object_init_def Let_def split: option.splits if_splits\<close>)

lemma kinv_timer_struct_init:
  assumes inv: "kinv s F" and off: "detached F (Row tm 0)"
    and st: "\<And>t. tm = Thread_timer t \<Longrightarrow> th_state (thread s t) = RT_THREAD_INIT"
  shows "kinv (rt_timer_struct_init tm f x time flag s) F" (is "kinv ?s F")
proof (rule kinvI)
  have "rt_list_init (Row tm 0) (links s) = links s"
    using lists_wf_init_loose [OF kinv_wf [OF inv] _ off] rl.mem_head [OF kinv_wf [OF inv], of _ "Row tm 0"]
    by (cases "F (Row tm 0)") auto
  then have eq: "?s = s\<lparr>object := (object s)(O_timer tm := (object s (O_timer tm))\<lparr>ob_flag := flag AND NOT 1\<rparr>),
      timer := (timer s)(tm := (timer s tm)\<lparr>tm_timeout_func := f, tm_parameter := x, tm_timeout_tick := 0, tm_init_tick := time\<rparr>)\<rparr>"
    by (simp add: rt_timer_struct_init_def Let_def)
  have tt: "thread_timer_ok ?s t = thread_timer_ok s t" if "tm \<noteq> Thread_timer t" for t
    using that by (simp add: eq thread_timer_ok_def)
  show "lists_wf heads (links ?s) F" using kinv_wf [OF inv] by (simp add: eq)
  show "ready_bits ?s F" using kinv_bits [OF inv] by (simp add: eq ready_bits_def)
  show "node_ok ?s h n" if n: "n \<in> set (F h)" for h n
  proof -
    have "timer_ok ?s soft tm'" if "n = Row tm' 0" "timer_ok s soft tm'" for soft tm'
    proof -
      have "tm' \<noteq> tm" using that(1) n off by blast
      then show ?thesis using that(2) tt st by (auto simp: timer_ok_def eq)
    qed
    then show ?thesis using kinv_node [OF inv n] by (cases h) (auto simp: eq)
  qed
  show "Tlist t \<in> set (F (ready_head ?s t))" if "ready ?s t" for t
    using kinv_ready [OF inv, of t] that by (simp add: eq)
  show "attr_ok (thread ?s t) \<and> thread_timer_ok ?s t" if a: "th_state (thread ?s t) \<noteq> RT_THREAD_INIT" for t
  proof -
    have th: "thread ?s = thread s" by (simp add: eq)
    then have "tm \<noteq> Thread_timer t" using a st by auto
    then show ?thesis using kinv_attr [OF inv, of t] kinv_timer [OF inv, of t] a tt unfolding th by simp
  qed
qed

text \<open>A thread object that no list knows yet.\<close>

definition fresh_thread :: "(node \<Rightarrow> node list) \<Rightarrow> thread_id \<Rightarrow> bool" where
  "fresh_thread F t \<longleftrightarrow>
     detached F (Tlist t) \<and> detached F (Row (Thread_timer t) 0) \<and>
     detached F (Obj_node (O_thread t)) \<and> detached F (Obj_node (O_timer (Thread_timer t)))"

lemma rt_thread_init_ok:
  assumes inv: "kinv s F" and fresh: "fresh_thread F t" and start: "start \<noteq> 0"
  obtains s' where "rt_thread_init texit t name entry parameter start len prio tick s = Ok (RT_EOK, s')"
    "kinv s' (F(Object_list Class_Thread := Obj_node (O_thread t) # F (Object_list Class_Thread),
        Object_list Class_Timer := Obj_node (O_timer (Thread_timer t)) # F (Object_list Class_Timer)))"
    "thread_timer_ok s' t" "th_stat (thread s' t) = RT_THREAD_INIT" "th_init_priority (thread s' t) = prio"
    "76 \<le> unat len \<Longrightarrow> unat start + unat len < 2 ^ 32 \<Longrightarrow> stack_ok s' t"
    "(th_sp (thread s' t), mem s') = rt_hw_stack_init entry parameter (start + len - 4) texit (rt_memset start 0x23 (unat len) (mem s))"
proof -
  define F1 where "F1 = F(Object_list Class_Thread := Obj_node (O_thread t) # F (Object_list Class_Thread))"
  define F2 where "F2 = F1(Object_list Class_Timer := Obj_node (O_timer (Thread_timer t)) # F1 (Object_list Class_Timer))"
  obtain s1 where s1: "rt_object_init (O_thread t) Class_Thread name s = Ok s1"
    using rt_object_init_Ok [of Class_Thread] by blast
  have det: "detached F (Obj_node (O_thread t))" using fresh by (simp add: fresh_thread_def)
  note o1 = kinv_object_init [OF inv det s1, folded F1_def]
  have det1: "detached F1 (Tlist t)" "detached F1 (Row (Thread_timer t) 0)"
      "detached F1 (Obj_node (O_timer (Thread_timer t)))"
    using fresh by (auto simp: F1_def fresh_thread_def)
  have li: "rt_list_init (Tlist t) (links s1) = links s1"
    using lists_wf_init_loose [OF kinv_wf [OF o1(1)] _ det1(1)] rl.mem_head [OF kinv_wf [OF o1(1)], of _ "Tlist t"]
    by (cases "F1 (Tlist t)") auto
  define r where "r = rt_hw_stack_init entry parameter (start + len - 4) texit (rt_memset start 0x23 (unat len) (mem s1))"
  define th where "th = (thread s1 t)\<lparr>th_entry := entry, th_parameter := parameter, th_stack_addr := start,
     th_stack_size := len, th_sp := fst r, th_init_priority := prio, th_current_priority := prio,
     th_number_mask := 0, th_number := 0, th_high_mask := 0, th_init_tick := tick, th_remaining_tick := tick,
     th_error := RT_EOK, th_stat := RT_THREAD_INIT, th_cleanup := None, th_user_data := 0\<rparr>"
  define s2 where "s2 = s1\<lparr>mem := snd r, thread := (thread s1)(t := th)\<rparr>"
  have "kinv (s1\<lparr>thread := (thread s1)(t := th)\<rparr>) F1"
    by (rule kinv_unlisted [OF o1(1) det1(1,2)]) (simp_all add: th_def)
  then have inv2: "kinv s2 F1" by (rule kinv_cong) (simp_all add: s2_def same_defs)
  obtain s3 where s3: "rt_object_init (O_timer (Thread_timer t)) Class_Timer (ob_name (object s2 (O_thread t))) s2 = Ok s3"
    using rt_object_init_Ok [of Class_Timer] by blast
  note o3 = kinv_object_init [OF inv2 det1(3) s3, folded F2_def]
  define s' where "s' = rt_timer_struct_init (Thread_timer t) Rt_thread_timeout (P_thread t) 0 0 s3"
  have off3: "detached F2 (Row (Thread_timer t) 0)" using det1(2) by (auto simp: F2_def)
  have inv': "kinv s' F2"
    unfolding s'_def by (rule kinv_timer_struct_init [OF o3(1) off3]) (simp add: o3(3) s2_def th_def)
  have prio: "unat prio < 256" by (rule prio_bound)
  have "rt_thread_init texit t name entry parameter start len prio tick s = Ok (RT_EOK, s')"
    using start prio s1 s3 li
    by (simp add: rt_thread_init_def rt_thread_struct_init_def rt_timer_init_def s'_def s2_def th_def
        r_def case_prod_beta Let_def o1)
  moreover have eq': "thread s' = (thread s1)(t := th)" "mem s' = snd r"
    using o3(3,5) by (simp_all add: s'_def s2_def rt_timer_struct_init_def Let_def)
  moreover have "thread_timer_ok s' t"
    by (simp add: s'_def rt_timer_struct_init_def thread_timer_ok_def Let_def)
  moreover have "kinv s' (F(Object_list Class_Thread := Obj_node (O_thread t) # F (Object_list Class_Thread),
        Object_list Class_Timer := Obj_node (O_timer (Thread_timer t)) # F (Object_list Class_Timer)))"
    using inv' by (simp add: F2_def F1_def)
  moreover have "stack_ok s' t" if "76 \<le> unat len" "unat start + unat len < 2 ^ 32"
    using stack_init_ok(1-3) [OF that, of entry parameter texit "mem s1", folded r_def]
    by (simp add: stack_ok_def eq' th_def)
  moreover have "(th_sp (thread s' t), mem s') =
      rt_hw_stack_init entry parameter (start + len - 4) texit (rt_memset start 0x23 (unat len) (mem s))"
    by (simp add: eq' th_def r_def o1(5))
  ultimately show ?thesis
    using that by (simp add: th_def)
qed

lemma object_init_current:
  "rt_object_init ob c name s = Ok s' \<Longrightarrow> rt_current_thread s' = rt_current_thread s"
  by (auto simp: rt_object_init_def Let_def split: option.splits)

lemma thread_init_current:
  "rt_thread_init texit t name entry parameter start len prio tick s = Ok (r, s') \<Longrightarrow> rt_current_thread s' = rt_current_thread s"
  by (auto simp: rt_thread_init_def rt_thread_struct_init_def rt_timer_init_def rt_timer_struct_init_def Let_def
      case_prod_beta dest!: object_init_current)

text \<open>Starting a thread before the scheduler runs.\<close>

lemma startup_unscheduled:
  assumes st: "th_stat (thread s t) = RT_THREAD_INIT" and cur: "rt_current_thread s = None"
  obtains s' where "rt_thread_startup t s = Ok (RT_EOK, s')" "ready s' t" "mem s' = mem s"
    "th_current_priority (thread s' t) = th_init_priority (thread s t)" "th_sp (thread s' t) = th_sp (thread s t)"
    "th_stack_addr (thread s' t) = th_stack_addr (thread s t)" "th_stack_size (thread s' t) = th_stack_size (thread s t)"
proof -
  define s1 where "s1 = s\<lparr>thread := (thread s)(t := (set_priority_attr ((thread s t)\<lparr>th_current_priority :=
     th_init_priority (thread s t)\<rparr>))\<lparr>th_stat := RT_THREAD_SUSPEND\<rparr>)\<rparr>"
  define s' where "s' = snd (rt_thread_resume t s1)"
  have c: "rt_current_thread s' = None" "mem s' = mem s"
    using cur by (simp_all add: s'_def s1_def rt_thread_resume_def rt_timer_stop_def rt_schedule_insert_thread_def Let_def)
  have "rt_thread_startup t s = Ok (RT_EOK, s')"
    using st c by (simp add: rt_thread_startup_def s'_def s1_def Let_def case_prod_beta rt_thread_self_def)
  moreover have "thread s' t = (thread s1 t)\<lparr>th_stat := RT_THREAD_READY\<rparr>"
    by (simp add: s'_def s1_def rt_thread_resume_def rt_timer_stop_def rt_schedule_insert_thread_def Let_def)
  ultimately show ?thesis
    using that c by (simp add: s1_def set_priority_attr_def Let_def)
qed

end
