(* ===== verification/RT_Tick.thy ===== *)
theory RT_Tick
  imports RT_Thread_Props
begin

text \<open>
  The clock tick and what it drives: \<^verbatim>\<open>src/src/clock.c\<close>, \<^verbatim>\<open>src/src/irq.c\<close>, the expiry of hard and soft
  timers in \<^verbatim>\<open>src/src/timer.c\<close>, and the idle thread of \<^verbatim>\<open>src/src/idle.c\<close>. The timeout functions
  of application timers and the cleanup functions of threads are application code: they are the
  parameters \<open>env\<close> and \<open>cleanup\<close>. The timer thread and the idle thread can lose the processor inside
  their loops, where they unlock the scheduler or call application code; each is a step function
  over a program counter, and a step runs from one such point to the next.
\<close>

section \<open>Interrupts and the tick counter\<close>

definition rt_interrupt_enter :: "kstate \<Rightarrow> kstate" where
  "rt_interrupt_enter s = s\<lparr>rt_interrupt_nest := rt_interrupt_nest s + 1\<rparr>"

definition rt_interrupt_leave :: "kstate \<Rightarrow> kstate" where
  "rt_interrupt_leave s = s\<lparr>rt_interrupt_nest := rt_interrupt_nest s - 1\<rparr>"

definition rt_interrupt_get_nest :: "kstate \<Rightarrow> u8" where
  "rt_interrupt_get_nest s = rt_interrupt_nest s"

definition rt_tick_get :: "kstate \<Rightarrow> u32" where
  "rt_tick_get s = rt_tick s"

definition rt_tick_set :: "u32 \<Rightarrow> kstate \<Rightarrow> kstate" where
  "rt_tick_set tick s = s\<lparr>rt_tick := tick\<rparr>"

section \<open>Hard timers\<close>

type_synonym callbacks = "nat \<Rightarrow> param \<Rightarrow> kstate \<Rightarrow> kstate res"

definition call_timeout :: "callbacks \<Rightarrow> timeout_func \<Rightarrow> param \<Rightarrow> kstate \<Rightarrow> kstate res" where
  "call_timeout env f p s =
     (case f of
        User_timeout k \<Rightarrow> env k p s
      | Rt_thread_timeout \<Rightarrow>
          (case p of
             P_thread t \<Rightarrow> rt_thread_timeout t s
           | P_null \<Rightarrow> Fault Assert_Failed
           | P_addr a \<Rightarrow> Fault Bad_Entry))"

definition timer_fire_end :: "timer_ref \<Rightarrow> kstate \<Rightarrow> kstate res" where
  "timer_fire_end t s =
     (if ob_flag (object s (O_timer t)) AND RT_TIMER_FLAG_PERIODIC \<noteq> 0 \<and>
         ob_flag (object s (O_timer t)) AND RT_TIMER_FLAG_ACTIVATED \<noteq> 0
      then
        (let s = upd_object (O_timer t) (\<lambda>r. r\<lparr>ob_flag := ob_flag r AND NOT RT_TIMER_FLAG_ACTIVATED\<rparr>) s
         in rbind (rt_timer_start t s) (\<lambda>(r, s). Ok s))
      else Ok (upd_object (O_timer t) (\<lambda>r. r\<lparr>ob_flag := ob_flag r AND NOT RT_TIMER_FLAG_ACTIVATED\<rparr>) s))"

definition timer_fire :: "callbacks \<Rightarrow> timer_ref \<Rightarrow> kstate \<Rightarrow> kstate res" where
  "timer_fire env t s =
     (let s = rt_timer_remove t s
      in rbind (call_timeout env (tm_timeout_func (timer s t)) (tm_parameter (timer s t)) s) (timer_fire_end t))"

partial_function (option) timer_check_loop :: "callbacks \<Rightarrow> u32 \<Rightarrow> kstate \<Rightarrow> kstate res option" where
  "timer_check_loop env current_tick s =
     (if rt_list_isempty (Timer_list 0) (links s) then Some (Ok s)
      else
        (case timer_entry 0 (lnext (links s) (Timer_list 0)) of
           Fault e \<Rightarrow> Some (Fault e)
         | Ok t \<Rightarrow>
             if current_tick - tm_timeout_tick (timer s t) < RT_TICK_HALF then
               (case timer_fire env t s of
                  Fault e \<Rightarrow> Some (Fault e)
                | Ok s \<Rightarrow> timer_check_loop env (rt_tick_get s) s)
             else Some (Ok s)))"

definition rt_timer_check :: "callbacks \<Rightarrow> kstate \<Rightarrow> kstate res" where
  "rt_timer_check env s = loop_res (timer_check_loop env (rt_tick_get s) s)"

definition rt_tick_increase :: "callbacks \<Rightarrow> kstate \<Rightarrow> kstate res" where
  "rt_tick_increase env s =
     (let s = s\<lparr>rt_tick := rt_tick s + 1\<rparr>
      in case rt_thread_self s of
           None \<Rightarrow> Fault Null_Pointer
         | Some t \<Rightarrow>
             (let s = upd_thread t (\<lambda>th. th\<lparr>th_remaining_tick := th_remaining_tick th - 1\<rparr>) s
              in rbind
                   (if th_remaining_tick (thread s t) = 0
                    then (let s = upd_thread t (\<lambda>th. th\<lparr>th_remaining_tick := th_init_tick th\<rparr>) s
                          in rbind (rt_thread_yield s) (\<lambda>(r, s). Ok s))
                    else Ok s)
                   (rt_timer_check env)))"

section \<open>The timer thread\<close>

datatype timer_pc =
    TP_top                         \<comment> \<open>the head of the loop of \<^verbatim>\<open>rt_thread_timer_entry\<close>\<close>
  | TP_check                       \<comment> \<open>the call of \<^verbatim>\<open>rt_soft_timer_check\<close>\<close>
  | TP_loop node u32               \<comment> \<open>the head of its loop, with \<^verbatim>\<open>n\<close> and \<^verbatim>\<open>current_tick\<close>\<close>
  | TP_call timer_ref node         \<comment> \<open>before the timeout function of \<^verbatim>\<open>t\<close>\<close>
  | TP_after timer_ref node        \<comment> \<open>after it\<close>

fun timer_thread_step :: "callbacks \<Rightarrow> timer_pc \<Rightarrow> kstate \<Rightarrow> (timer_pc \<times> kstate) res" where
  "timer_thread_step env TP_top s =
     rbind (rt_timer_list_next_timeout Soft_timer_list s) (\<lambda>next_timeout.
     if next_timeout = RT_TICK_MAX then
       (case rt_thread_self s of
          None \<Rightarrow> Fault Null_Pointer
        | Some t \<Rightarrow>
            (let (r, s) = rt_thread_suspend t s
             in rbind (rt_schedule s) (\<lambda>s. Ok (TP_check, s))))
     else
       (let current_tick = rt_tick_get s
        in if next_timeout - current_tick < RT_TICK_HALF
           then (let next_timeout = next_timeout - current_tick
                 in rbind (rt_thread_delay next_timeout s) (\<lambda>s. Ok (TP_check, s)))
           else Ok (TP_check, s)))"
| "timer_thread_step env TP_check s =
     (let current_tick = rt_tick_get s;
          s = rt_enter_critical s
      in Ok (TP_loop (lnext (links s) (Soft_timer_list 0)) current_tick, s))"
| "timer_thread_step env (TP_loop n current_tick) s =
     (if n \<noteq> Soft_timer_list 0 then
        rbind (timer_entry 0 n) (\<lambda>t.
        if current_tick - tm_timeout_tick (timer s t) < RT_TICK_HALF then
          (let n = lnext (links s) n;
               s = rt_timer_remove t s
           in rbind (rt_exit_critical s) (\<lambda>s. Ok (TP_call t n, s)))
        else rbind (rt_exit_critical s) (\<lambda>s. Ok (TP_top, s)))
      else rbind (rt_exit_critical s) (\<lambda>s. Ok (TP_top, s)))"
| "timer_thread_step env (TP_call t n) s =
     rbind (call_timeout env (tm_timeout_func (timer s t)) (tm_parameter (timer s t)) s) (\<lambda>s.
     Ok (TP_after t n, s))"
| "timer_thread_step env (TP_after t n) s =
     (let current_tick = rt_tick_get s;
          s = rt_enter_critical s
      in rbind (timer_fire_end t s) (\<lambda>s. Ok (TP_loop n current_tick, s)))"

definition rt_system_timer_thread_init :: "u32 \<Rightarrow> u32 \<Rightarrow> u32 \<Rightarrow> kstate \<Rightarrow> (int \<times> kstate) res" where
  "rt_system_timer_thread_init texit entry timer_thread_stack s =
     (let s = fold (\<lambda>i. upd_links (rt_list_init (Soft_timer_list i))) [0..<RT_TIMER_SKIP_LIST_LEVEL] s
      in rbind (rt_thread_init texit timer_thread (cstr_of [116, 105, 109, 101, 114]) entry 0
                 timer_thread_stack 512 4 10 s) (\<lambda>(r, s).
         rt_thread_startup timer_thread s))"

section \<open>The idle thread\<close>

type_synonym cleanups = "nat \<Rightarrow> thread_id \<Rightarrow> kstate \<Rightarrow> kstate res"

datatype idle_pc = IP_top | IP_free thread_id

definition has_defunct_thread :: "kstate \<Rightarrow> bool" where
  "has_defunct_thread s \<longleftrightarrow> lnext (links s) Thread_defunct \<noteq> Thread_defunct"

fun idle_step :: "cleanups \<Rightarrow> idle_pc \<Rightarrow> kstate \<Rightarrow> (idle_pc \<times> kstate) res" where
  "idle_step cleanup IP_top s =
     (if has_defunct_thread s then
        rbind (rassert (not_in_interrupt s) s) (\<lambda>s.
        rbind (thread_entry (lnext (links s) Thread_defunct)) (\<lambda>t.
        (let s = upd_links (rt_list_remove (Tlist t)) s;
             s = rt_enter_critical s
         in rbind (case th_cleanup (thread s t) of None \<Rightarrow> Ok s | Some k \<Rightarrow> cleanup k t s) (\<lambda>s.
            if rt_object_is_systemobject (O_thread t) s
            then rbind (rt_exit_critical s) (\<lambda>s. Ok (IP_top, s))
            else rbind (rt_exit_critical s) (\<lambda>s. Ok (IP_free t, s))))))
      else Ok (IP_top, s))"
| "idle_step cleanup (IP_free t) s =
     (let s = kernel_free (K_stack t) s
      in rbind (rt_object_delete (O_thread t) s) (\<lambda>s. Ok (IP_top, s)))"

definition rt_thread_idle_init :: "u32 \<Rightarrow> u32 \<Rightarrow> u32 \<Rightarrow> kstate \<Rightarrow> (int \<times> kstate) res" where
  "rt_thread_idle_init texit entry rt_thread_stack s =
     rbind (rt_thread_init texit idle (cstr_of [116, 105, 100, 108, 101]) entry 0 rt_thread_stack 256
              (of_nat (RT_THREAD_PRIORITY_MAX - 1)) 32 s) (\<lambda>(r, s).
     rt_thread_startup idle s)"

end
