(* ===== verification/RT_Tick_Props.thy ===== *)
theory RT_Tick_Props
  imports RT_Tick
begin

text \<open>
  What a clock tick does: the expiry loop ends, fires every timer whose deadline has come and no
  other, keeps the list sorted and keeps the kernel invariant.
\<close>

section \<open>Running systems\<close>

definition all_stacks :: "kstate \<Rightarrow> bool" where
  "all_stacks s \<longleftrightarrow> (\<forall>t. th_state (thread s t) \<noteq> RT_THREAD_INIT \<longrightarrow> stack_ok s t)"

text \<open>
  The scheduler runs, the stacks are sound, and application timers do not call
  \<^verbatim>\<open>rt_thread_timeout\<close> themselves.
\<close>

definition kgood :: "kstate \<Rightarrow> bool" where
  "kgood s \<longleftrightarrow> rt_current_thread s \<noteq> None \<and> all_stacks s \<and>
     (\<forall>i. tm_timeout_func (timer s (Timer i)) \<noteq> Rt_thread_timeout)"

lemma stacks_ok_all: "all_stacks s \<Longrightarrow> stacks_ok s"
  by (auto simp: all_stacks_def stacks_ok_def)

lemma schedule_total:
  assumes inv: "kinv s F" and good: "kgood s" and u: "ready s u"
  obtains s' where "rt_schedule s = Ok s'" "kinv s' F" "rt_current_thread s' \<noteq> None"
    "s' = s\<lparr>rt_current_priority := rt_current_priority s', rt_current_thread := rt_current_thread s'\<rparr>"
    "rt_scheduler_lock_nest s = 0 \<Longrightarrow> (\<exists>t. rt_current_thread s' = Some t \<and> top_thread s t)"
proof -
  obtain c where c: "rt_current_thread s = Some c" using good by (auto simp: kgood_def)
  have "\<exists>s'. rt_schedule s = Ok s' \<and> rt_current_thread s' \<noteq> None \<and>
     (rt_scheduler_lock_nest s = 0 \<longrightarrow> (\<exists>t. rt_current_thread s' = Some t \<and> top_thread s t))"
  proof (cases "rt_scheduler_lock_nest s = 0")
    case True
    obtain t p where "top_thread s t" "rt_schedule s = Ok (if t = c then s
        else s\<lparr>rt_current_priority := th_current_priority (thread s t), rt_current_thread := Some t\<rparr>)"
      using kinv_schedule_ok [OF inv True c u stacks_ok_all] good unfolding kgood_def by metis
    then show ?thesis using c by (cases "t = c") auto
  next
    case False
    then show ?thesis using c by (simp add: rt_schedule_def)
  qed
  then show ?thesis using that kinv_schedule [OF inv] by blast
qed

definition timers_same :: "kstate \<Rightarrow> kstate \<Rightarrow> bool" where
  "timers_same s s' \<longleftrightarrow> timer s' = timer s \<and> rt_tick s' = rt_tick s \<and>
     (\<forall>tm. ob_flag (object s' (O_timer tm)) = ob_flag (object s (O_timer tm)))"

lemma kgood_schedule:
  "kgood s \<Longrightarrow> rt_current_thread s' \<noteq> None \<Longrightarrow>
   s' = s\<lparr>rt_current_priority := rt_current_priority s', rt_current_thread := rt_current_thread s'\<rparr> \<Longrightarrow> kgood s'"
  by (cases s, cases s') (auto simp: kgood_def all_stacks_def stack_ok_def)

lemma kgood_cong:
  assumes "kgood s" "rt_current_thread s' = rt_current_thread s" "mem s' = mem s"
    and "\<And>i. tm_timeout_func (timer s' i) = tm_timeout_func (timer s i)"
    and th: "\<And>u. th_stat (thread s' u) = th_stat (thread s u)" "\<And>u. th_sp (thread s' u) = th_sp (thread s u)"
      "\<And>u. th_stack_addr (thread s' u) = th_stack_addr (thread s u)"
      "\<And>u. th_stack_size (thread s' u) = th_stack_size (thread s u)"
  shows "kgood s'"
  using assms by (simp add: kgood_def all_stacks_def stack_ok_def Let_def)

lemma kgood_suspend:
  assumes good: "kgood s" and rdy: "ready s t"
  shows "kgood (snd (rt_thread_suspend t s))" (is "kgood ?s")
proof -
  have th: "th_sp (thread ?s x) = th_sp (thread s x)" "th_stack_addr (thread ?s x) = th_stack_addr (thread s x)"
      "th_stack_size (thread ?s x) = th_stack_size (thread s x)" for x
    by (simp_all add: rt_thread_suspend_def Let_def split_def)
  have "th_state (thread s x) \<noteq> RT_THREAD_INIT" if "th_state (thread ?s x) \<noteq> RT_THREAD_INIT" for x
    using that rdy suspend_frame(5) [of x t s] by (cases "x = t") simp_all
  then show ?thesis
    using good th suspend_frame(1,3,7) [of t s] by (simp add: kgood_def all_stacks_def stack_ok_def Let_def)
qed

lemma insert_thread_frame [simp]:
  "timer (rt_schedule_insert_thread t s) = timer s"
  "object (rt_schedule_insert_thread t s) = object s"
  "mem (rt_schedule_insert_thread t s) = mem s"
  "rt_tick (rt_schedule_insert_thread t s) = rt_tick s"
  "cont (rt_schedule_insert_thread t s) = cont s"
  "rt_interrupt_nest (rt_schedule_insert_thread t s) = rt_interrupt_nest s"
  "rt_current_thread (rt_schedule_insert_thread t s) = rt_current_thread s"
  "rt_scheduler_lock_nest (rt_schedule_insert_thread t s) = rt_scheduler_lock_nest s"
  "thread (rt_schedule_insert_thread t s) =
     (thread s)(t := (thread s t)\<lparr>th_stat := RT_THREAD_READY OR (th_stat (thread s t) AND NOT RT_THREAD_STAT_MASK)\<rparr>)"
  by (simp_all add: rt_schedule_insert_thread_def Let_def)

lemma ready_stat: "(RT_THREAD_READY OR (x AND NOT RT_THREAD_STAT_MASK)) AND RT_THREAD_STAT_MASK = (RT_THREAD_READY :: u8)"
  by (rule stat_set) simp

lemma timeout_ok:
  assumes inv: "kinv s F" and good: "kgood s" and sus: "suspended s t" and off: "detached F (Row (Thread_timer t) 0)"
  obtains s' where "rt_thread_timeout t s = Ok s'" "kinv s' (make_ready s t F)" "kgood s'" "timers_same s s'"
    "ready s' t" "th_error (thread s' t) = - RT_ETIMEOUT" "\<forall>u. u \<noteq> t \<longrightarrow> thread s' u = thread s u"
proof -
  define s1 where "s1 = rt_schedule_insert_thread t
     ((upd_thread t (\<lambda>th. th\<lparr>th_error := - RT_ETIMEOUT\<rparr>) s)\<lparr>links := rt_list_remove (Tlist t) (links s)\<rparr>)"
  have inv1: "kinv s1 (make_ready s t F)"
    unfolding s1_def by (rule kinv_wake [OF inv sus off])
  have th1: "thread s1 = (thread s)(t := (thread s t)\<lparr>th_error := - RT_ETIMEOUT,
      th_stat := RT_THREAD_READY OR (th_stat (thread s t) AND NOT RT_THREAD_STAT_MASK)\<rparr>)"
    by (simp add: s1_def)
  have r1: "ready s1 t" using ready_stat by (simp add: th1)
  have "all_stacks s1"
    unfolding all_stacks_def
  proof (intro allI impI)
    fix u assume "th_state (thread s1 u) \<noteq> RT_THREAD_INIT"
    then have "th_state (thread s u) \<noteq> RT_THREAD_INIT" using sus by (cases "u = t") (simp_all add: th1)
    then have "stack_ok s u" using good by (simp add: kgood_def all_stacks_def)
    then show "stack_ok s1 u" by (cases "u = t") (simp_all add: stack_ok_def th1 s1_def Let_def)
  qed
  then have g1: "kgood s1" using good by (simp add: kgood_def s1_def)
  obtain s' where s': "rt_schedule s1 = Ok s'" "kinv s' (make_ready s t F)" "rt_current_thread s' \<noteq> None"
    and eq: "s' = s1\<lparr>rt_current_priority := rt_current_priority s', rt_current_thread := rt_current_thread s'\<rparr>"
    by (rule schedule_total [OF inv1 g1 r1])
  have "rt_thread_timeout t s = Ok s'"
    using s'(1) sus by (simp add: rt_thread_timeout_def s1_def Let_def)
  moreover have "kgood s'" by (rule kgood_schedule [OF g1 s'(3) eq])
  moreover have "timers_same s s'" unfolding timers_same_def by (subst (1 2 3) eq) (simp add: s1_def)
  moreover have th': "thread s' = thread s1" by (subst eq) simp
  ultimately show ?thesis using that s'(2) r1 by (simp add: th1)
qed

text \<open>
  What the expiry loop needs of an application's timeout functions: they return, keep the kernel
  invariant and a sound system, leave the hard timers and the tick alone, and take no ready thread
  off the ready queue.
\<close>

definition stays_ready :: "kstate \<Rightarrow> kstate \<Rightarrow> bool" where
  "stays_ready s s' \<longleftrightarrow>
     (\<forall>t. ready s t \<longrightarrow> ready s' t \<and> th_error (thread s' t) = th_error (thread s t))"

lemma stays_ready_trans: "stays_ready s s' \<Longrightarrow> stays_ready s' s'' \<Longrightarrow> stays_ready s s''"
  by (simp add: stays_ready_def)

lemma stays_ready_thread: "thread s' = thread s \<Longrightarrow> stays_ready s s'"
  by (simp add: stays_ready_def)

definition quiet :: "callbacks \<Rightarrow> bool" where
  "quiet env \<longleftrightarrow>
     (\<forall>k p s F. kinv s F \<and> kgood s \<longrightarrow>
        (\<exists>s' F'. env k p s = Ok s' \<and> kinv s' F' \<and> kgood s' \<and> timers_same s s' \<and> stays_ready s s' \<and>
           F' (Timer_list 0) = F (Timer_list 0)))"

lemma timer_list_make_ready:
  assumes "kinv s F" "detached F (Row (Thread_timer t) 0)"
  shows "make_ready s t F (Timer_list 0) = F (Timer_list 0)"
proof -
  have "Tlist t \<notin> set (F (Timer_list 0))" using kinv_node [OF assms(1), of "Tlist t" "Timer_list 0"] by auto
  then show ?thesis
    using assms(2) by (simp add: make_ready_def drop_timer_def drop_thread_def Let_def remove1_idem)
qed

lemma call_timeout_ok:
  assumes inv: "kinv s F" and good: "kgood s" and q: "quiet env" and tm: "timer_ok s False tm"
    and off: "detached F (Row tm 0)"
  obtains s' F' where "call_timeout env (tm_timeout_func (timer s tm)) (tm_parameter (timer s tm)) s = Ok s'"
    "kinv s' F'" "kgood s'" "timers_same s s'" "F' (Timer_list 0) = F (Timer_list 0)" "stays_ready s s'"
    "\<And>t. tm = Thread_timer t \<Longrightarrow> ready s' t \<and> th_error (thread s' t) = - RT_ETIMEOUT"
proof (cases tm)
  case (Thread_timer t)
  then have t: "suspended s t" "thread_timer_ok s t" using tm by (simp_all add: timer_ok_def)
  have off': "detached F (Row (Thread_timer t) 0)" using off Thread_timer by simp
  obtain s' where s': "rt_thread_timeout t s = Ok s'"
      "kinv s' (make_ready s t F)" "kgood s'" "timers_same s s'" "ready s' t"
      "th_error (thread s' t) = - RT_ETIMEOUT" and other: "\<forall>u. u \<noteq> t \<longrightarrow> thread s' u = thread s u"
    by (rule timeout_ok [OF inv good t(1) off'])
  have stay: "stays_ready s s'"
    unfolding stays_ready_def
  proof (intro allI impI)
    fix u assume "ready s u"
    then have "u \<noteq> t" using t(1) by auto
    then show "ready s' u \<and> th_error (thread s' u) = th_error (thread s u)" using \<open>ready s u\<close> other by simp
  qed
  show ?thesis
    using that [of s' "make_ready s t F"] timer_list_make_ready [OF inv off'] t(2) s' stay
    by (simp add: Thread_timer call_timeout_def thread_timer_ok_def)
next
  case (Timer i)
  then obtain k where k: "tm_timeout_func (timer s tm) = User_timeout k"
    using good by (cases "tm_timeout_func (timer s tm)") (auto simp: kgood_def)
  obtain s' F' where "env k (tm_parameter (timer s tm)) s = Ok s'" "kinv s' F'" "kgood s'" "timers_same s s'"
      "stays_ready s s'" "F' (Timer_list 0) = F (Timer_list 0)"
    using q inv good unfolding quiet_def by metis
  then show ?thesis using that [of s' F'] k Timer by (simp add: call_timeout_def)
qed

section \<open>Firing one timer\<close>

abbreviation (input) periodic :: "kstate \<Rightarrow> timer_ref \<Rightarrow> bool" where
  "periodic s tm \<equiv> bit (ob_flag (object s (O_timer tm))) 1"

definition expired :: "kstate \<Rightarrow> timer_ref \<Rightarrow> bool" where
  "expired s tm \<longleftrightarrow> rt_tick s - tm_timeout_tick (timer s tm) < RT_TICK_HALF"

definition restart :: "kstate \<Rightarrow> timer_ref \<Rightarrow> timer_ref \<Rightarrow> rt_timer" where
  "restart s t = (if periodic s t
     then (timer s)(t := (timer s t)\<lparr>tm_timeout_tick := rt_tick s + tm_init_tick (timer s t)\<rparr>) else timer s)"

lemma drop_timer_head:
  assumes "kinv s F" "timer_nodes F (Timer_list 0) (t # ts)"
  shows "drop_timer t F (Timer_list 0) = map (\<lambda>t. Row t 0) ts"
  using assms(2) by (simp add: drop_timer_def)

lemma timer_fire_end_ok:
  assumes inv: "kinv s F" and good: "kgood s" and off: "detached F (Row t 0)"
    and ts: "timer_nodes F (Timer_list 0) ts" and act: "bit (ob_flag (object s (O_timer t))) 0"
    and hard: "\<not> bit (ob_flag (object s (O_timer t))) 2"
    and init: "periodic s t \<Longrightarrow> tm_init_tick (timer s t) < RT_TICK_HALF"
    and own: "\<And>u. t = Thread_timer u \<Longrightarrow> \<not> periodic s t"
  defines "ts' \<equiv> if periodic s t
       then insert_by (\<lambda>x. later (rt_tick s + tm_init_tick (timer s t)) (tm_timeout_tick (timer s x))) t ts else ts"
  obtains s' F' where "timer_fire_end t s = Ok s'" "kinv s' F'" "kgood s'" "timer_nodes F' (Timer_list 0) ts'"
    "timer s' = restart s t" "rt_tick s' = rt_tick s" "thread s' = thread s"
    "\<And>x i. 0 < i \<Longrightarrow> bit (ob_flag (object s' (O_timer x))) i = bit (ob_flag (object s (O_timer x))) i"
proof -
  define s1 where "s1 = s\<lparr>object := (object s)(O_timer t := (object s (O_timer t))\<lparr>ob_flag := ob_flag (object s (O_timer t)) AND NOT 1\<rparr>)\<rparr>"
  have inv1: "kinv s1 F" unfolding s1_def using off by (intro kinv_flag_clear [OF inv]) simp_all
  have good1: "kgood s1" using good by (simp add: s1_def kgood_def all_stacks_def stack_ok_def)
  have fl1: "bit (ob_flag (object s1 (O_timer x))) i = bit (ob_flag (object s (O_timer x))) i" if "0 < i" for x i
    using that by (auto simp: s1_def flag_bits dest: bit_imp_le_length)
  show ?thesis
  proof (cases "periodic s t")
    case False
    then have "timer_fire_end t s = Ok s1" by (simp add: timer_fire_end_def s1_def flag_bit_1)
    then show ?thesis
      using that [of s1 F] False inv1 good1 ts fl1 by (simp add: s1_def ts'_def restart_def)
  next
    case True
    have tl: "timer_list_of t s1 = Timer_list"
      using hard fl1 [of 2 t] flag_bit_2 by (auto simp: timer_list_of_def)
    have ts1: "timer_nodes F (timer_list_of t s1 0) ts" using ts by (simp add: tl)
    have nin: "remove1 t ts = ts"
      using off ts by (intro remove1_idem) (metis (no_types, lifting) image_eqI list.set_map)
    have init1: "tm_init_tick (timer s1 t) < RT_TICK_HALF" using init [OF True] by (simp add: s1_def)
    obtain s' where s': "timer_start_insert t s1 = Ok s'"
      "kinv s' ((drop_timer t F)(timer_list_of t s1 0 := map (\<lambda>t. Row t 0)
         (insert_by (\<lambda>x. later (rt_tick s1 + tm_init_tick (timer s1 t)) (tm_timeout_tick (timer s1 x))) t (remove1 t ts))))"
      and eq: "s' = s1\<lparr>links := links s', random_nr := random_nr s1 + 1,
            timer := (timer s1)(t := (timer s1 t)\<lparr>tm_timeout_tick := rt_tick s1 + tm_init_tick (timer s1 t)\<rparr>),
            object := (object s1)(O_timer t := (object s1 (O_timer t))\<lparr>ob_flag :=
               (ob_flag (object s1 (O_timer t)) AND NOT 1) OR 1\<rparr>)\<rparr>"
      using kinv_timer_start_insert [OF inv1 init1 _ ts1] own True by metis
    have fl: "bit (ob_flag (object s' (O_timer x))) i = bit (ob_flag (object s (O_timer x))) i" if "0 < i" for x i
      using that fl1 [OF that, of x] by (subst eq) (auto simp: flag_bits dest: bit_imp_le_length)
    have soft: "ob_flag (object s' (O_timer t)) AND 4 = 0"
      using hard fl [of 2 t] flag_bit_2 [of "ob_flag (object s' (O_timer t))"] by simp
    have "ob_flag (object s (O_timer t)) AND 2 \<noteq> 0" "ob_flag (object s (O_timer t)) AND 1 \<noteq> 0"
      using True act flag_bit_0 flag_bit_1 by blast+
    then have ok: "timer_fire_end t s = Ok s'"
      using s'(1) soft by (simp add: timer_fire_end_def rt_timer_start_def s1_def)
    have g': "kgood s'" using good1 by (subst eq) (auto simp: kgood_def all_stacks_def stack_ok_def s1_def)
    show ?thesis
    proof (rule that [OF ok s'(2) g'])
      show "timer_nodes ((drop_timer t F)(timer_list_of t s1 0 := map (\<lambda>t. Row t 0)
         (insert_by (\<lambda>x. later (rt_tick s1 + tm_init_tick (timer s1 t)) (tm_timeout_tick (timer s1 x))) t (remove1 t ts))))
         (Timer_list 0) ts'"
        unfolding nin tl ts'_def using True by (simp add: s1_def)
      show "timer s' = restart s t" using True by (subst eq) (simp add: restart_def s1_def)
      show "rt_tick s' = rt_tick s" "thread s' = thread s" by (subst eq, simp add: s1_def)+
    qed (rule fl)
  qed
qed

lemma timer_fire_ok:
  assumes inv: "kinv s F" and good: "kgood s" and q: "quiet env"
    and ts: "timer_nodes F (Timer_list 0) (t # ts)"
    and init: "periodic s t \<Longrightarrow> tm_init_tick (timer s t) < RT_TICK_HALF"
  obtains s' F' where "timer_fire env t s = Ok s'" "kinv s' F'" "kgood s'" "timer s' = restart s t"
    "timer_nodes F' (Timer_list 0) (if periodic s t
       then insert_by (\<lambda>x. later (rt_tick s + tm_init_tick (timer s t)) (tm_timeout_tick (timer s x))) t ts else ts)"
    "rt_tick s' = rt_tick s" "\<And>x. periodic s' x = periodic s x" "stays_ready s s'"
    "\<And>u. t = Thread_timer u \<Longrightarrow> ready s' u \<and> th_error (thread s' u) = - RT_ETIMEOUT"
proof -
  have ok: "timer_ok s False t"
    using kinv_node [OF inv, of "Row t 0" "Timer_list 0"] ts by simp
  define s1 where "s1 = s\<lparr>links := rt_list_remove (Row t 0) (links s)\<rparr>"
  have inv1: "kinv s1 (drop_timer t F)" unfolding s1_def drop_timer_def by (rule kinv_remove_row [OF inv])
  have good1: "kgood s1" using good by (simp add: s1_def kgood_def all_stacks_def stack_ok_def)
  have ok1: "timer_ok s1 False t" using ok by (simp add: s1_def timer_ok_def thread_timer_ok_def)
  obtain s2 F2 where call: "call_timeout env (tm_timeout_func (timer s1 t)) (tm_parameter (timer s1 t)) s1 = Ok s2"
    and inv2: "kinv s2 F2" and good2: "kgood s2" and same: "timers_same s1 s2"
    and tl2: "F2 (Timer_list 0) = drop_timer t F (Timer_list 0)"
    and stay: "stays_ready s1 s2"
    and wake: "\<And>u. t = Thread_timer u \<Longrightarrow> ready s2 u \<and> th_error (thread s2 u) = - RT_ETIMEOUT"
    by (rule call_timeout_ok [OF inv1 good1 q ok1 drop_timer_detaches [OF inv]]) blast
  have ts2: "timer_nodes F2 (Timer_list 0) ts" using tl2 drop_timer_head [OF inv ts] by simp
  have fl2: "ob_flag (object s2 (O_timer x)) = ob_flag (object s (O_timer x))" for x
    using same by (simp add: timers_same_def s1_def)
  have tm2: "timer s2 = timer s" "rt_tick s2 = rt_tick s" using same by (simp_all add: timers_same_def s1_def)
  have off2: "detached F2 (Row t 0)"
  proof
    fix h
    show "Row t 0 \<notin> set (F2 h)"
    proof
      assume r: "Row t 0 \<in> set (F2 h)"
      have "h = Timer_list 0"
        using kinv_node [OF inv2 r] ok by (cases h) (auto simp: timer_ok_def fl2)
      then show False using r tl2 drop_timer_detaches [OF inv, of t] by simp
    qed
  qed
  have act2: "bit (ob_flag (object s2 (O_timer t))) 0" "\<not> bit (ob_flag (object s2 (O_timer t))) 2"
    using ok by (simp_all add: fl2 timer_ok_def)
  have own2: "\<not> periodic s2 t" if "t = Thread_timer u" for u
    using ok that by (simp add: fl2 timer_ok_def thread_timer_ok_def)
  have init2: "tm_init_tick (timer s2 t) < RT_TICK_HALF" if "periodic s2 t"
    using init that by (simp add: fl2 tm2)
  obtain s' F' where s': "timer_fire_end t s2 = Ok s'" "kinv s' F'" "kgood s'" "timer_nodes F' (Timer_list 0)
       (if periodic s2 t then insert_by (\<lambda>x. later (rt_tick s2 + tm_init_tick (timer s2 t)) (tm_timeout_tick (timer s2 x))) t ts else ts)"
    "timer s' = restart s2 t" "rt_tick s' = rt_tick s2" "thread s' = thread s2"
    "\<And>x i. 0 < i \<Longrightarrow> bit (ob_flag (object s' (O_timer x))) i = bit (ob_flag (object s2 (O_timer x))) i"
    by (rule timer_fire_end_ok [OF inv2 good2 off2 ts2 act2 init2 own2]) blast+
  have "timer_fire env t s = Ok s'"
    using call s'(1) by (simp add: timer_fire_def s1_def Let_def)
  moreover have "stays_ready s s'" using stay s'(7) by (simp add: stays_ready_def s1_def)
  ultimately show ?thesis
    using that [of s' F'] s' wake by (simp add: fl2 tm2 restart_def)
qed

section \<open>The expiry loop\<close>

text \<open>
  Seen from the tick before the current one, the deadlines on the list are sorted and lie within
  half the tick range; a deadline at distance 0 or 1 has come.
\<close>

definition swin :: "kstate \<Rightarrow> timer_ref list \<Rightarrow> bool" where
  "swin s ts \<longleftrightarrow> sorted (map (deadline s (rt_tick s - 1)) ts) \<and>
     (\<forall>tm \<in> set ts. deadline s (rt_tick s - 1) tm \<le> 0x7fffffff)"

lemma expired_iff:
  assumes "deadline s (rt_tick s - 1) tm \<le> 0x7fffffff"
  shows "expired s tm \<longleftrightarrow> deadline s (rt_tick s - 1) tm \<le> 1"
proof -
  define k where "k = deadline s (rt_tick s - 1) tm"
  have w: "tm_timeout_tick (timer s tm) - (rt_tick s - 1) = of_nat k" by (simp add: k_def deadline_def)
  have "rt_tick s - tm_timeout_tick (timer s tm) = 1 - (tm_timeout_tick (timer s tm) - (rt_tick s - 1))" by simp
  then have r: "rt_tick s - tm_timeout_tick (timer s tm) = 1 - of_nat k" by (simp only: w)
  have "unat ((1 :: u32) - of_nat k) = (if k \<le> 1 then 1 - k else 2 ^ 32 + 1 - k)"
    using unat_minus_of_nat [of k 1] assms by (simp add: k_def)
  then have "unat ((1 :: u32) - of_nat k) < 0x7fffffff \<longleftrightarrow> k \<le> 1"
    using assms by (cases "k \<le> 1") (simp_all add: k_def)
  then show ?thesis unfolding expired_def r by (simp add: word_less_nat_alt k_def)
qed

lemma restart_deadline:
  assumes "tm_init_tick (timer s t) < RT_TICK_HALF"
  shows "unat (rt_tick s + tm_init_tick (timer s t) - (rt_tick s - 1)) = 1 + unat (tm_init_tick (timer s t))"
proof -
  have "rt_tick s + tm_init_tick (timer s t) - (rt_tick s - 1) = 1 + tm_init_tick (timer s t)" by simp
  moreover have "unat (tm_init_tick (timer s t)) < 0x7fffffff" using assms by (simp add: word_less_nat_alt)
  ultimately show ?thesis by (simp add: unat_word_ariths)
qed

lemma swin_cons: "swin s (t # ts) \<Longrightarrow> swin s ts"
  by (simp add: swin_def)

lemma swin_cong:
  assumes "swin s ts" "rt_tick s' = rt_tick s"
    and "\<And>tm. tm \<in> set ts \<Longrightarrow> tm_timeout_tick (timer s' tm) = tm_timeout_tick (timer s tm)"
  shows "swin s' ts"
proof -
  have d: "deadline s' (rt_tick s' - 1) tm = deadline s (rt_tick s - 1) tm" if "tm \<in> set ts" for tm
    using that assms(2,3) by (simp add: deadline_def)
  then have m: "map (deadline s' (rt_tick s' - 1)) ts = map (deadline s (rt_tick s - 1)) ts" by simp
  show ?thesis unfolding swin_def m using assms(1) d by (simp add: swin_def)
qed

lemma swin_restart:
  assumes sw: "swin s ts" and init: "tm_init_tick (timer s t) < RT_TICK_HALF" and t: "t \<notin> set ts"
    and tick: "rt_tick s' = rt_tick s"
    and tm: "timer s' = (timer s)(t := (timer s t)\<lparr>tm_timeout_tick := rt_tick s + tm_init_tick (timer s t)\<rparr>)"
  shows "swin s' (insert_by (\<lambda>x. later (rt_tick s + tm_init_tick (timer s t)) (tm_timeout_tick (timer s x))) t ts)"
proof -
  define d where "d = rt_tick s + tm_init_tick (timer s t)"
  let ?f = "deadline s' (rt_tick s' - 1)"
  have ft: "?f t = 1 + unat (tm_init_tick (timer s t))"
    using restart_deadline [OF init] by (simp add: deadline_def tm tick)
  have init': "unat (tm_init_tick (timer s t)) < 0x7fffffff" using init by (simp add: word_less_nat_alt)
  have fx: "?f x = deadline s (rt_tick s - 1) x" if "x \<in> set ts" for x
    using that t by (auto simp: deadline_def tm tick)
  have ub: "unat (tm_timeout_tick (timer s x) - (rt_tick s - 1)) \<le> 0x7fffffff" if "x \<in> set ts" for x
    using that sw by (simp add: swin_def deadline_def)
  have dt: "unat (d - (rt_tick s - 1)) = ?f t" by (simp add: deadline_def tm tick d_def)
  have late: "later d (tm_timeout_tick (timer s x)) \<longleftrightarrow> ?f t < ?f x" if "x \<in> set ts" for x
    using later_iff [of "tm_timeout_tick (timer s x)" "rt_tick s - 1" d] ub [OF that] ft init' fx [OF that] dt
    by (simp add: deadline_def)
  have tw: "takeWhile (\<lambda>x. \<not> later d (tm_timeout_tick (timer s x))) ts = takeWhile (\<lambda>x. ?f x \<le> ?f t) ts"
    by (rule takeWhile_cong) (simp_all add: late not_less)
  have dw: "dropWhile (\<lambda>x. \<not> later d (tm_timeout_tick (timer s x))) ts = dropWhile (\<lambda>x. ?f x \<le> ?f t) ts"
    by (rule dropWhile_cong) (simp_all add: late not_less)
  have m: "map ?f ts = map (deadline s (rt_tick s - 1)) ts" using fx by simp
  have "sorted (map ?f ts)" unfolding m using sw by (simp add: swin_def)
  then have "sorted (map ?f (insert_by (\<lambda>x. later d (tm_timeout_tick (timer s x))) t ts))"
    unfolding insert_by_def tw dw by (rule sorted_insert_stable)
  moreover have "\<forall>x \<in> set ts. ?f x \<le> 0x7fffffff" using sw fx by (simp add: swin_def)
  ultimately show ?thesis using ft init' by (simp add: swin_def d_def)
qed

text \<open>A period of zero would fire for ever; a longer one is less than half the tick range.\<close>

definition periods_ok :: "kstate \<Rightarrow> timer_ref list \<Rightarrow> bool" where
  "periods_ok s ts \<longleftrightarrow>
     (\<forall>tm \<in> set ts. periodic s tm \<longrightarrow> 0 < tm_init_tick (timer s tm) \<and> tm_init_tick (timer s tm) < RT_TICK_HALF)"

lemma timer_check_loop_step:
  assumes inv: "kinv s F" and ts: "timer_nodes F (Timer_list 0) ts"
  shows "timer_check_loop env (rt_tick s) s =
    (case ts of [] \<Rightarrow> Some (Ok s)
     | t # _ \<Rightarrow> if expired s t then
          (case timer_fire env t s of Fault e \<Rightarrow> Some (Fault e) | Ok s \<Rightarrow> timer_check_loop env (rt_tick s) s)
        else Some (Ok s))"
proof -
  have "rt_list_isempty (Timer_list 0) (links s) \<longleftrightarrow> ts = []"
    using rl.isempty_iff [OF kinv_wf [OF inv], of "Timer_list 0"] ts by simp
  moreover have "lnext (links s) (Timer_list 0) = hd (map (\<lambda>t. Row t 0) ts @ [Timer_list 0])"
    using rl.nxt_head [OF kinv_wf [OF inv], of "Timer_list 0"] ts by simp
  ultimately show ?thesis
    by (subst timer_check_loop.simps) (auto simp: expired_def rt_tick_get_def split: list.splits res.splits)
qed

lemma timer_check_loop_ok:
  assumes "kinv s F" "kgood s" "quiet env" "timer_nodes F (Timer_list 0) ts" "swin s ts" "periods_ok s ts"
  shows "\<exists>s' F' ts'. timer_check_loop env (rt_tick s) s = Some (Ok s') \<and> kinv s' F' \<and> kgood s' \<and>
    timer_nodes F' (Timer_list 0) ts' \<and> swin s' ts' \<and> rt_tick s' = rt_tick s \<and>
    (\<forall>tm \<in> set ts'. \<not> expired s' tm) \<and> set ts' = {tm \<in> set ts. expired s tm \<longrightarrow> periodic s tm} \<and>
    (\<forall>tm. \<not> (tm \<in> set ts \<and> expired s tm) \<longrightarrow> timer s' tm = timer s tm) \<and>
    (\<forall>tm. periodic s' tm = periodic s tm) \<and> stays_ready s s' \<and>
    (\<forall>u. Thread_timer u \<in> set ts \<and> expired s (Thread_timer u) \<longrightarrow>
       ready s' u \<and> th_error (thread s' u) = - RT_ETIMEOUT) \<and>
    (\<forall>tm. tm_init_tick (timer s' tm) = tm_init_tick (timer s tm))"
  using assms
proof (induction "length (filter (expired s) ts)" arbitrary: s F ts rule: less_induct)
  case less
  show ?case
  proof (cases "\<exists>t us. ts = t # us \<and> expired s t")
    case False
    have ne: "\<not> expired s tm" if tm: "tm \<in> set ts" for tm
    proof (cases ts)
      case (Cons t us)
      then have t: "\<not> expired s t" using False by simp
      have "deadline s (rt_tick s - 1) t \<le> deadline s (rt_tick s - 1) tm"
        using tm Cons less.prems(5) by (auto simp: swin_def)
      then show ?thesis
        using t tm Cons less.prems(5) expired_iff [of s t] expired_iff [of s tm] by (auto simp: swin_def)
    qed (use tm in simp)
    have "timer_check_loop env (rt_tick s) s = Some (Ok s)"
      using timer_check_loop_step [OF less.prems(1,4)] ne by (cases ts) simp_all
    then show ?thesis
      using less.prems ne stays_ready_thread [of s s] by (intro exI [of _ s] exI [of _ F] exI [of _ ts]) auto
  next
    case True
    then obtain t us where ts: "ts = t # us" and ex: "expired s t" by blast
    have dist: "t \<notin> set us"
      using lists_wf_distinct [OF kinv_wf [OF less.prems(1)], of "Timer_list 0"] less.prems(4) ts
      by (auto simp: distinct_map)
    have init: "periodic s t \<Longrightarrow> tm_init_tick (timer s t) < RT_TICK_HALF"
      using less.prems(6) ts by (simp add: periods_ok_def)
    define us' where "us' = (if periodic s t
       then insert_by (\<lambda>x. later (rt_tick s + tm_init_tick (timer s t)) (tm_timeout_tick (timer s x))) t us else us)"
    obtain s1 F1 where s1: "timer_fire env t s = Ok s1" "kinv s1 F1" "kgood s1" "timer s1 = restart s t"
        "timer_nodes F1 (Timer_list 0) us'" "rt_tick s1 = rt_tick s" "\<And>x. periodic s1 x = periodic s x" "stays_ready s s1"
        "\<And>u. t = Thread_timer u \<Longrightarrow> ready s1 u \<and> th_error (thread s1 u) = - RT_ETIMEOUT"
      unfolding us'_def by (rule timer_fire_ok [OF less.prems(1-3) less.prems(4) [unfolded ts] init]) blast+
    have same: "timer s1 x = timer s x" if "x \<noteq> t" for x using s1(4) that by (simp add: restart_def)
    have ex1: "expired s1 x = expired s x" if "x \<noteq> t" for x
      using same [OF that] s1(6) by (simp add: expired_def)
    have sw1: "swin s1 us'"
    proof (cases "periodic s t")
      case True
      then show ?thesis
        using swin_restart [OF swin_cons [OF less.prems(5) [unfolded ts]] init [OF True] dist s1(6)] s1(4)
        by (simp add: us'_def restart_def)
    next
      case False
      then show ?thesis
        using swin_cong [OF swin_cons [OF less.prems(5) [unfolded ts]] s1(6)] s1(4)
        by (simp add: us'_def restart_def)
    qed
    have set': "set us' = {tm \<in> set ts. tm = t \<longrightarrow> periodic s t}"
      using dist by (auto simp: us'_def ts)
    have ext: "\<not> expired s1 t" if p: "periodic s t"
    proof -
      have "0 < tm_init_tick (timer s t)" using less.prems(6) ts p by (simp add: periods_ok_def)
      then have "0 < unat (tm_init_tick (timer s t))" by (simp add: word_less_nat_alt)
      moreover have "deadline s1 (rt_tick s1 - 1) t = 1 + unat (tm_init_tick (timer s t))"
        using restart_deadline [OF init [OF p]] p by (simp add: deadline_def s1(4,6) restart_def)
      ultimately show ?thesis
        using sw1 p expired_iff [of s1 t] set' by (auto simp: swin_def ts)
    qed
    have per1: "periods_ok s1 us'"
      using less.prems(6) set' s1(4,7) by (auto simp: periods_ok_def restart_def)
    have flt: "filter (expired s1) us' = filter (expired s) us"
    proof -
      have u: "filter (expired s1) us = filter (expired s) us"
        by (rule filter_cong [OF refl]) (metis dist ex1)
      have "filter (expired s1) (insert_by P t us) = filter (expired s1) us" if "\<not> expired s1 t" for P
        using that by (simp add: insert_by_def) (metis filter_append takeWhile_dropWhile_id)
      then show ?thesis using u ext by (auto simp: us'_def)
    qed
    have "length (filter (expired s1) us') < length (filter (expired s) ts)"
      using ex unfolding flt by (simp add: ts)
    from less.hyps [OF this s1(2,3) less.prems(3) s1(5) sw1 per1]
    obtain s' F' ts' where l: "timer_check_loop env (rt_tick s1) s1 = Some (Ok s')" "kinv s' F'" "kgood s'"
        "timer_nodes F' (Timer_list 0) ts'" "swin s' ts'" "rt_tick s' = rt_tick s1"
        "\<forall>tm \<in> set ts'. \<not> expired s' tm" "set ts' = {tm \<in> set us'. expired s1 tm \<longrightarrow> periodic s1 tm}"
        "\<forall>tm. \<not> (tm \<in> set us' \<and> expired s1 tm) \<longrightarrow> timer s' tm = timer s1 tm"
        "\<forall>tm. periodic s' tm = periodic s1 tm" "stays_ready s1 s'"
        "\<forall>u. Thread_timer u \<in> set us' \<and> expired s1 (Thread_timer u) \<longrightarrow>
           ready s' u \<and> th_error (thread s' u) = - RT_ETIMEOUT"
        "\<forall>tm. tm_init_tick (timer s' tm) = tm_init_tick (timer s1 tm)" by blast
    have loop: "timer_check_loop env (rt_tick s) s = Some (Ok s')"
      using timer_check_loop_step [OF less.prems(1,4)] ts ex s1(1) l(1) by simp
    have sets: "set ts' = {tm \<in> set ts. expired s tm \<longrightarrow> periodic s tm}"
    proof (rule set_eqI)
      fix x
      show "x \<in> set ts' \<longleftrightarrow> x \<in> {tm \<in> set ts. expired s tm \<longrightarrow> periodic s tm}"
        unfolding l(8) set' using ex1 [of x] ex ext s1(7) by (cases "x = t") auto
    qed
    have unch: "timer s' tm = timer s tm" if "\<not> (tm \<in> set ts \<and> expired s tm)" for tm
    proof -
      have "tm \<noteq> t" using that ex ts by auto
      moreover from this have "\<not> (tm \<in> set us' \<and> expired s1 tm)" using that ex1 set' by auto
      ultimately show ?thesis using l(9) same by simp
    qed
    have stay: "stays_ready s s'" by (rule stays_ready_trans [OF s1(8) l(11)])
    have ini: "\<forall>tm. tm_init_tick (timer s' tm) = tm_init_tick (timer s tm)"
      using l(13) s1(4) by (simp add: restart_def)
    have wake: "ready s' u \<and> th_error (thread s' u) = - RT_ETIMEOUT"
      if u: "Thread_timer u \<in> set ts" "expired s (Thread_timer u)" for u
    proof (cases "t = Thread_timer u")
      case True
      then show ?thesis using s1(9) l(11) by (simp add: stays_ready_def)
    next
      case False
      then have "Thread_timer u \<in> set us'" "expired s1 (Thread_timer u)" using u set' ex1 by auto
      then show ?thesis using l(12) by blast
    qed
    show ?thesis
      using loop l(2-7) l(10) s1(6,7) sets unch stay wake ini by (intro exI [of _ s'] exI [of _ F'] exI [of _ ts']) auto
  qed
qed

end
