(* ===== verification/RT_Tick_Run.thy ===== *)
theory RT_Tick_Run
  imports RT_Tick_Props
begin

text \<open>
  The tick interrupt as a whole, \<^verbatim>\<open>rt_tick_increase\<close> of \<^verbatim>\<open>src/src/clock.c\<close>: the time slice, the expiry of
  the hard timers, and what a run of ticks does to a sleeping thread.
\<close>

section \<open>Between two ticks\<close>

text \<open>
  Between ticks no listed hard timer has expired, the list is sorted by deadline, and every period
  is positive.
\<close>

definition settled :: "kstate \<Rightarrow> (node \<Rightarrow> node list) \<Rightarrow> timer_ref list \<Rightarrow> bool" where
  "settled s F ts \<longleftrightarrow>
     kinv s F \<and> kgood s \<and> timer_nodes F (Timer_list 0) ts \<and> swin s ts \<and> periods_ok s ts \<and>
     (\<forall>tm \<in> set ts. \<not> expired s tm)"

lemma deadline_next:
  assumes "deadline s (rt_tick s - 1) tm \<noteq> 0"
  shows "deadline s (rt_tick s) tm = deadline s (rt_tick s - 1) tm - 1"
proof -
  have eq: "tm_timeout_tick (timer s tm) - rt_tick s = (tm_timeout_tick (timer s tm) - (rt_tick s - 1)) - 1" by simp
  have "tm_timeout_tick (timer s tm) - (rt_tick s - 1) \<noteq> 0"
    using assms unfolding deadline_def by (metis unat_0)
  then show ?thesis unfolding deadline_def eq by (rule unat_minus_one)
qed

lemma swin_tick:
  assumes sw: "swin s ts" and ne: "\<forall>tm \<in> set ts. \<not> expired s tm"
    and tick: "rt_tick s' = rt_tick s + 1" and tm: "timer s' = timer s"
  shows "swin s' ts"
    and "x \<in> set ts \<Longrightarrow> expired s' x \<longleftrightarrow> tm_timeout_tick (timer s x) = rt_tick s + 1"
proof -
  have d: "deadline s' (rt_tick s' - 1) x = deadline s (rt_tick s - 1) x - 1"
      "2 \<le> deadline s (rt_tick s - 1) x" "deadline s (rt_tick s - 1) x \<le> 0x7fffffff" if "x \<in> set ts" for x
  proof -
    show u: "deadline s (rt_tick s - 1) x \<le> 0x7fffffff" using sw that by (simp add: swin_def)
    show two: "2 \<le> deadline s (rt_tick s - 1) x" using expired_iff [OF u] ne that by simp
    have "deadline s' (rt_tick s' - 1) x = deadline s (rt_tick s) x" by (simp add: deadline_def tick tm)
    then show "deadline s' (rt_tick s' - 1) x = deadline s (rt_tick s - 1) x - 1"
      using deadline_next [of s x] two by simp
  qed
  have "sorted (map (deadline s' (rt_tick s' - 1)) ts)"
  proof -
    have "map (deadline s' (rt_tick s' - 1)) ts = map (\<lambda>n. n - 1) (map (deadline s (rt_tick s - 1)) ts)"
      using d(1) by simp
    moreover have "sorted (map (\<lambda>n. n - 1) (map (deadline s (rt_tick s - 1)) ts))"
      using sw by (intro sorted_map_mono) (auto simp: swin_def monotone_on_def)
    ultimately show ?thesis by (simp only:)
  qed
  moreover have "\<forall>x \<in> set ts. deadline s' (rt_tick s' - 1) x \<le> 0x7fffffff" using d by fastforce
  ultimately show sw': "swin s' ts" by (simp add: swin_def)
  show "expired s' x \<longleftrightarrow> tm_timeout_tick (timer s x) = rt_tick s + 1" if x: "x \<in> set ts"
  proof -
    have "expired s' x \<longleftrightarrow> deadline s' (rt_tick s' - 1) x \<le> 1"
      using sw' x by (intro expired_iff) (simp add: swin_def)
    also have "\<dots> \<longleftrightarrow> deadline s' (rt_tick s' - 1) x = 1" using d [OF x] by auto
    also have "\<dots> \<longleftrightarrow> unat (tm_timeout_tick (timer s x) - rt_tick s) = unat (1 :: u32)"
      by (simp add: deadline_def tick tm)
    also have "\<dots> \<longleftrightarrow> tm_timeout_tick (timer s x) - rt_tick s = 1" by (rule word_unat_eq_iff [symmetric])
    also have "\<dots> \<longleftrightarrow> tm_timeout_tick (timer s x) = rt_tick s + 1" by (auto simp: algebra_simps)
    finally show ?thesis .
  qed
qed

section \<open>One tick\<close>

lemma yield_total:
  assumes inv: "kinv s F" and good: "kgood s" and u: "ready s u"
  shows "\<exists>s' F'. rt_thread_yield s = Ok (RT_EOK, s') \<and> kinv s' F' \<and> kgood s' \<and> thread s' = thread s \<and>
    timers_same s s' \<and> (\<forall>h. (\<forall>p. h \<noteq> Priority_table p) \<longrightarrow> F' h = F h)"
proof -
  obtain t where cur: "rt_current_thread s = Some t" using good by (auto simp: kgood_def)
  define sw where "sw \<longleftrightarrow> ready s t \<and> lnext (links s) (Tlist t) \<noteq> lprev (links s) (Tlist t)"
  define s1 where "s1 = s\<lparr>links := rt_list_insert_before (ready_head s t) (Tlist t) (rt_list_remove (Tlist t) (links s))\<rparr>"
  define F' where "F' = (if ready s t then F(ready_head s t := remove1 (Tlist t) (F (ready_head s t)) @ [Tlist t]) else F)"
  have eq: "rt_thread_yield s = (if sw then rbind (rt_schedule s1) (\<lambda>s. Ok (RT_EOK, s)) else Ok (RT_EOK, s))"
    using cur by (simp add: rt_thread_yield_def sw_def s1_def Let_def)
  have F': "F' h = F h" if "\<forall>p. h \<noteq> Priority_table p" for h using that by (simp add: F'_def)
  show ?thesis
  proof (cases sw)
    case False
    then show ?thesis
      using kinv_yield(1) [OF inv cur] eq good F'
      by (intro exI [of _ s] exI [of _ F']) (simp add: F'_def timers_same_def)
  next
    case True
    have rdy: "ready s t" using True by (simp add: sw_def)
    have inv1: "kinv s1 F'"
    proof -
      have w: "lists_wf heads (links s1) ((\<lambda>h. remove1 (Tlist t) (F h))(ready_head s t := remove1 (Tlist t) (F (ready_head s t)) @ [Tlist t]))"
        unfolding s1_def using rl.move_back [OF kinv_wf [OF inv], of "ready_head s t" "Tlist t"] by simp
      have "F' = (\<lambda>h. remove1 (Tlist t) (F h))(ready_head s t := remove1 (Tlist t) (F (ready_head s t)) @ [Tlist t])"
        using rdy by (simp add: F'_def drop_thread_ready_head [OF inv rdy, unfolded drop_thread_def])
      then have wf: "lists_wf heads (links s1) F'" using w by simp
      have st: "set (F' h) = set (F h)" for h
        using kinv_ready [OF inv rdy] lists_wf_distinct [OF kinv_wf [OF inv], of h]
        by (auto simp: F'_def)
      then have em: "F' h = [] \<longleftrightarrow> F h = []" for h by (metis set_empty)
      show ?thesis
      proof (rule kinvI [OF wf])
        show "ready_bits s1 F'" using kinv_bits [OF inv] by (simp add: ready_bits_def em s1_def)
        have same: "same_threads s s1" "same_timers s s1" by (simp_all add: s1_def same_defs)
        show "node_ok s1 h n" if "n \<in> set (F' h)" for h n
          using kinv_node [OF inv, of n h] that node_ok_cong [OF same] by (simp add: st)
        show "Tlist x \<in> set (F' (ready_head s1 x))" if "ready s1 x" for x
          using kinv_ready [OF inv, of x] that by (simp add: s1_def st)
        show "attr_ok (thread s1 x) \<and> thread_timer_ok s1 x" if "th_state (thread s1 x) \<noteq> RT_THREAD_INIT" for x
          using kinv_attr [OF inv, of x] kinv_timer [OF inv, of x] that thread_timer_ok_cong [OF same(2)]
          by (simp add: s1_def)
      qed
    qed
    have good1: "kgood s1" using good by (simp add: s1_def kgood_def all_stacks_def stack_ok_def)
    have u1: "ready s1 u" using u by (simp add: s1_def)
    obtain s' where s': "rt_schedule s1 = Ok s'" "kinv s' F'" "rt_current_thread s' \<noteq> None"
      and e: "s' = s1\<lparr>rt_current_priority := rt_current_priority s', rt_current_thread := rt_current_thread s'\<rparr>"
      by (rule schedule_total [OF inv1 good1 u1])
    have "thread s' = thread s" by (subst e) (simp add: s1_def)
    moreover have "timers_same s s'" unfolding timers_same_def by (subst (1 2 3) e) (simp add: s1_def)
    ultimately show ?thesis
      using eq True s' kgood_schedule [OF good1 s'(3) e] F' by (intro exI [of _ s'] exI [of _ F']) simp
  qed
qed

text \<open>The time slice of the running thread: at its end the thread goes behind its equals.\<close>

definition tick_slice :: "kstate \<Rightarrow> kstate res" where
  "tick_slice s =
     (let s = s\<lparr>rt_tick := rt_tick s + 1\<rparr>
      in case rt_thread_self s of
           None \<Rightarrow> Fault Null_Pointer
         | Some t \<Rightarrow>
             (let s = upd_thread t (\<lambda>th. th\<lparr>th_remaining_tick := th_remaining_tick th - 1\<rparr>) s
              in if th_remaining_tick (thread s t) = 0
                 then (let s = upd_thread t (\<lambda>th. th\<lparr>th_remaining_tick := th_init_tick th\<rparr>) s
                       in rbind (rt_thread_yield s) (\<lambda>(r, s). Ok s))
                 else Ok s))"

lemma tick_increase_eq: "rt_tick_increase env s = rbind (tick_slice s) (rt_timer_check env)"
  by (simp add: rt_tick_increase_def tick_slice_def Let_def split: option.splits)

lemma tick_slice_ok:
  assumes inv: "kinv s F" and good: "kgood s" and u: "ready s u"
  shows "\<exists>s' F'. tick_slice s = Ok s' \<and> kinv s' F' \<and> kgood s' \<and> stays_ready s s' \<and> timer s' = timer s \<and>
    rt_tick s' = rt_tick s + 1 \<and> (\<forall>tm. ob_flag (object s' (O_timer tm)) = ob_flag (object s (O_timer tm))) \<and>
    (\<forall>h. (\<forall>p. h \<noteq> Priority_table p) \<longrightarrow> F' h = F h)"
proof -
  obtain t where cur: "rt_current_thread s = Some t" using good by (auto simp: kgood_def)
  define s1 where "s1 = upd_thread t (\<lambda>th. th\<lparr>th_remaining_tick := th_remaining_tick th - 1\<rparr>) (s\<lparr>rt_tick := rt_tick s + 1\<rparr>)"
  define s2 where "s2 = upd_thread t (\<lambda>th. th\<lparr>th_remaining_tick := th_init_tick th\<rparr>) s1"
  have k: "kinv s1 F" "kinv s2 F"
    by (rule kinv_cong [OF inv]; simp add: s1_def s2_def same_defs)+
  have g: "kgood s1" "kgood s2"
    using good by (simp_all add: kgood_def all_stacks_def stack_ok_def s1_def s2_def Let_def)
  have r: "ready s2 u" using u by (auto simp: s1_def s2_def)
  have st: "stays_ready s s1" "stays_ready s s2" by (simp_all add: stays_ready_def s1_def s2_def)
  show ?thesis
  proof (cases "th_remaining_tick (thread s1 t) = 0")
    case False
    then have "tick_slice s = Ok s1" using cur by (simp add: tick_slice_def rt_thread_self_def s1_def Let_def)
    then show ?thesis using k(1) g(1) st(1) by (intro exI [of _ s1] exI [of _ F]) (simp add: s1_def)
  next
    case True
    obtain s' F' where y: "rt_thread_yield s2 = Ok (RT_EOK, s')" "kinv s' F'" "kgood s'" "thread s' = thread s2"
        "timers_same s2 s'" "\<forall>h. (\<forall>p. h \<noteq> Priority_table p) \<longrightarrow> F' h = F h"
      using yield_total [OF k(2) g(2) r] by blast
    have "tick_slice s = Ok s'"
      using cur True y(1) by (simp add: tick_slice_def rt_thread_self_def s1_def s2_def Let_def)
    moreover have "stays_ready s s'" using st(2) y(4) by (simp add: stays_ready_def)
    ultimately show ?thesis
      using y by (intro exI [of _ s'] exI [of _ F']) (simp add: timers_same_def s2_def s1_def)
  qed
qed

definition due :: "kstate \<Rightarrow> timer_ref list \<Rightarrow> timer_ref \<Rightarrow> bool" where
  "due s ts tm \<longleftrightarrow> tm \<in> set ts \<and> tm_timeout_tick (timer s tm) = rt_tick s + 1"

text \<open>\<open>ticked s ts s' ts'\<close>: what one tick does to the hard timers \<open>ts\<close>.\<close>

definition ticked :: "kstate \<Rightarrow> timer_ref list \<Rightarrow> kstate \<Rightarrow> timer_ref list \<Rightarrow> bool" where
  "ticked s ts s' ts' \<longleftrightarrow>
     rt_tick s' = rt_tick s + 1 \<and> set ts' = {tm \<in> set ts. due s ts tm \<longrightarrow> periodic s tm} \<and>
     (\<forall>tm. \<not> due s ts tm \<longrightarrow> timer s' tm = timer s tm) \<and>
     (\<forall>tm. periodic s' tm = periodic s tm) \<and> stays_ready s s' \<and>
     (\<forall>u. due s ts (Thread_timer u) \<longrightarrow> ready s' u \<and> th_error (thread s' u) = - RT_ETIMEOUT)"

lemma tick_ok:
  assumes st: "settled s F ts" and q: "quiet env" and u: "ready s u"
  shows "\<exists>s' F' ts'. rt_tick_increase env s = Ok s' \<and> settled s' F' ts' \<and> ticked s ts s' ts'"
proof -
  have p: "kinv s F" "kgood s" "timer_nodes F (Timer_list 0) ts" "swin s ts" "periods_ok s ts"
      "\<forall>tm \<in> set ts. \<not> expired s tm" using st by (simp_all add: settled_def)
  obtain s1 F1 where s1: "tick_slice s = Ok s1" "kinv s1 F1" "kgood s1" "stays_ready s s1" "timer s1 = timer s"
      "rt_tick s1 = rt_tick s + 1" "\<forall>tm. ob_flag (object s1 (O_timer tm)) = ob_flag (object s (O_timer tm))"
      "\<forall>h. (\<forall>p. h \<noteq> Priority_table p) \<longrightarrow> F1 h = F h"
    using tick_slice_ok [OF p(1,2) u] by blast
  have ts1: "timer_nodes F1 (Timer_list 0) ts" using s1(8) p(3) by simp
  have sw1: "swin s1 ts" by (rule swin_tick(1) [OF p(4,6) s1(6,5)])
  have ex: "expired s1 x \<longleftrightarrow> due s ts x" if "x \<in> set ts" for x
    using swin_tick(2) [OF p(4,6) s1(6,5) that] that by (simp add: due_def)
  have per1: "periods_ok s1 ts" using p(5) s1(5,7) by (simp add: periods_ok_def)
  obtain s' F' ts' where l: "timer_check_loop env (rt_tick s1) s1 = Some (Ok s')" "kinv s' F'" "kgood s'"
      "timer_nodes F' (Timer_list 0) ts'" "swin s' ts'" "rt_tick s' = rt_tick s1"
      "\<forall>tm \<in> set ts'. \<not> expired s' tm" "set ts' = {tm \<in> set ts. expired s1 tm \<longrightarrow> periodic s1 tm}"
      "\<forall>tm. \<not> (tm \<in> set ts \<and> expired s1 tm) \<longrightarrow> timer s' tm = timer s1 tm"
      "\<forall>tm. periodic s' tm = periodic s1 tm" "stays_ready s1 s'"
      "\<forall>u. Thread_timer u \<in> set ts \<and> expired s1 (Thread_timer u) \<longrightarrow>
         ready s' u \<and> th_error (thread s' u) = - RT_ETIMEOUT"
      "\<forall>tm. tm_init_tick (timer s' tm) = tm_init_tick (timer s1 tm)"
    using timer_check_loop_ok [OF s1(2,3) q ts1 sw1 per1] by blast
  have "rt_tick_increase env s = Ok s'"
    using s1(1) l(1) by (simp add: tick_increase_eq rt_timer_check_def rt_tick_get_def)
  moreover have "settled s' F' ts'"
    using l(2-5,7) l(8,10,13) per1 by (auto simp: settled_def periods_ok_def)
  moreover have "ticked s ts s' ts'"
    unfolding ticked_def
  proof (intro conjI)
    show "set ts' = {tm \<in> set ts. due s ts tm \<longrightarrow> periodic s tm}" using l(8) ex s1(7) by auto
    show "\<forall>tm. \<not> due s ts tm \<longrightarrow> timer s' tm = timer s tm"
      using l(9) ex s1(5) by (auto simp: due_def)
    show "stays_ready s s'" by (rule stays_ready_trans [OF s1(4) l(11)])
    show "\<forall>u. due s ts (Thread_timer u) \<longrightarrow> ready s' u \<and> th_error (thread s' u) = - RT_ETIMEOUT"
      using l(12) ex by (auto simp: due_def)
  qed (use l(6,10) s1(6,7) in simp_all)
  ultimately show ?thesis by blast
qed

section \<open>A run of ticks\<close>

primrec ticks :: "callbacks \<Rightarrow> nat \<Rightarrow> kstate \<Rightarrow> kstate res" where
  "ticks env 0 s = Ok s"
| "ticks env (Suc n) s = rbind (rt_tick_increase env s) (ticks env n)"

lemma ticks_total:
  assumes "settled s F ts" "quiet env" "ready s u"
  shows "\<exists>s' F' ts'. ticks env n s = Ok s' \<and> settled s' F' ts' \<and> stays_ready s s' \<and> rt_tick s' = rt_tick s + of_nat n"
  using assms
proof (induction n arbitrary: s F ts)
  case 0
  then show ?case using stays_ready_thread [of s s] by auto
next
  case (Suc n)
  obtain s1 F1 ts1 where s1: "rt_tick_increase env s = Ok s1" "settled s1 F1 ts1" "ticked s ts s1 ts1"
    using tick_ok [OF Suc.prems] by blast
  have st1: "stays_ready s s1" "rt_tick s1 = rt_tick s + 1" using s1(3) by (simp_all add: ticked_def)
  have "ready s1 u" using st1(1) Suc.prems(3) by (simp add: stays_ready_def)
  from Suc.IH [OF s1(2) Suc.prems(2) this] obtain s' F' ts' where "ticks env n s1 = Ok s'" "settled s' F' ts'"
      "stays_ready s1 s'" "rt_tick s' = rt_tick s1 + of_nat n" by blast
  then show ?case
    using s1(1) st1 stays_ready_trans [OF st1(1), of s'] by (intro exI [of _ s'] exI [of _ F'] exI [of _ ts']) simp
qed

lemma settled_suspended:
  assumes "settled s F ts" "Thread_timer u \<in> set ts"
  shows "suspended s u"
  using assms kinv_row_suspended [of s F u "Timer_list 0"] by (simp add: settled_def)

lemma ticks_wake:
  assumes "settled s F ts" "quiet env" "ready s v" "Thread_timer u \<in> set ts"
    and "tm_timeout_tick (timer s (Thread_timer u)) = rt_tick s + of_nat (Suc n)" "Suc n < 2 ^ 32"
  shows "(\<forall>k \<le> n. \<exists>s'. ticks env k s = Ok s' \<and> suspended s' u) \<and>
    (\<exists>s'. ticks env (Suc n) s = Ok s' \<and> ready s' u \<and> th_error (thread s' u) = - RT_ETIMEOUT)"
  using assms
proof (induction n arbitrary: s F ts)
  case 0
  obtain s1 F1 ts1 where s1: "rt_tick_increase env s = Ok s1" "settled s1 F1 ts1" "ticked s ts s1 ts1"
    using tick_ok [OF 0(1-3)] by blast
  have "due s ts (Thread_timer u)" using 0(4,5) by (simp add: due_def)
  then have "ready s1 u \<and> th_error (thread s1 u) = - RT_ETIMEOUT" using s1(3) by (simp add: ticked_def)
  then show ?case using s1(1) settled_suspended [OF 0(1,4)] by simp
next
  case (Suc n)
  obtain s1 F1 ts1 where s1: "rt_tick_increase env s = Ok s1" "settled s1 F1 ts1" "ticked s ts s1 ts1"
    using tick_ok [OF Suc.prems(1-3)] by blast
  have ne: "(of_nat (Suc (Suc n)) :: u32) \<noteq> 1"
  proof
    assume "(of_nat (Suc (Suc n)) :: u32) = 1"
    then have "unat (of_nat (Suc (Suc n)) :: u32) = 1" by simp
    then show False using Suc.prems(6) by (simp add: unat_of_nat take_bit_nat_eq_self del: of_nat_Suc)
  qed
  then have nd: "\<not> due s ts (Thread_timer u)" using Suc.prems(5) by (simp add: due_def del: of_nat_Suc)
  have u1: "Thread_timer u \<in> set ts1" using s1(3) nd Suc.prems(4) by (simp add: ticked_def)
  have d1: "tm_timeout_tick (timer s1 (Thread_timer u)) = rt_tick s1 + of_nat (Suc n)"
    using s1(3) nd Suc.prems(5) by (simp add: ticked_def)
  have v1: "ready s1 v" using s1(3) Suc.prems(3) by (simp add: ticked_def stays_ready_def)
  have lt: "Suc n < 2 ^ 32" using Suc.prems(6) by simp
  note IH = Suc.IH [OF s1(2) Suc.prems(2) v1 u1 d1 lt]
  show ?case
  proof (intro conjI allI impI)
    fix k assume k: "k \<le> Suc n"
    show "\<exists>s'. ticks env k s = Ok s' \<and> suspended s' u"
    proof (cases k)
      case 0
      then show ?thesis using settled_suspended [OF Suc.prems(1,4)] by simp
    next
      case (Suc k')
      then have "k' \<le> n" using k by simp
      then show ?thesis using IH s1(1) Suc by simp
    qed
  next
    show "\<exists>s'. ticks env (Suc (Suc n)) s = Ok s' \<and> ready s' u \<and> th_error (thread s' u) = - RT_ETIMEOUT"
      using IH s1(1) by simp
  qed
qed

section \<open>Falling asleep\<close>

text \<open>The running thread, and another one that can run.\<close>

definition can_sleep :: "kstate \<Rightarrow> thread_id \<Rightarrow> bool" where
  "can_sleep s t \<longleftrightarrow> rt_current_thread s = Some t \<and> ready s t \<and> rt_scheduler_lock_nest s = 0 \<and>
     (\<exists>u. u \<noteq> t \<and> ready s u)"

text \<open>The part of \<open>settled\<close> that speaks of the timer list.\<close>

definition timers_ok :: "kstate \<Rightarrow> (node \<Rightarrow> node list) \<Rightarrow> timer_ref list \<Rightarrow> bool" where
  "timers_ok s F ts \<longleftrightarrow>
     timer_nodes F (Timer_list 0) ts \<and> swin s ts \<and> periods_ok s ts \<and> (\<forall>tm \<in> set ts. \<not> expired s tm)"

lemma settled_iff: "settled s F ts \<longleftrightarrow> kinv s F \<and> kgood s \<and> timers_ok s F ts"
  by (simp add: settled_def timers_ok_def)

lemma timers_ok_cong:
  assumes "timers_ok s F ts" "timer s' = timer s" "rt_tick s' = rt_tick s" "F' (Timer_list 0) = F (Timer_list 0)"
    and "\<And>x. periodic s' x = periodic s x"
  shows "timers_ok s' F' ts"
  using assms swin_cong [of s ts s'] by (simp add: timers_ok_def periods_ok_def expired_def)

lemma timers_ok_thread [simp]: "timers_ok (s\<lparr>thread := f\<rparr>) F ts = timers_ok s F ts"
  using timers_ok_cong [of s F ts "s\<lparr>thread := f\<rparr>" F] timers_ok_cong [of "s\<lparr>thread := f\<rparr>" F ts s F] by auto

text \<open>Arming a timer that is not in the list, less than half the tick range ahead.\<close>

lemma timers_ok_arm:
  assumes ok: "timers_ok s F ts" and nin: "tm \<notin> set ts" and one: "\<not> periodic s tm"
    and tick: "0 < tick" "tick < RT_TICK_HALF" and now: "rt_tick s' = rt_tick s"
    and tm: "timer s' = (timer s)(tm := (timer s tm)\<lparr>tm_init_tick := tick, tm_timeout_tick := rt_tick s + tick\<rparr>)"
    and per: "\<And>x. periodic s' x = periodic s x"
    and F': "timer_nodes F' (Timer_list 0) (insert_by (\<lambda>x. later (rt_tick s + tick) (tm_timeout_tick (timer s x))) tm ts)"
  shows "timers_ok s' F' (insert_by (\<lambda>x. later (rt_tick s + tick) (tm_timeout_tick (timer s x))) tm ts)"
    (is "timers_ok s' F' ?us")
proof -
  have p: "swin s ts" "periods_ok s ts" "\<forall>x \<in> set ts. \<not> expired s x" using ok by (simp_all add: timers_ok_def)
  define sA where "sA = s\<lparr>timer := (timer s)(tm := (timer s tm)\<lparr>tm_init_tick := tick\<rparr>)\<rparr>"
  have swA: "swin sA ts" by (rule swin_cong [OF p(1)]) (simp_all add: sA_def)
  have "swin s' (insert_by (\<lambda>x. later (rt_tick sA + tm_init_tick (timer sA tm)) (tm_timeout_tick (timer sA x))) tm ts)"
    by (rule swin_restart [OF swA _ nin]) (simp_all add: sA_def tick(2) now tm)
  moreover have "(\<lambda>x. later (rt_tick sA + tm_init_tick (timer sA tm)) (tm_timeout_tick (timer sA x))) =
      (\<lambda>x. later (rt_tick s + tick) (tm_timeout_tick (timer s x)))"
    by (rule ext) (simp add: sA_def)
  ultimately have "swin s' ?us" by simp
  moreover have "periods_ok s' ?us" using p(2) one tm per by (auto simp: periods_ok_def)
  moreover have "\<not> expired s' x" if x: "x \<in> set ?us" for x
  proof (cases "x = tm")
    case True
    have d: "deadline s' (rt_tick s' - 1) x = 1 + unat tick"
      using restart_deadline [of sA tm] tick(2) True by (simp add: deadline_def now tm sA_def)
    have "0 < unat tick" "unat tick < 0x7fffffff" using tick by (simp_all add: word_less_nat_alt)
    then show ?thesis using d expired_iff [of s' x] by simp
  next
    case False
    then show ?thesis using p(3) x by (simp add: expired_def now tm)
  qed
  ultimately show ?thesis using F' by (simp add: timers_ok_def)
qed

lemma start_timeout_timers:
  assumes inv: "kinv s F" and sus: "suspended s t" and off: "detached F (Row (Thread_timer t) 0)"
    and tick: "0 < tick" "tick < RT_TICK_HALF"
  obtains s' F' where "start_timeout t tick s = Ok s'" "kinv s' F'" "\<And>h. h \<noteq> Timer_list 0 \<Longrightarrow> F' h = F h"
    "Row (Thread_timer t) 0 \<in> set (F' (Timer_list 0))" "thread s' = thread s"
    "rt_current_thread s' = rt_current_thread s" "rt_scheduler_lock_nest s' = rt_scheduler_lock_nest s" "mem s' = mem s"
    "rt_tick s' = rt_tick s"
    "timer s' = (timer s)(Thread_timer t := (timer s (Thread_timer t))\<lparr>tm_init_tick := tick, tm_timeout_tick := rt_tick s + tick\<rparr>)"
    "\<And>ts. timers_ok s F ts \<Longrightarrow> \<exists>us. timers_ok s' F' us \<and> set us = insert (Thread_timer t) (set ts)"
proof -
  let ?tm = "Thread_timer t"
  let ?F = "\<lambda>ts. (drop_timer ?tm F)(Timer_list 0 := map (\<lambda>t. Row t 0)
    (insert_by (\<lambda>tm. later (rt_tick s + tick) (tm_timeout_tick (timer s tm))) ?tm (remove1 ?tm ts)))"
  obtain s' ts where s': "start_timeout t tick s = Ok s'" "timer_nodes F (Timer_list 0) ts" "kinv s' (?F ts)"
      "thread s' = thread s" "rt_current_thread s' = rt_current_thread s"
      "rt_scheduler_lock_nest s' = rt_scheduler_lock_nest s" "mem s' = mem s" "rt_tick s' = rt_tick s"
      "timer s' = (timer s)(?tm := (timer s ?tm)\<lparr>tm_init_tick := tick, tm_timeout_tick := rt_tick s + tick\<rparr>)"
      "\<forall>x. periodic s' x = periodic s x"
    by (rule kinv_start_timeout [OF inv sus tick(2)]) blast
  have nin: "?tm \<notin> set ts"
  proof
    assume "?tm \<in> set ts"
    then have "Row ?tm 0 \<in> set (F (Timer_list 0))" using s'(2) by simp
    then show False using off by simp
  qed
  have one: "\<not> periodic s ?tm" using kinv_timer [OF inv, of t] sus by (simp add: thread_timer_ok_def)
  have "\<exists>us'. timers_ok s' (?F ts) us' \<and> set us' = insert ?tm (set us)" if us: "timers_ok s F us" for us
  proof -
    have "us = ts" using us s'(2) by (simp add: timers_ok_def map_injective inj_on_def)
    then show ?thesis
      using timers_ok_arm [OF us _ one tick s'(8,9), of "?F ts"] s'(10) nin by (auto simp: remove1_idem)
  qed
  then show ?thesis
    using that [of s' "?F ts"] s' drop_timer_id [OF off] by simp
qed

lemma sleep_settled:
  assumes st: "settled s F ts" and cb: "can_sleep s t" and tick: "0 < tick" "tick < RT_TICK_HALF"
  shows "\<exists>s' F' ts' v. rt_thread_sleep tick s = Ok s' \<and> settled s' F' ts' \<and> Thread_timer t \<in> set ts' \<and>
    tm_timeout_tick (timer s' (Thread_timer t)) = rt_tick s + tick \<and> rt_tick s' = rt_tick s \<and>
    rt_current_thread s' = Some v \<and> top_thread s' v \<and> cont s' t = Some C_sleep"
proof -
  have p: "kinv s F" "kgood s" "timers_ok s F ts" using st by (simp_all add: settled_iff)
  have c: "rt_current_thread s = Some t" "ready s t" "rt_scheduler_lock_nest s = 0" using cb by (simp_all add: can_sleep_def)
  define s1 where "s1 = snd (rt_thread_suspend t s)"
  note inv1 = kinv_thread_suspend(1) [OF p(1) c(2), folded s1_def]
  note sus1 = kinv_thread_suspend(2) [OF p(1) c(2), folded s1_def]
  have f1: "timer s1 = timer s" "rt_tick s1 = rt_tick s" "mem s1 = mem s"
      "rt_current_thread s1 = rt_current_thread s" "rt_scheduler_lock_nest s1 = rt_scheduler_lock_nest s"
    by (simp_all add: s1_def rt_thread_suspend_def rt_timer_stop_def rt_schedule_remove_thread_def Let_def)
  have ok1: "timers_ok s1 (drop_thread t F) ts"
  proof (rule timers_ok_cong [OF p(3)])
    show "periodic s1 x = periodic s x" for x
      by (simp add: s1_def rt_thread_suspend_def rt_timer_stop_def Let_def flag_bits)
    show "drop_thread t F (Timer_list 0) = F (Timer_list 0)"
      using p(3) by (simp add: timers_ok_def drop_thread_def remove1_idem image_iff)
  qed (simp_all add: f1)
  have off: "detached (drop_thread t F) (Row (Thread_timer t) 0)"
    using kinv_ready_timer_off [OF p(1), of t] c(2) by (auto dest: drop_subset)
  obtain s2 F2 where s2: "start_timeout t tick s1 = Ok s2" "kinv s2 F2" "thread s2 = thread s1"
      "rt_current_thread s2 = rt_current_thread s1" "rt_scheduler_lock_nest s2 = rt_scheduler_lock_nest s1"
      "mem s2 = mem s1" "rt_tick s2 = rt_tick s1" "timer s2 = (timer s1)(Thread_timer t :=
         (timer s1 (Thread_timer t))\<lparr>tm_init_tick := tick, tm_timeout_tick := rt_tick s1 + tick\<rparr>)"
    and t2: "\<And>ts. timers_ok s1 (drop_thread t F) ts \<Longrightarrow> \<exists>us. timers_ok s2 F2 us \<and> set us = insert (Thread_timer t) (set ts)"
    by (rule start_timeout_timers [OF inv1 sus1 off tick]) blast
  obtain us where us: "timers_ok s2 F2 us" "set us = insert (Thread_timer t) (set ts)" using t2 [OF ok1] by blast
  define s3 where "s3 = s2\<lparr>cont := (cont s2)(t := Some C_sleep)\<rparr>"
  have inv3: "kinv s3 F2" by (rule kinv_cong [OF s2(2)]) (simp_all add: s3_def same_defs)
  have good3: "kgood s3"
    by (rule kgood_cong [OF kgood_suspend [OF p(2) c(2)]]) (simp_all add: s3_def s2 f1 suspend_frame flip: s1_def)
  obtain u where u: "u \<noteq> t" "ready s u" using cb by (auto simp: can_sleep_def)
  have u3: "ready s3 u" using u suspend_frame(5) [of u t s] by (simp add: s3_def s2(3) s1_def)
  have lock3: "rt_scheduler_lock_nest s3 = 0" using c(3) f1 s2(5) by (simp add: s3_def)
  obtain s' where s': "rt_schedule s3 = Ok s'" "kinv s' F2" "rt_current_thread s' \<noteq> None"
    and e: "s' = s3\<lparr>rt_current_priority := rt_current_priority s', rt_current_thread := rt_current_thread s'\<rparr>"
    and top: "rt_scheduler_lock_nest s3 = 0 \<Longrightarrow> (\<exists>v. rt_current_thread s' = Some v \<and> top_thread s3 v)"
    by (rule schedule_total [OF inv3 good3 u3]) blast
  obtain v where v: "rt_current_thread s' = Some v" "top_thread s3 v" using top lock3 by blast
  have e': "thread s' = thread s2" "timer s' = timer s2" "rt_tick s' = rt_tick s2" "object s' = object s2"
      "cont s' = (cont s2)(t := Some C_sleep)"
    by (subst e, simp add: s3_def)+
  have "rt_thread_sleep tick s = Ok s'"
    using s'(1) s2(1) by (simp add: rt_thread_sleep_eq [OF c(1)] s1_def [symmetric] s3_def)
  moreover have "settled s' F2 us"
    using s'(2) kgood_schedule [OF good3 s'(3) e] timers_ok_cong [OF us(1), of s' F2] by (simp add: settled_iff e')
  moreover have "top_thread s' v" using v(2) by (simp add: top_thread_def e' s3_def)
  ultimately show ?thesis
    using v(1) us(2) by (intro exI [of _ s'] exI [of _ F2] exI [of _ us] exI [of _ v]) (simp add: e' s2(7,8) f1)
qed

text \<open>
  Sleeping \<open>n\<close> ticks: the thread is off the processor for the next \<open>n - 1\<close> ticks and ready again after the
  \<open>n\<close>-th.
\<close>

lemma sleep_wakes:
  assumes st: "settled s F ts" and cb: "can_sleep s t" and q: "quiet env" and n: "0 < n" "n < 0x7fffffff"
  shows "\<exists>s1. rt_thread_sleep (of_nat n) s = Ok s1 \<and>
    (\<forall>k < n. \<exists>s2. ticks env k s1 = Ok s2 \<and> suspended s2 t) \<and>
    (\<exists>s2. ticks env n s1 = Ok s2 \<and> ready s2 t \<and> th_error (thread s2 t) = - RT_ETIMEOUT)"
proof -
  obtain m where m: "n = Suc m" using n(1) by (cases n) auto
  have un: "unat (of_nat n :: u32) = n" using n(2) by (simp add: unat_of_nat take_bit_nat_eq_self)
  have w: "(0 :: u32) < of_nat n" "(of_nat n :: u32) < RT_TICK_HALF"
    using n un by (simp_all add: word_less_nat_alt)
  obtain s1 F1 ts1 v where s1: "rt_thread_sleep (of_nat n) s = Ok s1" "settled s1 F1 ts1" "Thread_timer t \<in> set ts1"
      "tm_timeout_tick (timer s1 (Thread_timer t)) = rt_tick s + of_nat n" "rt_tick s1 = rt_tick s"
      "top_thread s1 v"
    using sleep_settled [OF st cb w] by blast
  have v: "ready s1 v" using s1(6) by (simp add: top_thread_def)
  have d: "tm_timeout_tick (timer s1 (Thread_timer t)) = rt_tick s1 + of_nat (Suc m)" using s1(4,5) m by simp
  have lt: "Suc m < 2 ^ 32" using n(2) m by simp
  show ?thesis
    using ticks_wake [OF s1(2) q v s1(3) d lt] s1(1) by (simp add: m less_Suc_eq_le)
qed

section \<open>The idle thread\<close>

text \<open>
  One round of the idle thread takes the first closed thread off the list of defunct threads; a
  dynamic one has its stack freed and its object deleted.
\<close>

lemma idle_unlinks:
  assumes inv: "kinv s F" and good: "kgood s" and u: "ready s u" and irq: "rt_interrupt_nest s = 0"
    and lock: "rt_scheduler_lock_nest s = 0"
    and def: "F Thread_defunct = Tlist t # q" and dyn: "\<not> rt_object_is_systemobject (O_thread t) s"
    and cl: "th_cleanup (thread s t) = None"
  obtains s1 where "idle_step cleanup IP_top s = Ok (IP_free t, s1)" "kinv s1 (F(Thread_defunct := q))" "kgood s1"
    "thread s1 = thread s" "object s1 = object s" "kfreed s1 = kfreed s" "ready s1 u"
proof -
  let ?F = "F(Thread_defunct := q)"
  define s0 where "s0 = s\<lparr>links := rt_list_remove (Tlist t) (links s)\<rparr>"
  have nx: "lnext (links s) Thread_defunct = Tlist t"
    using lists_wf_next [OF kinv_wf [OF inv], of Thread_defunct "[]"] def by simp
  have st: "th_state (thread s t) = RT_THREAD_CLOSE" using kinv_node [OF inv, of "Tlist t" Thread_defunct] def by simp
  have "kinv s0 (\<lambda>h. remove1 (Tlist t) (F h))"
    unfolding s0_def by (rule kinv_remove_tlist [OF inv]) (simp add: st)
  then have inv0: "kinv s0 ?F"
    using remove1_upd [OF kinv_wf [OF inv], of "Tlist t" Thread_defunct] def by simp
  have good0: "kgood s0" by (rule kgood_cong [OF good]) (simp_all add: s0_def)
  have u0: "ready s0 u" using u by (simp add: s0_def)
  obtain s1 where s1: "rt_schedule s0 = Ok s1" "kinv s1 ?F" "rt_current_thread s1 \<noteq> None"
    and e: "s1 = s0\<lparr>rt_current_priority := rt_current_priority s1, rt_current_thread := rt_current_thread s1\<rparr>"
    by (rule schedule_total [OF inv0 good0 u0]) blast
  have f: "thread s1 = thread s" "object s1 = object s" "kfreed s1 = kfreed s" by (subst e, simp add: s0_def)+
  have c0: "s0\<lparr>rt_scheduler_lock_nest := 0\<rparr> = s0" using lock by (simp add: s0_def)
  have "idle_step cleanup IP_top s = Ok (IP_free t, s1)"
    using s1(1) irq lock dyn cl unfolding s0_def
    by (simp add: has_defunct_thread_def nx not_in_interrupt_def rassert_def rt_enter_critical_def
        rt_exit_critical_def rt_object_is_systemobject_def c0 [unfolded s0_def])
  then show ?thesis using that s1(2) kgood_schedule [OF good0 s1(3) e] f u by simp
qed

lemma idle_frees:
  assumes inv: "kinv s F" and dyn: "\<not> rt_object_is_systemobject (O_thread t) s"
  obtains s1 where "idle_step cleanup (IP_free t) s = Ok (IP_top, s1)" "kinv s1 (drop_obj (O_thread t) F)"
    "kfreed s1 = kfreed s @ [K_stack t, K_object (O_thread t)]"
proof -
  define s1 where "s1 = (rt_object_detach (O_thread t) s)\<lparr>kfreed := kfreed s @ [K_stack t, K_object (O_thread t)]\<rparr>"
  have "kinv s1 (drop_obj (O_thread t) F)"
    unfolding s1_def by (rule kinv_cong [OF kinv_object_detach [OF inv]]) (simp_all add: same_defs)
  moreover have "idle_step cleanup (IP_free t) s = Ok (IP_top, s1)"
    using dyn by (simp add: rt_object_delete_def rassert_def rt_object_is_systemobject_def s1_def rt_object_detach_def)
  ultimately show ?thesis using that by (simp add: s1_def)
qed

section \<open>Objects by name\<close>

lemma object_find_loop_spec:
  assumes wf: "lists_wf heads (links s) F" and obs: "F (Object_list c) = map Obj_node (xs @ ys)"
  shows "object_find_loop (Object_list c) name s (hd (map Obj_node ys @ [Object_list c])) =
    Some (Ok (find (\<lambda>ob. same_upto (ob_name (object s ob)) name RT_NAME_MAX) ys))"
  using obs
proof (induction ys arbitrary: xs)
  case Nil
  then show ?case by (simp add: object_find_loop.simps)
next
  case (Cons y ys)
  have "lnext (links s) (last (Object_list c # map Obj_node (xs @ [y]))) = hd (map Obj_node ys @ [Object_list c])"
    using Cons.prems by (intro lists_wf_next [OF wf]) simp_all
  then have "lnext (links s) (Obj_node y) = hd (map Obj_node ys @ [Object_list c])" by simp
  then show ?case
    using Cons.IH [of "xs @ [y]"] Cons.prems by (simp add: object_find_loop.simps rt_strncmp_eq_0)
qed

lemma object_find_ok:
  assumes inv: "kinv s F" and good: "kgood s" and u: "ready s u" and irq: "rt_interrupt_nest s = 0"
    and lock: "rt_scheduler_lock_nest s = 0" and c: "c \<noteq> Class_Module" "c \<noteq> Class_Unknown"
    and obs: "F (Object_list c) = map Obj_node obs"
  shows "\<exists>s'. rt_object_find (Some name) (class_code c) s =
      Ok (find (\<lambda>ob. same_upto (ob_name (object s ob)) name RT_NAME_MAX) obs, s') \<and> kinv s' F"
proof -
  obtain s' where s': "rt_schedule s = Ok s'" "kinv s' F"
    by (rule schedule_total [OF inv good u]) blast
  have le: "\<not> class_code c > 11" by (cases c) simp_all
  have nx: "lnext (links s) (Object_list c) = hd (map Obj_node obs @ [Object_list c])"
    using lists_wf_next [OF kinv_wf [OF inv], of "Object_list c" "[]" "map Obj_node obs"] obs by simp
  have lk: "s\<lparr>rt_scheduler_lock_nest := 0\<rparr> = s" using lock by simp
  define s1 where "s1 = rt_enter_critical s"
  have f1: "links s1 = links s" "object s1 = object s" by (simp_all add: s1_def rt_enter_critical_def)
  have "object_find_loop (Object_list c) name s1 (lnext (links s1) (Object_list c)) =
      Some (Ok (find (\<lambda>ob. same_upto (ob_name (object s1 ob)) name RT_NAME_MAX) obs))"
    using object_find_loop_spec [of s1 F c "[]" obs name] kinv_wf [OF inv] obs nx by (simp add: f1)
  moreover have "rt_exit_critical s1 = Ok s'"
    using s'(1) lock by (simp add: s1_def rt_enter_critical_def rt_exit_critical_def lk)
  ultimately show ?thesis
    using s'(2) irq c le f1 unfolding rt_object_find_def s1_def [symmetric] Let_def
    by (simp add: not_in_interrupt_def rassert_def s1_def [symmetric] loop_res_def)
qed

lemma strncpy_same: "same_upto (rt_strncpy d name n) name n"
  unfolding same_upto_def
proof (intro allI impI)
  fix i assume i: "i < n" "\<forall>k<i. rt_strncpy d name n k \<noteq> 0"
  have "name k \<noteq> 0" if "k < i" for k
    using that i by (auto simp: rt_strncpy_nth split: if_splits)
  then show "rt_strncpy d name n i = name i" using i(1) by (auto simp: rt_strncpy_nth)
qed

end
