(* ===== verification/RT_IPC.thy ===== *)
theory RT_IPC
  imports RT_Tick_Run
begin

text \<open>
  What the IPC objects of \<^verbatim>\<open>src/src/ipc.c\<close> share: the list of threads suspended on an object, in
  order of arrival or of priority, and the resumption of its first thread or of all of them.
\<close>

section \<open>Operations\<close>

definition rt_ipc_object_init :: "ipc_ref \<Rightarrow> kstate \<Rightarrow> kstate" where
  "rt_ipc_object_init r s = upd_links (rt_list_init (Suspend_thread r)) s"

text \<open>The node before which a thread of priority \<open>prio\<close> is inserted, walking from \<open>n\<close>.\<close>

partial_function (option) ipc_prio_pos :: "node \<Rightarrow> u8 \<Rightarrow> kstate \<Rightarrow> node \<Rightarrow> node res option" where
  "ipc_prio_pos list prio s n =
     (if n \<noteq> list then
        (case thread_entry n of
           Fault e \<Rightarrow> Some (Fault e)
         | Ok sthread \<Rightarrow>
             if prio < th_current_priority (thread s sthread) then Some (Ok (Tlist sthread))
             else ipc_prio_pos list prio s (lnext (links s) n))
      else Some (Ok list))"

definition rt_ipc_list_suspend :: "node \<Rightarrow> thread_id \<Rightarrow> u8 \<Rightarrow> kstate \<Rightarrow> kstate res" where
  "rt_ipc_list_suspend list t flag s =
     (let (r, s) = rt_thread_suspend t s
      in if flag = RT_IPC_FLAG_FIFO then Ok (upd_links (rt_list_insert_before list (Tlist t)) s)
         else if flag = RT_IPC_FLAG_PRIO then
           rbind (loop_res (ipc_prio_pos list (th_current_priority (thread s t)) s (lnext (links s) list))) (\<lambda>n.
           Ok (upd_links (rt_list_insert_before n (Tlist t)) s))
         else Ok s)"

definition rt_ipc_list_resume :: "node \<Rightarrow> kstate \<Rightarrow> kstate res" where
  "rt_ipc_list_resume list s =
     rbind (thread_entry (lnext (links s) list)) (\<lambda>t.
     (let (r, s) = rt_thread_resume t s in Ok s))"

partial_function (option) ipc_resume_all_loop :: "node \<Rightarrow> kstate \<Rightarrow> kstate res option" where
  "ipc_resume_all_loop list s =
     (if rt_list_isempty list (links s) then Some (Ok s)
      else
        (case thread_entry (lnext (links s) list) of
           Fault e \<Rightarrow> Some (Fault e)
         | Ok t \<Rightarrow>
             ipc_resume_all_loop list
               (snd (rt_thread_resume t (upd_thread t (\<lambda>th. th\<lparr>th_error := - RT_ERROR\<rparr>) s)))))"

definition rt_ipc_list_resume_all :: "node \<Rightarrow> kstate \<Rightarrow> kstate res" where
  "rt_ipc_list_resume_all list s = loop_res (ipc_resume_all_loop list s)"

text \<open>
  The steps that every blocking call repeats after it has suspended the thread: a positive waiting
  time starts the thread's timer.
\<close>

definition wait_timer :: "thread_id \<Rightarrow> u32 \<Rightarrow> kstate \<Rightarrow> kstate res" where
  "wait_timer t timeout s =
     (if sint timeout > 0
      then (let (r, s) = rt_timer_control (Thread_timer t) (Timer_set_time timeout) s
            in rbind (rt_timer_start (Thread_timer t) s) (\<lambda>(r, s). Ok s))
      else Ok s)"

text \<open>\<open>None\<close> as the value of a call is a call that has not returned: the thread has switched away.\<close>

definition block :: "thread_id \<Rightarrow> cont \<Rightarrow> kstate \<Rightarrow> ('a option \<times> kstate) res" where
  "block t c s = rbind (rt_schedule (s\<lparr>cont := (cont s)(t := Some c)\<rparr>)) (\<lambda>s. Ok (None, s))"

section \<open>Suspending on a list\<close>

definition wait_head :: "node \<Rightarrow> bool" where
  "wait_head h \<longleftrightarrow> (\<exists>r. h = Suspend_thread r) \<or> (\<exists>r. h = Suspend_sender r)"

abbreviation waiters :: "(node \<Rightarrow> node list) \<Rightarrow> node \<Rightarrow> thread_id list \<Rightarrow> bool" where
  "waiters F h ws \<equiv> F h = map Tlist ws"

lemma wait_head_simps [simp]: "wait_head (Suspend_thread r)" "wait_head (Suspend_sender i)"
  by (simp_all add: wait_head_def)

lemma wait_head_is_head: "wait_head h \<Longrightarrow> is_head h \<and> (\<forall>p. h \<noteq> Priority_table p) \<and> (\<forall>i. h \<noteq> Timer_list i)"
  by (auto simp: wait_head_def)

lemma kinv_waiters:
  assumes "kinv s F" "wait_head h"
  obtains ws where "waiters F h ws" "\<And>t. t \<in> set ws \<Longrightarrow> suspended s t"
proof -
  have n: "\<exists>t. n = Tlist t \<and> suspended s t" if "n \<in> set (F h)" for n
    using kinv_node [OF assms(1) that] assms(2) by (auto simp: wait_head_def)
  have "\<exists>ws. F h = map Tlist ws"
    unfolding ex_map_conv using n by blast
  then obtain ws where ws: "F h = map Tlist ws" by blast
  moreover have "suspended s t" if "t \<in> set ws" for t
    using n [of "Tlist t"] ws that by auto
  ultimately show ?thesis using that by blast
qed

text \<open>The order in which threads wait: by arrival, or behind every thread at least as urgent.\<close>

definition prio_le :: "kstate \<Rightarrow> thread_id \<Rightarrow> thread_id \<Rightarrow> bool" where
  "prio_le s u t \<longleftrightarrow> th_current_priority (thread s u) \<le> th_current_priority (thread s t)"

definition enqueue :: "u8 \<Rightarrow> kstate \<Rightarrow> thread_id \<Rightarrow> thread_id list \<Rightarrow> thread_id list" where
  "enqueue flag s t ws =
     (if flag = RT_IPC_FLAG_PRIO
      then takeWhile (\<lambda>u. prio_le s u t) ws @ t # dropWhile (\<lambda>u. prio_le s u t) ws
      else ws @ [t])"

lemma set_enqueue [simp]: "set (enqueue flag s t ws) = insert t (set ws)"
proof -
  have "set ws = set (takeWhile (\<lambda>u. prio_le s u t) ws) \<union> set (dropWhile (\<lambda>u. prio_le s u t) ws)"
    by (metis set_append takeWhile_dropWhile_id)
  then show ?thesis by (auto simp: enqueue_def)
qed

lemma ipc_prio_pos_spec:
  assumes wf: "lists_wf heads (links s) F" and h: "is_head h" and F: "F h = map Tlist (xs @ ys)"
  shows "ipc_prio_pos h p s (hd (map Tlist ys @ [h])) =
    Some (Ok (hd (map Tlist (dropWhile (\<lambda>u. th_current_priority (thread s u) \<le> p) ys) @ [h])))"
  using F
proof (induction ys arbitrary: xs)
  case Nil
  show ?case by (subst ipc_prio_pos.simps) simp
next
  case (Cons u ys)
  have ne: "Tlist u \<noteq> h" using h by auto
  have nx: "lnext (links s) (Tlist u) = hd (map Tlist ys @ [h])"
    using rl.nxt_member [OF wf, of h "map Tlist xs" "Tlist u" "map Tlist ys"] Cons.prems by simp
  show ?case
  proof (cases "p < th_current_priority (thread s u)")
    case True
    then have "\<not> th_current_priority (thread s u) \<le> p" by simp
    then show ?thesis using True ne by (subst ipc_prio_pos.simps) simp
  next
    case False
    then have "th_current_priority (thread s u) \<le> p" by simp
    then show ?thesis
      using False ne nx Cons.IH [of "xs @ [u]"] Cons.prems by (subst ipc_prio_pos.simps) simp
  qed
qed

lemma suspend_thread_eq:
  "snd (rt_thread_suspend t s) = s\<lparr>links := links (snd (rt_thread_suspend t s)), thread := thread (snd (rt_thread_suspend t s)),
     object := object (snd (rt_thread_suspend t s)), rt_thread_ready_table := rt_thread_ready_table (snd (rt_thread_suspend t s)),
     rt_thread_ready_priority_group := rt_thread_ready_priority_group (snd (rt_thread_suspend t s))\<rparr>"
  by (simp add: rt_thread_suspend_def rt_timer_stop_def rt_schedule_remove_thread_def Let_def)

lemma suspend_thread_fields:
  "th_current_priority (thread (snd (rt_thread_suspend t s)) u) = th_current_priority (thread s u)"
  by (simp add: rt_thread_suspend_def rt_timer_stop_def rt_schedule_remove_thread_def Let_def)

lemma drop_thread_wait:
  assumes "kinv s F" "ready s t" "wait_head h"
  shows "drop_thread t F h = F h"
  using drop_thread_ready_head [OF assms(1,2)] assms(3) by (auto simp: wait_head_def)

lemma ipc_list_suspend_ok:
  assumes inv: "kinv s F" and rdy: "ready s t" and h: "wait_head h" and ws: "waiters F h ws"
    and flag: "flag = RT_IPC_FLAG_FIFO \<or> flag = RT_IPC_FLAG_PRIO"
  obtains s' where "rt_ipc_list_suspend h t flag s = Ok s'"
    "kinv s' ((drop_thread t F)(h := map Tlist (enqueue flag s t ws)))" "suspended s' t"
    "s' = (snd (rt_thread_suspend t s))\<lparr>links := links s'\<rparr>"
proof -
  define s1 where "s1 = snd (rt_thread_suspend t s)"
  note inv1 = kinv_thread_suspend(1) [OF inv rdy, folded s1_def]
  note sus1 = kinv_thread_suspend(2) [OF inv rdy, folded s1_def]
  have F1: "drop_thread t F h = map Tlist ws" using drop_thread_wait [OF inv rdy h] ws by simp
  have pr: "prio_le s u t \<longleftrightarrow> th_current_priority (thread s1 u) \<le> th_current_priority (thread s1 t)" for u
    by (simp add: prio_le_def s1_def suspend_thread_fields)
  define xs where "xs = (if flag = RT_IPC_FLAG_PRIO then takeWhile (\<lambda>u. prio_le s u t) ws else ws)"
  define ys where "ys = (if flag = RT_IPC_FLAG_PRIO then dropWhile (\<lambda>u. prio_le s u t) ws else [])"
  have xy: "ws = xs @ ys" "enqueue flag s t ws = xs @ t # ys"
    by (simp_all add: xs_def ys_def enqueue_def)
  define n where "n = hd (map Tlist ys @ [h])"
  define s' where "s' = s1\<lparr>links := rt_list_insert_before n (Tlist t) (links s1)\<rparr>"
  have ok: "rt_ipc_list_suspend h t flag s = Ok s'"
  proof (cases "flag = RT_IPC_FLAG_PRIO")
    case True
    have nx: "lnext (links s1) h = hd (map Tlist ws @ [h])"
      using rl.nxt_head [OF kinv_wf [OF inv1], of h] F1 wait_head_is_head [OF h] by simp
    have "ipc_prio_pos h (th_current_priority (thread s1 t)) s1 (hd (map Tlist ws @ [h])) = Some (Ok n)"
      using ipc_prio_pos_spec [OF kinv_wf [OF inv1], of h "[]" ws] F1 wait_head_is_head [OF h] True
      by (simp add: n_def ys_def pr)
    then show ?thesis
      using True nx by (simp add: rt_ipc_list_suspend_def s1_def [symmetric] case_prod_beta Let_def s'_def)
  next
    case False
    then have "flag = RT_IPC_FLAG_FIFO" "n = h" using flag by (simp_all add: n_def ys_def)
    then show ?thesis
      by (simp add: rt_ipc_list_suspend_def s1_def [symmetric] case_prod_beta Let_def s'_def)
  qed
  have "kinv s' ((drop_thread t F)(h := map Tlist xs @ Tlist t # map Tlist ys))"
    unfolding s'_def n_def
    by (rule kinv_wait [OF inv1 sus1 drop_thread_detaches [OF inv] h [unfolded wait_head_def]])
      (simp add: F1 xy(1))
  then have "kinv s' ((drop_thread t F)(h := map Tlist (enqueue flag s t ws)))" by (simp add: xy(2))
  then show ?thesis
    using that [OF ok] sus1 by (simp add: s'_def s1_def)
qed

text \<open>Memory pools put the thread in front of the others instead.\<close>

lemma suspend_front_ok:
  assumes inv: "kinv s F" and rdy: "ready s t" and h: "wait_head h" and ws: "waiters F h ws"
  shows "kinv (upd_links (rt_list_insert_after h (Tlist t)) (snd (rt_thread_suspend t s))) ((drop_thread t F)(h := map Tlist (t # ws)))"
    and "suspended (upd_links (rt_list_insert_after h (Tlist t)) (snd (rt_thread_suspend t s))) t"
proof -
  define s1 where "s1 = snd (rt_thread_suspend t s)"
  note inv1 = kinv_thread_suspend(1) [OF inv rdy, folded s1_def]
  note sus1 = kinv_thread_suspend(2) [OF inv rdy, folded s1_def]
  have F1: "drop_thread t F h = map Tlist ws" using drop_thread_wait [OF inv rdy h] ws by simp
  note det = drop_thread_detaches [OF inv, of t]
  have hh: "h \<in> heads" using wait_head_is_head [OF h] by simp
  have "lseg (links s1) h ([] @ map Tlist ws) h" using lists_wf_ring [OF kinv_wf [OF inv1] hh] F1 by simp
  moreover have "Tlist t \<notin> set (h # [] @ map Tlist ws)" using det F1 hh by (metis append_Nil heads_iff is_head.simps set_ConsD)
  ultimately have eq: "rt_list_insert_before (hd (map Tlist ws @ [h])) (Tlist t) (links s1) = rt_list_insert_after h (Tlist t) (links s1)"
    using insert_gap_links(5) [of "links s1" h "[]" "map Tlist ws" "Tlist t" h] by simp
  have "kinv (s1\<lparr>links := rt_list_insert_before (hd (map Tlist ws @ [h])) (Tlist t) (links s1)\<rparr>) ((drop_thread t F)(h := [] @ Tlist t # map Tlist ws))"
    by (rule kinv_wait [OF inv1 sus1 det h [unfolded wait_head_def]]) (simp add: F1)
  from this [unfolded eq]
  show "kinv (upd_links (rt_list_insert_after h (Tlist t)) (snd (rt_thread_suspend t s))) ((drop_thread t F)(h := map Tlist (t # ws)))"
    by (simp add: s1_def)
  show "suspended (upd_links (rt_list_insert_after h (Tlist t)) (snd (rt_thread_suspend t s))) t"
    using sus1 by (simp add: s1_def)
qed

section \<open>Resuming from a list\<close>

lemma make_ready_wait:
  assumes inv: "kinv s F" and h: "wait_head h" and ws: "waiters F h (t # ws)"
  shows "make_ready s t F h = map Tlist ws"
proof -
  have "h \<noteq> ready_head s t" using h by (auto simp: wait_head_def)
  moreover have "Row (Thread_timer t) 0 \<notin> set (F h)"
    using kinv_node [OF inv, of "Row (Thread_timer t) 0" h] h by (auto simp: wait_head_def)
  ultimately show ?thesis
    using ws by (simp add: make_ready_def drop_timer_def drop_thread_def Let_def remove1_idem)
qed

lemma ipc_list_resume_ok:
  assumes inv: "kinv s F" and h: "wait_head h" and ws: "waiters F h (t # ws)"
  shows "rt_ipc_list_resume h s = Ok (snd (rt_thread_resume t s))"
    and "kinv (snd (rt_thread_resume t s)) (make_ready s t F)"
    and "make_ready s t F h = map Tlist ws"
proof -
  have "lnext (links s) h = Tlist t"
    using rl.nxt_head [OF kinv_wf [OF inv], of h] ws wait_head_is_head [OF h] by simp
  then show "rt_ipc_list_resume h s = Ok (snd (rt_thread_resume t s))"
    by (simp add: rt_ipc_list_resume_def case_prod_beta)
  have "suspended s t"
    using kinv_node [OF inv, of "Tlist t" h] ws h by (auto simp: wait_head_def)
  then show "kinv (snd (rt_thread_resume t s)) (make_ready s t F)"
    by (rule kinv_thread_resume(1) [OF inv])
  show "make_ready s t F h = map Tlist ws" by (rule make_ready_wait [OF assms])
qed

lemma resume_fields:
  assumes "suspended s t"
  shows "thread (snd (rt_thread_resume t s)) =
     (thread s)(t := (thread s t)\<lparr>th_stat := RT_THREAD_READY OR (th_stat (thread s t) AND NOT RT_THREAD_STAT_MASK)\<rparr>)"
    and "snd (rt_thread_resume t s) = s\<lparr>links := links (snd (rt_thread_resume t s)), thread := thread (snd (rt_thread_resume t s)),
     object := object (snd (rt_thread_resume t s)), rt_thread_ready_table := rt_thread_ready_table (snd (rt_thread_resume t s)),
     rt_thread_ready_priority_group := rt_thread_ready_priority_group (snd (rt_thread_resume t s))\<rparr>"
  using assms
  by (simp_all add: rt_thread_resume_def rt_timer_stop_def rt_schedule_insert_thread_def Let_def)

lemma resume_ready: "suspended s t \<Longrightarrow> ready (snd (rt_thread_resume t s)) t"
  using ready_stat by (simp add: resume_fields(1))

text \<open>Waking every waiter with an error: they all become ready, in order, and the list is empty.\<close>

lemma ipc_resume_all_ok:
  assumes "kinv s F" "wait_head h" "waiters F h ws"
  shows "\<exists>s' F'. rt_ipc_list_resume_all h s = Ok s' \<and> kinv s' F' \<and> F' h = [] \<and>
    (\<forall>t \<in> set ws. ready s' t \<and> th_error (thread s' t) = - RT_ERROR) \<and>
    (\<forall>t. t \<notin> set ws \<longrightarrow> thread s' t = thread s t) \<and>
    (\<forall>k. wait_head k \<longrightarrow> k \<noteq> h \<longrightarrow> F' k = F k) \<and>
    s' = s\<lparr>links := links s', thread := thread s', object := object s',
       rt_thread_ready_table := rt_thread_ready_table s', rt_thread_ready_priority_group := rt_thread_ready_priority_group s'\<rparr>"
  using assms
proof (induction ws arbitrary: s F)
  case Nil
  then have "rt_list_isempty h (links s)"
    using rl.isempty_iff [OF kinv_wf [OF Nil.prems(1)], of h] wait_head_is_head [OF Nil.prems(2)] by simp
  then have "rt_ipc_list_resume_all h s = Ok s"
    unfolding rt_ipc_list_resume_all_def by (subst ipc_resume_all_loop.simps) simp
  then show ?case using Nil.prems by (intro exI [of _ s] exI [of _ F]) simp
next
  case (Cons t ws)
  note inv = Cons.prems(1) and h = Cons.prems(2)
  define s1 where "s1 = upd_thread t (\<lambda>th. th\<lparr>th_error := - RT_ERROR\<rparr>) s"
  define s2 where "s2 = snd (rt_thread_resume t s1)"
  have inv1: "kinv s1 F" by (rule kinv_cong [OF inv]) (simp_all add: s1_def same_defs)
  note r = ipc_list_resume_ok [OF inv1 h Cons.prems(3), folded s2_def]
  have dist: "t \<notin> set ws"
    using lists_wf_distinct [OF kinv_wf [OF inv], of h] Cons.prems(3) by (auto simp: distinct_map)
  have sus: "suspended s1 t"
    using kinv_node [OF inv1, of "Tlist t" h] Cons.prems(3) h by (auto simp: wait_head_def)
  have nx: "\<not> rt_list_isempty h (links s)" "lnext (links s) h = Tlist t"
    using rl.isempty_iff [OF kinv_wf [OF inv], of h] rl.nxt_head [OF kinv_wf [OF inv], of h] Cons.prems(3)
      wait_head_is_head [OF h] by simp_all
  from Cons.IH [OF r(2) h r(3)] obtain s' F' where IH: "rt_ipc_list_resume_all h s2 = Ok s'" "kinv s' F'" "F' h = []"
      "\<forall>t \<in> set ws. ready s' t \<and> th_error (thread s' t) = - RT_ERROR"
      "\<forall>t. t \<notin> set ws \<longrightarrow> thread s' t = thread s2 t"
      "\<forall>k. wait_head k \<longrightarrow> k \<noteq> h \<longrightarrow> F' k = make_ready s1 t F k"
    and eq: "s' = s2\<lparr>links := links s', thread := thread s', object := object s',
       rt_thread_ready_table := rt_thread_ready_table s', rt_thread_ready_priority_group := rt_thread_ready_priority_group s'\<rparr>"
    by blast
  have "rt_ipc_list_resume_all h s = rt_ipc_list_resume_all h s2"
    unfolding rt_ipc_list_resume_all_def using nx
    by (subst ipc_resume_all_loop.simps) (simp add: s2_def s1_def)
  then have ok: "rt_ipc_list_resume_all h s = Ok s'" using IH(1) by simp
  have th2: "thread s2 = (thread s1)(t := (thread s1 t)\<lparr>th_stat := RT_THREAD_READY OR (th_stat (thread s1 t) AND NOT RT_THREAD_STAT_MASK)\<rparr>)"
    unfolding s2_def by (rule resume_fields(1) [OF sus])
  have t': "ready s' t \<and> th_error (thread s' t) = - RT_ERROR"
    using IH(5) dist ready_stat by (simp add: th2 s1_def)
  have other: "F' k = F k" if k: "wait_head k" "k \<noteq> h" for k
  proof -
    have "Tlist t \<notin> set (F k)"
      using lists_wf_unique [OF kinv_wf [OF inv], of "Tlist t" h k] Cons.prems(3) k(2) by auto
    moreover have "Row (Thread_timer t) 0 \<notin> set (F k)"
      using kinv_node [OF inv, of "Row (Thread_timer t) 0" k] k by (auto simp: wait_head_def)
    moreover have "k \<noteq> ready_head s1 t" using k by (auto simp: wait_head_def)
    ultimately show ?thesis
      using IH(6) k by (simp add: make_ready_def drop_timer_def drop_thread_def Let_def remove1_idem)
  qed
  have frame: "s' = s\<lparr>links := links s', thread := thread s', object := object s',
       rt_thread_ready_table := rt_thread_ready_table s', rt_thread_ready_priority_group := rt_thread_ready_priority_group s'\<rparr>"
    by (subst eq, subst s2_def, subst resume_fields(2) [OF sus]) (simp add: s1_def)
  have rest: "thread s' u = thread s u" if "u \<notin> set (t # ws)" for u
    using that IH(5) by (simp add: th2 s1_def)
  show ?case
    using ok IH(2,3,4) t' other frame rest by (intro exI [of _ s'] exI [of _ F']) simp
qed

section \<open>Blocking\<close>

lemma wait_timer_eq:
  "wait_timer t timeout s = (if sint timeout > 0 then start_timeout t timeout s else Ok s)"
  by (simp add: wait_timer_def start_timeout_def)

lemma positive_tick: "sint (timeout :: u32) > 0 \<Longrightarrow> timeout \<noteq> 0x7fffffff \<Longrightarrow> timeout < RT_TICK_HALF"
proof -
  assume a: "sint timeout > 0" "timeout \<noteq> 0x7fffffff"
  have "\<not> bit timeout 31" using bit_last_iff [of timeout] a(1) by simp
  then have "i < 31" if "bit timeout i" for i
    using that bit_imp_le_length [OF that] by (cases "i = 31") auto
  then have "take_bit 31 (uint timeout) = uint timeout"
    by (intro bit_eqI) (auto simp: bit_take_bit_iff bit_uint_iff)
  then have "uint timeout = sint timeout"
    using \<open>\<not> bit timeout 31\<close> by (simp add: sint_uint signed_take_bit_eq_if_positive bit_uint_iff)
  moreover have "sint timeout < 2 ^ 31" using sint_lt [of timeout] by simp
  ultimately have "unat timeout < 2 ^ 31" by (simp add: unat_eq_nat_uint nat_less_iff)
  moreover have "unat timeout \<noteq> 0x7fffffff" using a(2) by (simp add: word_unat_eq_iff)
  ultimately have "unat timeout < 0x7fffffff" by simp
  then show ?thesis by (simp add: word_less_nat_alt)
qed

text \<open>What a blocking call leaves alone: everything but lists, threads, timers and the scheduler.\<close>

definition ipc_frame :: "kstate \<Rightarrow> kstate \<Rightarrow> bool" where
  "ipc_frame s s' \<longleftrightarrow>
     mem s' = mem s \<and> sem s' = sem s \<and> mutex s' = mutex s \<and> event s' = event s \<and> mailbox s' = mailbox s \<and>
     msgqueue s' = msgqueue s \<and> mempool s' = mempool s \<and> rt_tick s' = rt_tick s \<and>
     rt_scheduler_lock_nest s' = rt_scheduler_lock_nest s \<and> rt_interrupt_nest s' = rt_interrupt_nest s \<and>
     kfreed s' = kfreed s \<and> rt_errno s' = rt_errno s \<and>
     (\<forall>r. object s' (O_ipc r) = object s (O_ipc r)) \<and> (\<forall>t. object s' (O_thread t) = object s (O_thread t))"

lemma ipc_frame_refl [simp]: "ipc_frame s s"
  by (simp add: ipc_frame_def)

lemma ipc_frame_trans [trans]: "ipc_frame s s' \<Longrightarrow> ipc_frame s' s'' \<Longrightarrow> ipc_frame s s''"
  by (simp add: ipc_frame_def)

lemma ipc_frame_suspend: "ipc_frame s (snd (rt_thread_suspend t s))"
  by (simp add: ipc_frame_def rt_thread_suspend_def rt_timer_stop_def rt_schedule_remove_thread_def Let_def)

lemma ipc_frame_resume: "ipc_frame s (snd (rt_thread_resume t s))"
  by (simp add: ipc_frame_def rt_thread_resume_def rt_timer_stop_def rt_schedule_insert_thread_def Let_def)

lemma ipc_frame_schedule: "rt_schedule s = Ok s' \<Longrightarrow> ipc_frame s s'"
  by (auto simp: ipc_frame_def rt_schedule_def rt_scheduler_stack_check_def Let_def split: if_splits option.splits)

lemma timer_start_insert_frame:
  "timer_start_insert tm s = Ok s' \<Longrightarrow> ipc_frame s s' \<and> thread s' = thread s \<and> cont s' = cont s \<and>
     rt_current_thread s' = rt_current_thread s \<and>
     (\<forall>i. tm_timeout_func (timer s' i) = tm_timeout_func (timer s i))"
  by (auto simp: timer_start_insert_def ipc_frame_def Let_def)

lemma start_timeout_frame:
  assumes "start_timeout t tick s = Ok s'" "thread_timer_ok s t"
  shows "ipc_frame s s' \<and> thread s' = thread s \<and> cont s' = cont s \<and> rt_current_thread s' = rt_current_thread s \<and>
     (\<forall>i. tm_timeout_func (timer s' i) = tm_timeout_func (timer s i))"
proof -
  let ?s = "s\<lparr>timer := (timer s)(Thread_timer t := (timer s (Thread_timer t))\<lparr>tm_init_tick := tick\<rparr>)\<rparr>"
  obtain r where r: "rt_timer_start (Thread_timer t) ?s = Ok (r, s')"
    using assms(1) by (auto simp: start_timeout_def)
  then obtain s1 where s1: "timer_start_insert (Thread_timer t) ?s = Ok s1"
    by (auto simp: rt_timer_start_def)
  have fl: "bit (ob_flag (object s1 (O_timer (Thread_timer t)))) 2 = bit (ob_flag (object s (O_timer (Thread_timer t)))) 2"
    using s1 by (auto simp: timer_start_insert_def Let_def flag_bits)
  then have "ob_flag (object s1 (O_timer (Thread_timer t))) AND 4 = 0"
    using assms(2) flag_bit_2 [of "ob_flag (object s1 (O_timer (Thread_timer t)))"] by (simp add: thread_timer_ok_def)
  then have "s' = s1" using r s1 by (simp add: rt_timer_start_def)
  then show ?thesis
    using timer_start_insert_frame [OF s1] by (auto simp: ipc_frame_def)
qed

definition ipc_block :: "node \<Rightarrow> u8 \<Rightarrow> thread_id \<Rightarrow> u32 \<Rightarrow> cont \<Rightarrow> kstate \<Rightarrow> ('a option \<times> kstate) res" where
  "ipc_block h flag t timeout c s =
     rbind (rt_ipc_list_suspend h t flag s) (\<lambda>s. rbind (wait_timer t timeout s) (\<lambda>s. block t c s))"

text \<open>The preconditions of a call that blocks: a running thread, and another one that can run.\<close>

definition can_block :: "kstate \<Rightarrow> thread_id \<Rightarrow> bool" where
  "can_block s t \<longleftrightarrow>
     kgood s \<and> rt_current_thread s = Some t \<and> ready s t \<and> rt_scheduler_lock_nest s = 0 \<and>
     rt_interrupt_nest s = 0 \<and> (\<exists>u. u \<noteq> t \<and> ready s u)"

definition armed :: "thread_id \<Rightarrow> u32 \<Rightarrow> timer_ref set \<Rightarrow> timer_ref set" where
  "armed t timeout T = (if sint timeout > 0 then insert (Thread_timer t) T else T)"

lemma wait_timer_ok:
  assumes inv: "kinv s F" and sus: "suspended s t" and time: "timeout \<noteq> 0x7fffffff"
    and off: "detached F (Row (Thread_timer t) 0)"
  obtains s' F' where "wait_timer t timeout s = Ok s'" "kinv s' F'"
    "\<And>h. h \<noteq> Timer_list 0 \<Longrightarrow> F' h = F h" "ipc_frame s s'" "thread s' = thread s" "cont s' = cont s"
    "rt_current_thread s' = rt_current_thread s"
    "\<forall>i. tm_timeout_func (timer s' i) = tm_timeout_func (timer s i)"
    "sint timeout > 0 \<Longrightarrow> Row (Thread_timer t) 0 \<in> set (F' (Timer_list 0)) \<and>
       tm_timeout_tick (timer s' (Thread_timer t)) = rt_tick s + timeout"
    "\<And>ts. timers_ok s F ts \<Longrightarrow> \<exists>us. timers_ok s' F' us \<and> set us = armed t timeout (set ts)"
proof (cases "sint timeout > 0")
  case False
  then show ?thesis using that [of s F] inv by (auto simp: wait_timer_eq armed_def)
next
  case True
  have tt: "thread_timer_ok s t" using kinv_timer [OF inv, of t] sus by simp
  have pos: "0 < timeout" using True by (simp add: word_neq_0_conv [symmetric]) auto
  obtain s' F' where s': "start_timeout t timeout s = Ok s'" "kinv s' F'" "\<And>h. h \<noteq> Timer_list 0 \<Longrightarrow> F' h = F h"
      "Row (Thread_timer t) 0 \<in> set (F' (Timer_list 0))" "timer s' = (timer s)(Thread_timer t :=
         (timer s (Thread_timer t))\<lparr>tm_init_tick := timeout, tm_timeout_tick := rt_tick s + timeout\<rparr>)"
    and ts: "\<And>ts. timers_ok s F ts \<Longrightarrow> \<exists>us. timers_ok s' F' us \<and> set us = insert (Thread_timer t) (set ts)"
    by (rule start_timeout_timers [OF inv sus off pos positive_tick [OF True time]]) blast
  show ?thesis
  proof (rule that [of s' F'])
    show "wait_timer t timeout s = Ok s'" using s' True by (simp add: wait_timer_eq)
    show "F' h = F h" if "h \<noteq> Timer_list 0" for h by (rule s'(3) [OF that])
    show "\<exists>us. timers_ok s' F' us \<and> set us = armed t timeout (set ts)" if "timers_ok s F ts" for ts
      using s' ts [OF that] True by (simp add: armed_def)
  qed (use start_timeout_frame [OF s'(1) tt] s' in simp_all)
qed

text \<open>
  \<open>blocked_on s F t h q timeout c s' F'\<close>: from \<open>s\<close>, thread \<open>t\<close> came to wait on the list \<open>h\<close>, which is now
  the queue \<open>q\<close>; a positive timeout is armed, the processor went to the most urgent other thread, and
  when \<open>t\<close> runs again it continues with \<open>c\<close>.
\<close>

definition blocked_on ::
    "kstate \<Rightarrow> (node \<Rightarrow> node list) \<Rightarrow> thread_id \<Rightarrow> node \<Rightarrow> thread_id list \<Rightarrow> u32 \<Rightarrow> cont \<Rightarrow> kstate \<Rightarrow> (node \<Rightarrow> node list) \<Rightarrow> bool" where
  "blocked_on s F t h q timeout c s' F' \<longleftrightarrow>
     kinv s' F' \<and> kgood s' \<and> suspended s' t \<and> F' h = map Tlist q \<and>
     (\<forall>k. wait_head k \<and> k \<noteq> h \<longrightarrow> F' k = F k) \<and>
     (\<exists>v. rt_current_thread s' = Some v \<and> v \<noteq> t \<and> top_thread s' v) \<and>
     cont s' = (cont s)(t := Some c) \<and> ipc_frame s s' \<and> (\<forall>u. u \<noteq> t \<longrightarrow> thread s' u = thread s u) \<and>
     th_event_set (thread s' t) = th_event_set (thread s t) \<and> th_event_info (thread s' t) = th_event_info (thread s t) \<and>
     (sint timeout > 0 \<longrightarrow> Row (Thread_timer t) 0 \<in> set (F' (Timer_list 0)) \<and>
        tm_timeout_tick (timer s' (Thread_timer t)) = rt_tick s + timeout) \<and>
     (\<forall>ts. timers_ok s F ts \<longrightarrow> (\<exists>us. timers_ok s' F' us \<and> set us = armed t timeout (set ts)))"

lemma wait_block_blocked:
  assumes inv: "kinv s F" and cb: "can_block s t" and h: "wait_head h" and time: "timeout \<noteq> 0x7fffffff"
    and sus1: "suspended s1 t" and inv1: "kinv s1 ((drop_thread t F)(h := map Tlist q))" (is "kinv s1 ?F1")
    and eq1: "s1 = (snd (rt_thread_suspend t s))\<lparr>links := links s1\<rparr>"
  shows "\<exists>s' F'. rbind (wait_timer t timeout s1) (\<lambda>s. block t c s) = Ok (None, s') \<and>
    blocked_on s F t h q timeout c s' F'"
proof -
  have rdy: "ready s t" using cb by (simp add: can_block_def)
  have fr1: "ipc_frame s s1"
    using ipc_frame_suspend [of s t] by (subst eq1) (simp add: ipc_frame_def)
  have th1: "thread s1 = thread (snd (rt_thread_suspend t s))" by (subst eq1) simp
  have c1: "cont s1 = cont s" "rt_current_thread s1 = rt_current_thread s" "timer s1 = timer s"
    by (subst eq1, subst suspend_thread_eq, simp)+
  have off0: "detached F (Row (Thread_timer t) 0)"
    using kinv_ready_timer_off [OF inv, of t] rdy by simp
  have off1: "detached ?F1 (Row (Thread_timer t) 0)"
    using off0 by (auto dest: drop_subset)
  obtain s2 F2 where s2: "wait_timer t timeout s1 = Ok s2" "kinv s2 F2" "\<And>h. h \<noteq> Timer_list 0 \<Longrightarrow> F2 h = ?F1 h"
      "ipc_frame s1 s2" "thread s2 = thread s1" "cont s2 = cont s1" "rt_current_thread s2 = rt_current_thread s1"
    and tf2: "\<forall>i. tm_timeout_func (timer s2 i) = tm_timeout_func (timer s1 i)"
    and arm: "sint timeout > 0 \<Longrightarrow> Row (Thread_timer t) 0 \<in> set (F2 (Timer_list 0)) \<and>
       tm_timeout_tick (timer s2 (Thread_timer t)) = rt_tick s1 + timeout"
    and ts2: "\<And>ts. timers_ok s1 ?F1 ts \<Longrightarrow> \<exists>us. timers_ok s2 F2 us \<and> set us = armed t timeout (set ts)"
    by (rule wait_timer_ok [OF inv1 sus1 time off1]) blast
  define s3 where "s3 = s2\<lparr>cont := (cont s2)(t := Some c)\<rparr>"
  have inv3: "kinv s3 F2" by (rule kinv_cong [OF s2(2)]) (simp_all add: s3_def same_defs)
  have th3: "thread s3 u = thread s u" if "u \<noteq> t" for u
    using that suspend_frame(5) [OF that, of s] by (simp add: s3_def s2(5) th1)
  have sus3: "suspended s3 t" using sus1 s2(5) by (simp add: s3_def)
  have fr3: "ipc_frame s s3"
    using ipc_frame_trans [OF fr1 s2(4)] by (simp add: ipc_frame_def s3_def)
  have g3: "kgood s3"
  proof (rule kgood_cong [OF kgood_suspend [OF _ rdy]])
    show "kgood s" using cb by (simp add: can_block_def)
    show "rt_current_thread s3 = rt_current_thread (snd (rt_thread_suspend t s))" by (simp add: s3_def s2(7) c1 suspend_frame)
    show "mem s3 = mem (snd (rt_thread_suspend t s))" using fr3 by (simp add: ipc_frame_def suspend_frame)
    show "tm_timeout_func (timer s3 i) = tm_timeout_func (timer (snd (rt_thread_suspend t s)) i)" for i
      using tf2 by (simp add: s3_def c1(3) suspend_frame)
  qed (simp_all add: s3_def s2(5) th1)
  obtain u where u: "u \<noteq> t" "ready s u" using cb by (auto simp: can_block_def)
  then have u3: "ready s3 u" using th3 by simp
  have lock3: "rt_scheduler_lock_nest s3 = 0" using fr3 cb by (simp add: ipc_frame_def can_block_def)
  obtain s' where s': "rt_schedule s3 = Ok s'" "kinv s' F2" "rt_current_thread s' \<noteq> None"
    and eq: "s' = s3\<lparr>rt_current_priority := rt_current_priority s', rt_current_thread := rt_current_thread s'\<rparr>"
    and top: "rt_scheduler_lock_nest s3 = 0 \<Longrightarrow> (\<exists>v. rt_current_thread s' = Some v \<and> top_thread s3 v)"
    by (rule schedule_total [OF inv3 g3 u3]) blast
  obtain v where v: "rt_current_thread s' = Some v" "top_thread s3 v" using top lock3 by blast
  have th': "thread s' = thread s3" "cont s' = cont s3" "timer s' = timer s3" by (subst eq, simp)+
  have "blocked_on s F t h q timeout c s' F2"
    unfolding blocked_on_def
  proof (intro conjI)
    show "kgood s'" by (rule kgood_schedule [OF g3 s'(3) eq])
    show "suspended s' t" using sus3 by (simp add: th')
    show "F2 h = map Tlist q"
      using s2(3) [of h] wait_head_is_head [OF h] by simp
    show "\<forall>k. wait_head k \<and> k \<noteq> h \<longrightarrow> F2 k = F k"
      using s2(3) wait_head_is_head drop_thread_wait [OF inv rdy] by simp
    have "v \<noteq> t" using v(2) sus3 by (auto simp: top_thread_def)
    moreover have "top_thread s' v" using v(2) by (simp add: top_thread_def th')
    ultimately show "\<exists>v. rt_current_thread s' = Some v \<and> v \<noteq> t \<and> top_thread s' v" using v(1) by blast
    show "cont s' = (cont s)(t := Some c)" by (simp add: th' s3_def s2(6) c1)
    show "ipc_frame s s'" using ipc_frame_trans [OF fr3 ipc_frame_schedule [OF s'(1)]] .
    show "\<forall>u. u \<noteq> t \<longrightarrow> thread s' u = thread s u" using th3 by (simp add: th')
    show "th_event_set (thread s' t) = th_event_set (thread s t)" "th_event_info (thread s' t) = th_event_info (thread s t)"
      by (simp_all add: th' s3_def s2(5) th1 rt_thread_suspend_def Let_def split_def)
    show "sint timeout > 0 \<longrightarrow> Row (Thread_timer t) 0 \<in> set (F2 (Timer_list 0)) \<and>
       tm_timeout_tick (timer s' (Thread_timer t)) = rt_tick s + timeout"
      using arm fr1 by (simp add: th' s3_def ipc_frame_def)
    have "\<exists>us. timers_ok s' F2 us \<and> set us = armed t timeout (set ts)" if ok: "timers_ok s F ts" for ts
    proof -
      have "timers_ok s1 ?F1 ts"
      proof (rule timers_ok_cong [OF ok])
        show "periodic s1 x = periodic s x" for x
          by (subst eq1) (simp add: rt_thread_suspend_def rt_timer_stop_def Let_def flag_bits)
        show "?F1 (Timer_list 0) = F (Timer_list 0)"
          using ok wait_head_is_head [OF h] by (auto simp: timers_ok_def drop_thread_def remove1_idem image_iff)
        show "rt_tick s1 = rt_tick s" using fr1 by (simp add: ipc_frame_def)
      qed (rule c1(3))
      then obtain us where us: "timers_ok s2 F2 us" "set us = armed t timeout (set ts)" using ts2 by blast
      have "object s' = object s3" "rt_tick s' = rt_tick s3" by (subst eq, simp)+
      then show ?thesis using us timers_ok_cong [OF us(1), of s' F2] th' by (auto simp: s3_def)
    qed
    then show "\<forall>ts. timers_ok s F ts \<longrightarrow> (\<exists>us. timers_ok s' F2 us \<and> set us = armed t timeout (set ts))" by blast
  qed (rule s'(2))
  moreover have "rbind (wait_timer t timeout s1) (\<lambda>s. block t c s) = Ok (None, s')"
    using s2(1) s'(1) by (simp add: block_def s3_def)
  ultimately show ?thesis by blast
qed

lemma ipc_block_blocked:
  assumes inv: "kinv s F" and cb: "can_block s t" and h: "wait_head h" and ws: "waiters F h ws"
    and flag: "flag = RT_IPC_FLAG_FIFO \<or> flag = RT_IPC_FLAG_PRIO" and time: "timeout \<noteq> 0x7fffffff"
  shows "\<exists>s' F'. ipc_block h flag t timeout c s = Ok (None, s') \<and>
    blocked_on s F t h (enqueue flag s t ws) timeout c s' F'"
proof -
  have rdy: "ready s t" using cb by (simp add: can_block_def)
  obtain s1 where s1: "rt_ipc_list_suspend h t flag s = Ok s1" "suspended s1 t"
    and inv1: "kinv s1 ((drop_thread t F)(h := map Tlist (enqueue flag s t ws)))"
    and eq1: "s1 = (snd (rt_thread_suspend t s))\<lparr>links := links s1\<rparr>"
    by (rule ipc_list_suspend_ok [OF inv rdy h ws flag])
  show ?thesis
    using wait_block_blocked [OF inv cb h time s1(2) inv1 eq1, where c = c] s1(1) by (simp add: ipc_block_def)
qed

lemma blocked_on_error:
  "blocked_on (upd_thread t (\<lambda>th. th\<lparr>th_error := e\<rparr>) s) F t h q timeout c s' F' \<Longrightarrow>
   blocked_on s F t h q timeout c s' F'"
  by (simp add: blocked_on_def ipc_frame_def)


lemma kgood_resume:
  assumes good: "kgood s" and sus: "suspended s t"
  shows "kgood (snd (rt_thread_resume t s))"
proof -
  let ?s = "snd (rt_thread_resume t s)"
  have fr: "ipc_frame s ?s" by (rule ipc_frame_resume)
  have th: "thread ?s = (thread s)(t := (thread s t)\<lparr>th_stat := RT_THREAD_READY OR (th_stat (thread s t) AND NOT RT_THREAD_STAT_MASK)\<rparr>)"
    by (rule resume_fields(1) [OF sus])
  have "stack_ok ?s u" if "th_state (thread ?s u) \<noteq> RT_THREAD_INIT" for u
  proof -
    have "th_state (thread s u) \<noteq> RT_THREAD_INIT" using that sus by (cases "u = t") (simp_all add: th)
    then have "stack_ok s u" using good by (simp add: kgood_def all_stacks_def)
    then show ?thesis using fr by (cases "u = t") (simp_all add: stack_ok_def th ipc_frame_def Let_def)
  qed
  moreover have "rt_current_thread ?s = rt_current_thread s" "timer ?s = timer s"
    by (subst resume_fields(2) [OF sus], simp)+
  ultimately show ?thesis using good by (simp add: kgood_def all_stacks_def)
qed

lemma kinv_error: "kinv s F \<Longrightarrow> kinv (upd_thread t (\<lambda>th. th\<lparr>th_error := e\<rparr>) s) F"
  by (rule kinv_cong) (simp_all add: same_defs)

lemma can_block_error:
  assumes "can_block s t"
  shows "can_block (upd_thread t (\<lambda>th. th\<lparr>th_error := e\<rparr>) s) t"
proof -
  have "kgood (upd_thread t (\<lambda>th. th\<lparr>th_error := e\<rparr>) s)"
    by (rule kgood_cong [of s]) (use assms in \<open>simp_all add: can_block_def\<close>)
  then show ?thesis using assms by (auto simp: can_block_def)
qed

text \<open>Waking the first waiter and rescheduling.\<close>

text \<open>
  \<open>woken s F t h q s' F'\<close>: thread \<open>t\<close>, first on the list \<open>h\<close>, became ready, \<open>q\<close> still waits there, and the
  processor is with the most urgent thread.
\<close>

definition woken ::
    "kstate \<Rightarrow> (node \<Rightarrow> node list) \<Rightarrow> thread_id \<Rightarrow> node \<Rightarrow> thread_id list \<Rightarrow> kstate \<Rightarrow> (node \<Rightarrow> node list) \<Rightarrow> bool" where
  "woken s F t h q s' F' \<longleftrightarrow>
     kinv s' F' \<and> kgood s' \<and> ready s' t \<and> F' h = map Tlist q \<and>
     (\<forall>k. wait_head k \<and> k \<noteq> h \<longrightarrow> F' k = F k) \<and>
     (\<forall>u. u \<noteq> t \<longrightarrow> thread s' u = thread s u) \<and> th_error (thread s' t) = th_error (thread s t) \<and>
     ipc_frame s s' \<and> cont s' = cont s \<and>
     (rt_scheduler_lock_nest s = 0 \<longrightarrow> (\<exists>v. rt_current_thread s' = Some v \<and> top_thread s' v))"

lemma ipc_wake_woken:
  assumes inv: "kinv s F" and good: "kgood s" and h: "wait_head h" and ws: "waiters F h (t # ws)"
  shows "\<exists>s1 s' F'. rt_ipc_list_resume h s = Ok s1 \<and> rt_schedule s1 = Ok s' \<and> woken s F t h ws s' F'"
proof -
  define s1 where "s1 = snd (rt_thread_resume t s)"
  note r = ipc_list_resume_ok [OF inv h ws, folded s1_def]
  have sus: "suspended s t"
    using kinv_node [OF inv, of "Tlist t" h] ws h by (auto simp: wait_head_def)
  have rdy1: "ready s1 t" unfolding s1_def by (rule resume_ready [OF sus])
  have good1: "kgood s1" unfolding s1_def by (rule kgood_resume [OF good sus])
  obtain s' where s': "rt_schedule s1 = Ok s'" "kinv s' (make_ready s t F)" "rt_current_thread s' \<noteq> None"
    and eq: "s' = s1\<lparr>rt_current_priority := rt_current_priority s', rt_current_thread := rt_current_thread s'\<rparr>"
    and top: "rt_scheduler_lock_nest s1 = 0 \<Longrightarrow> (\<exists>v. rt_current_thread s' = Some v \<and> top_thread s1 v)"
    by (rule schedule_total [OF r(2) good1 rdy1]) blast
  have th': "thread s' = thread s1" "cont s' = cont s1" by (subst eq, simp)+
  have c1: "cont s1 = cont s" unfolding s1_def by (subst resume_fields(2) [OF sus]) simp
  have th1: "thread s1 = (thread s)(t := (thread s t)\<lparr>th_stat := RT_THREAD_READY OR (th_stat (thread s t) AND NOT RT_THREAD_STAT_MASK)\<rparr>)"
    unfolding s1_def by (rule resume_fields(1) [OF sus])
  have fr: "ipc_frame s s1" unfolding s1_def by (rule ipc_frame_resume)
  have other: "make_ready s t F k = F k" if k: "wait_head k" "k \<noteq> h" for k
  proof -
    have "Tlist t \<notin> set (F k)"
      using lists_wf_unique [OF kinv_wf [OF inv], of "Tlist t" h k] ws k(2) by auto
    moreover have "Row (Thread_timer t) 0 \<notin> set (F k)"
      using kinv_node [OF inv, of "Row (Thread_timer t) 0" k] k by (auto simp: wait_head_def)
    moreover have "k \<noteq> ready_head s t" using k by (auto simp: wait_head_def)
    ultimately show ?thesis
      by (simp add: make_ready_def drop_timer_def drop_thread_def Let_def remove1_idem)
  qed
  have "woken s F t h ws s' (make_ready s t F)"
    unfolding woken_def
  proof (intro conjI)
    show "kgood s'" by (rule kgood_schedule [OF good1 s'(3) eq])
    show "ipc_frame s s'" by (rule ipc_frame_trans [OF fr ipc_frame_schedule [OF s'(1)]])
    show "rt_scheduler_lock_nest s = 0 \<longrightarrow> (\<exists>v. rt_current_thread s' = Some v \<and> top_thread s' v)"
      using top fr by (auto simp: top_thread_def th' ipc_frame_def)
  qed (use r(3) rdy1 s'(2) other in \<open>simp_all add: th' th1 c1\<close>)
  then show ?thesis using r(1) s'(1) by blast
qed

text \<open>
  The end of a send, a release or a free: \<open>woken_first s F h ws s' F'\<close> says that the first of the threads
  \<open>ws\<close> waiting on \<open>h\<close>, if there is one, was made ready and the processor given to the most urgent thread.
\<close>

definition woken_first ::
    "kstate \<Rightarrow> (node \<Rightarrow> node list) \<Rightarrow> node \<Rightarrow> thread_id list \<Rightarrow> kstate \<Rightarrow> (node \<Rightarrow> node list) \<Rightarrow> bool" where
  "woken_first s F h ws s' F' \<longleftrightarrow>
     kinv s' F' \<and> kgood s' \<and> waiters F' h (tl ws) \<and> (\<forall>k. wait_head k \<and> k \<noteq> h \<longrightarrow> F' k = F k) \<and>
     ipc_frame s s' \<and> cont s' = cont s \<and>
     (case ws of [] \<Rightarrow> s' = s
      | t # us \<Rightarrow> ready s' t \<and> (\<forall>u. u \<noteq> t \<longrightarrow> thread s' u = thread s u) \<and>
          th_error (thread s' t) = th_error (thread s t) \<and>
          (rt_scheduler_lock_nest s = 0 \<longrightarrow> (\<exists>v. rt_current_thread s' = Some v \<and> top_thread s' v)))"

lemma wake_first_ok:
  assumes inv: "kinv s F" and good: "kgood s" and h: "wait_head h" and ws: "waiters F h ws"
  shows "\<exists>s' F'. (if \<not> rt_list_isempty h (links s)
     then rbind (rt_ipc_list_resume h s) (\<lambda>s. rbind (rt_schedule s) (\<lambda>s. Ok (r, s)))
     else Ok (r, s)) = Ok (r, s') \<and> woken_first s F h ws s' F'"
proof -
  have em: "rt_list_isempty h (links s) \<longleftrightarrow> ws = []"
    using rl.isempty_iff [OF kinv_wf [OF inv], of h] ws wait_head_is_head [OF h] by simp
  show ?thesis
  proof (cases ws)
    case Nil
    then show ?thesis
      using em inv good ws by (intro exI [of _ s] exI [of _ F]) (simp add: woken_first_def)
  next
    case (Cons t us)
    then obtain s1 s' F' where w: "rt_ipc_list_resume h s = Ok s1" "rt_schedule s1 = Ok s'" "woken s F t h us s' F'"
      using ipc_wake_woken [OF inv good h] ws by blast
    then have "woken_first s F h ws s' F'" by (simp add: Cons woken_first_def woken_def)
    then show ?thesis using w em Cons by (intro exI [of _ s'] exI [of _ F']) simp
  qed
qed

lemma ipc_list_suspend_tick:
  "rt_ipc_list_suspend h t fl s = Ok s' \<Longrightarrow> rt_tick s' = rt_tick s"
  using suspend_frame(2) [of t s] by (auto simp: rt_ipc_list_suspend_def Let_def split_def split: if_splits)

text \<open>A waiting call that may be resumed notes the tick at which it started to wait.\<close>

abbreviation tick_start :: "u32 \<Rightarrow> kstate \<Rightarrow> u32" where
  "tick_start timeout s \<equiv> if sint timeout > 0 then rt_tick s else 0"

lemma block_loop_eq:
  "rbind (rt_ipc_list_suspend h t fl s) (\<lambda>s.
     (let tick_delta = tick_start timeout s
      in rbind (wait_timer t timeout s) (\<lambda>s. block t (c tick_delta) s))) =
   ipc_block h fl t timeout (c (tick_start timeout s)) s"
  by (cases "rt_ipc_list_suspend h t fl s") (simp_all add: ipc_block_def ipc_list_suspend_tick)

section \<open>Waiting with a time limit\<close>

lemma wait_ticks:
  assumes "0 < n" "n < 0x7fffffff"
  shows "(of_nat n :: u32) \<noteq> 0" "(of_nat n :: u32) \<noteq> 0x7fffffff"
proof -
  have "unat (of_nat n :: u32) = n" using assms(2) by (simp add: unat_of_nat take_bit_nat_eq_self)
  then show "(of_nat n :: u32) \<noteq> 0" "(of_nat n :: u32) \<noteq> 0x7fffffff" using assms by auto
qed

text \<open>
  A thread that blocked for \<open>n\<close> ticks and is not woken stays suspended for \<open>n - 1\<close> ticks; the \<open>n\<close>-th
  makes it ready with the error \<^verbatim>\<open>-RT_ETIMEOUT\<close>, and it has left the waiting list.
\<close>

lemma blocked_times_out:
  assumes b: "blocked_on s F t h q (of_nat n) c s' F'" and ts: "timers_ok s F ts" and quiet: "quiet env"
    and n: "0 < n" "n < 0x7fffffff" and h: "wait_head h"
  shows "(\<forall>k < n. \<exists>s2. ticks env k s' = Ok s2 \<and> suspended s2 t) \<and>
    (\<exists>s2 F2. ticks env n s' = Ok s2 \<and> kinv s2 F2 \<and> ready s2 t \<and> th_error (thread s2 t) = - RT_ETIMEOUT \<and>
       Tlist t \<notin> set (F2 h))"
proof -
  obtain m where m: "n = Suc m" using n(1) by (cases n) auto
  have "signed_take_bit 31 (int n) = int n" using n(2) by (intro signed_take_bit_int_eq_self) simp_all
  then have pos: "sint (of_nat n :: u32) > 0" using n(1) by (simp add: signed_of_nat)
  have k: "kinv s' F'" "kgood s'" "tm_timeout_tick (timer s' (Thread_timer t)) = rt_tick s' + of_nat n"
    "\<exists>v. ready s' v" "\<exists>us. timers_ok s' F' us \<and> set us = insert (Thread_timer t) (set ts)"
    using b ts pos by (auto simp: blocked_on_def armed_def ipc_frame_def top_thread_def)
  then obtain us v where us: "settled s' F' us" "Thread_timer t \<in> set us"
      "tm_timeout_tick (timer s' (Thread_timer t)) = rt_tick s' + of_nat n" "ready s' v"
    by (auto simp: settled_iff)
  have d: "tm_timeout_tick (timer s' (Thread_timer t)) = rt_tick s' + of_nat (Suc m)" using us(3) m by simp
  have lt: "Suc m < 2 ^ 32" using n(2) m by simp
  have w: "\<forall>k \<le> m. \<exists>s2. ticks env k s' = Ok s2 \<and> suspended s2 t"
    "\<exists>s2. ticks env (Suc m) s' = Ok s2 \<and> ready s2 t \<and> th_error (thread s2 t) = - RT_ETIMEOUT"
    using ticks_wake [OF us(1) quiet us(4,2) d lt] by blast+
  obtain s2 where s2: "ticks env n s' = Ok s2" "ready s2 t" "th_error (thread s2 t) = - RT_ETIMEOUT" using w(2) m by blast
  obtain F2 where F2: "kinv s2 F2"
    using ticks_total [OF us(1) quiet us(4), of n] s2(1) by (auto simp: settled_iff)
  have "Tlist t \<notin> set (F2 h)"
    using kinv_tlist_head [OF F2, of t h] s2(2) wait_head_is_head [OF h] by auto
  then show ?thesis using s2 F2 w(1) by (auto simp: m less_Suc_eq_le)
qed

end
