(* ===== verification/RT_Semaphore.thy ===== *)
theory RT_Semaphore
  imports RT_IPC
begin

text \<open>
  Semaphores of \<^verbatim>\<open>src/src/ipc.c\<close>: a 16-bit counter and a list of waiting threads.
\<close>

section \<open>Operations\<close>

definition upd_sem :: "nat \<Rightarrow> (rt_semaphore \<Rightarrow> rt_semaphore) \<Rightarrow> kstate \<Rightarrow> kstate" where
  [simp]: "upd_sem i f s = s\<lparr>sem := (sem s)(i := f (sem s i))\<rparr>"

definition rt_sem_init :: "nat \<Rightarrow> cstr \<Rightarrow> u32 \<Rightarrow> u8 \<Rightarrow> kstate \<Rightarrow> (int \<times> kstate) res" where
  "rt_sem_init i name val flag s =
     rbind (rt_object_init (O_ipc (Sem i)) Class_Semaphore name s) (\<lambda>s.
     (let s = rt_ipc_object_init (Sem i) s;
          s = upd_sem i (\<lambda>sm. sm\<lparr>sem_value := ucast val\<rparr>) s
      in Ok (RT_EOK, upd_object (O_ipc (Sem i)) (\<lambda>r. r\<lparr>ob_flag := flag\<rparr>) s)))"

definition rt_sem_detach :: "nat \<Rightarrow> kstate \<Rightarrow> (int \<times> kstate) res" where
  "rt_sem_detach i s =
     rbind (rt_ipc_list_resume_all (Suspend_thread (Sem i)) s) (\<lambda>s.
     Ok (RT_EOK, rt_object_detach (O_ipc (Sem i)) s))"

definition rt_sem_create :: "nat option \<Rightarrow> cstr \<Rightarrow> u32 \<Rightarrow> u8 \<Rightarrow> kstate \<Rightarrow> (nat option \<times> kstate) res" where
  "rt_sem_create malloc name val flag s =
     rbind (rassert (not_in_interrupt s) s) (\<lambda>s.
     rbind (rt_object_allocate (map_option (O_ipc \<circ> Sem) malloc) Class_Semaphore name s) (\<lambda>(ob, s).
     case malloc of
       None \<Rightarrow> Ok (None, s)
     | Some i \<Rightarrow>
         (let s = rt_ipc_object_init (Sem i) s;
              s = upd_sem i (\<lambda>sm. sm\<lparr>sem_value := ucast val\<rparr>) s
          in Ok (Some i, upd_object (O_ipc (Sem i)) (\<lambda>r. r\<lparr>ob_flag := flag\<rparr>) s))))"

definition rt_sem_delete :: "nat \<Rightarrow> kstate \<Rightarrow> (int \<times> kstate) res" where
  "rt_sem_delete i s =
     rbind (rassert (not_in_interrupt s) s) (\<lambda>s.
     rbind (rt_ipc_list_resume_all (Suspend_thread (Sem i)) s) (\<lambda>s.
     rbind (rt_object_delete (O_ipc (Sem i)) s) (\<lambda>s.
     Ok (RT_EOK, s))))"

definition rt_sem_take :: "nat \<Rightarrow> u32 \<Rightarrow> kstate \<Rightarrow> (int option \<times> kstate) res" where
  "rt_sem_take i time s =
     (if sem_value (sem s i) > 0 then Ok (Some RT_EOK, upd_sem i (\<lambda>sm. sm\<lparr>sem_value := sem_value sm - 1\<rparr>) s)
      else if time = 0 then Ok (Some (- RT_ETIMEOUT), s)
      else
        rbind (rassert (in_thread_context s) s) (\<lambda>s.
        case rt_thread_self s of
          None \<Rightarrow> Fault Null_Pointer
        | Some t \<Rightarrow>
            (let s = upd_thread t (\<lambda>th. th\<lparr>th_error := RT_EOK\<rparr>) s
             in rbind (rt_ipc_list_suspend (Suspend_thread (Sem i)) t (ob_flag (object s (O_ipc (Sem i)))) s) (\<lambda>s.
                rbind (wait_timer t time s) (\<lambda>s.
                block t (C_sem_take i) s)))))"

definition rt_sem_take_resume :: "thread_id \<Rightarrow> nat \<Rightarrow> kstate \<Rightarrow> int \<times> kstate" where
  "rt_sem_take_resume t i s =
     (let s = s\<lparr>cont := (cont s)(t := None)\<rparr>
      in if th_error (thread s t) \<noteq> RT_EOK then (th_error (thread s t), s) else (RT_EOK, s))"

definition rt_sem_trytake :: "nat \<Rightarrow> kstate \<Rightarrow> (int option \<times> kstate) res" where
  "rt_sem_trytake i s = rt_sem_take i 0 s"

definition rt_sem_release :: "nat \<Rightarrow> kstate \<Rightarrow> (int \<times> kstate) res" where
  "rt_sem_release i s =
     (if \<not> rt_list_isempty (Suspend_thread (Sem i)) (links s)
      then
        rbind (rt_ipc_list_resume (Suspend_thread (Sem i)) s) (\<lambda>s.
        rbind (rt_schedule s) (\<lambda>s. Ok (RT_EOK, s)))
      else Ok (RT_EOK, upd_sem i (\<lambda>sm. sm\<lparr>sem_value := sem_value sm + 1\<rparr>) s))"

datatype ipc_cmd = Ipc_reset u32 | Ipc_other

fun rt_sem_control :: "nat \<Rightarrow> ipc_cmd \<Rightarrow> kstate \<Rightarrow> (int \<times> kstate) res" where
  "rt_sem_control i (Ipc_reset val) s =
     rbind (rt_ipc_list_resume_all (Suspend_thread (Sem i)) s) (\<lambda>s.
     (let s = upd_sem i (\<lambda>sm. sm\<lparr>sem_value := ucast val\<rparr>) s
      in rbind (rt_schedule s) (\<lambda>s. Ok (RT_EOK, s))))"
| "rt_sem_control i Ipc_other s = Ok (- RT_ERROR, s)"

section \<open>Behaviour\<close>

text \<open>No thread waits on a semaphore that could be taken.\<close>

definition sem_inv :: "kstate \<Rightarrow> (node \<Rightarrow> node list) \<Rightarrow> nat \<Rightarrow> bool" where
  "sem_inv s F i \<longleftrightarrow> (0 < sem_value (sem s i) \<longrightarrow> F (Suspend_thread (Sem i)) = [])"

definition sem_flag_ok :: "kstate \<Rightarrow> nat \<Rightarrow> bool" where
  "sem_flag_ok s i \<longleftrightarrow> ob_flag (object s (O_ipc (Sem i))) = RT_IPC_FLAG_FIFO \<or>
     ob_flag (object s (O_ipc (Sem i))) = RT_IPC_FLAG_PRIO"

lemma kinv_sem_value: "kinv s F \<Longrightarrow> kinv (upd_sem i f s) F"
  by (rule kinv_cong) (simp_all add: same_defs)

lemma sem_take_block_eq:
  assumes "sem_value (sem s i) = 0" "time \<noteq> 0" "can_block s t"
  shows "rt_sem_take i time s =
    ipc_block (Suspend_thread (Sem i)) (ob_flag (object s (O_ipc (Sem i)))) t time (C_sem_take i)
      (upd_thread t (\<lambda>th. th\<lparr>th_error := RT_EOK\<rparr>) s)"
  using assms
  by (simp add: rt_sem_take_def ipc_block_def in_thread_context_def not_in_interrupt_def can_block_def rt_thread_self_def)

lemma enqueue_cong:
  "(\<And>u. th_current_priority (thread s' u) = th_current_priority (thread s u)) \<Longrightarrow>
   enqueue flag s' t ws = enqueue flag s t ws"
  by (simp add: enqueue_def prio_le_def)

lemma enqueue_error [simp]: "enqueue flag (upd_thread t (\<lambda>th. th\<lparr>th_error := e\<rparr>) s) u ws = enqueue flag s u ws"
  by (rule enqueue_cong) simp

lemma sem_take_blocks:
  assumes inv: "kinv s F" and cb: "can_block s t" and z: "sem_value (sem s i) = 0" and fl: "sem_flag_ok s i"
    and time: "time \<noteq> 0" "time \<noteq> 0x7fffffff" and ws: "waiters F (Suspend_thread (Sem i)) ws"
  shows "\<exists>s' F'. rt_sem_take i time s = Ok (None, s') \<and> blocked_on s F t (Suspend_thread (Sem i))
    (enqueue (ob_flag (object s (O_ipc (Sem i)))) s t ws) time (C_sem_take i) s' F'"
proof -
  have flag: "ob_flag (object s (O_ipc (Sem i))) = RT_IPC_FLAG_FIFO \<or> ob_flag (object s (O_ipc (Sem i))) = RT_IPC_FLAG_PRIO"
    using fl by (simp add: sem_flag_ok_def)
  from ipc_block_blocked [where c = "C_sem_take i", OF kinv_error [OF inv] can_block_error [OF cb] _ ws flag time(2)]
  show ?thesis
    unfolding sem_take_block_eq [OF z time(1) cb] enqueue_error using blocked_on_error by fastforce
qed

lemma sem_release_waiter:
  assumes inv: "kinv s F" and good: "kgood s" and ws: "waiters F (Suspend_thread (Sem i)) (t # ws)"
  shows "\<exists>s' F'. rt_sem_release i s = Ok (RT_EOK, s') \<and> woken s F t (Suspend_thread (Sem i)) ws s' F'"
proof -
  have "\<not> rt_list_isempty (Suspend_thread (Sem i)) (links s)"
    using rl.isempty_iff [OF kinv_wf [OF inv], of "Suspend_thread (Sem i)"] ws by simp
  moreover obtain s1 s' F' where "rt_ipc_list_resume (Suspend_thread (Sem i)) s = Ok s1" "rt_schedule s1 = Ok s'"
      "woken s F t (Suspend_thread (Sem i)) ws s' F'"
    using ipc_wake_woken [OF inv good _ ws] by auto
  ultimately show ?thesis by (auto simp: rt_sem_release_def)
qed

lemma sem_release_free:
  assumes inv: "kinv s F" and ws: "F (Suspend_thread (Sem i)) = []"
  shows "rt_sem_release i s = Ok (RT_EOK, upd_sem i (\<lambda>sm. sm\<lparr>sem_value := sem_value sm + 1\<rparr>) s)"
  using rl.isempty_iff [OF kinv_wf [OF inv], of "Suspend_thread (Sem i)"] ws by (simp add: rt_sem_release_def)

section \<open>The abstract semaphore\<close>

text \<open>A counter and a queue: what the semaphore promises, without lists, timers or the scheduler.\<close>

type_synonym asem = "nat \<times> thread_id list"

definition asem_take :: "(thread_id list \<Rightarrow> thread_id list) \<Rightarrow> asem \<Rightarrow> asem" where
  "asem_take join = (\<lambda>(v, q). if 0 < v then (v - 1, q) else (v, join q))"

definition asem_release :: "asem \<Rightarrow> asem" where
  "asem_release = (\<lambda>(v, q). case q of [] \<Rightarrow> (v + 1, []) | t # q \<Rightarrow> (v, q))"

definition sem_abs :: "kstate \<Rightarrow> (node \<Rightarrow> node list) \<Rightarrow> nat \<Rightarrow> asem \<Rightarrow> bool" where
  "sem_abs s F i a \<longleftrightarrow> unat (sem_value (sem s i)) = fst a \<and> waiters F (Suspend_thread (Sem i)) (snd a)"

lemma sem_abs_inv: "sem_abs s F i a \<Longrightarrow> sem_inv s F i \<longleftrightarrow> (0 < fst a \<longrightarrow> snd a = [])"
  by (auto simp: sem_abs_def sem_inv_def word_less_nat_alt)

lemma unat_dec: "0 < (w :: u16) \<Longrightarrow> unat (w - 1) = unat w - 1"
  by (metis One_nat_def unat_1 unat_sub word_le_nat_alt word_less_nat_alt Suc_leI unat_0)

lemma unat_inc: "unat (w :: u16) < 0xffff \<Longrightarrow> unat (w + 1) = unat w + 1"
  by (simp add: unat_word_ariths)

lemma sem_take_refines:
  assumes inv: "kinv s F" and cb: "can_block s t" and fl: "sem_flag_ok s i" and a: "sem_abs s F i a"
    and time: "time \<noteq> 0" "time \<noteq> 0x7fffffff"
  shows "\<exists>r s' F'. rt_sem_take i time s = Ok (r, s') \<and> kinv s' F' \<and> kgood s' \<and>
    sem_abs s' F' i (asem_take (enqueue (ob_flag (object s (O_ipc (Sem i)))) s t) a) \<and>
    (r = Some RT_EOK \<longleftrightarrow> 0 < fst a) \<and> (r = None \<longleftrightarrow> fst a = 0)"
proof (cases "0 < sem_value (sem s i)")
  case True
  let ?s = "upd_sem i (\<lambda>sm. sm\<lparr>sem_value := sem_value sm - 1\<rparr>) s"
  have pos: "0 < fst a" using True a by (simp add: sem_abs_def word_less_nat_alt)
  have "kgood ?s" by (rule kgood_cong [of s]) (use cb in \<open>simp_all add: can_block_def\<close>)
  moreover have "sem_abs ?s F i (asem_take (enqueue (ob_flag (object s (O_ipc (Sem i)))) s t) a)"
    using a True pos unat_dec [OF True] by (auto simp: sem_abs_def asem_take_def split: prod.splits)
  moreover have "rt_sem_take i time s = Ok (Some RT_EOK, ?s)" using True by (simp add: rt_sem_take_def)
  ultimately show ?thesis using kinv_sem_value [OF inv, of i] pos by (auto simp del: upd_sem_def)
next
  case False
  then have z: "sem_value (sem s i) = 0" by (simp add: word_less_nat_alt unat_eq_0)
  have z': "fst a = 0" using z a by (simp add: sem_abs_def)
  have ws: "waiters F (Suspend_thread (Sem i)) (snd a)" using a by (simp add: sem_abs_def)
  obtain s' F' where s': "rt_sem_take i time s = Ok (None, s')" and b: "blocked_on s F t (Suspend_thread (Sem i))
      (enqueue (ob_flag (object s (O_ipc (Sem i)))) s t (snd a)) time (C_sem_take i) s' F'"
    using sem_take_blocks [OF inv cb z fl time ws] by blast
  have "sem_abs s' F' i (asem_take (enqueue (ob_flag (object s (O_ipc (Sem i)))) s t) a)"
    using b z z' a by (auto simp: sem_abs_def asem_take_def blocked_on_def ipc_frame_def split: prod.splits)
  then show ?thesis using s' b z' by (auto simp: blocked_on_def)
qed

lemma sem_release_refines:
  assumes inv: "kinv s F" and good: "kgood s" and a: "sem_abs s F i a" and room: "fst a < 0xffff"
  shows "\<exists>s' F'. rt_sem_release i s = Ok (RT_EOK, s') \<and> kinv s' F' \<and> kgood s' \<and>
    sem_abs s' F' i (asem_release a) \<and> (\<forall>t q. snd a = t # q \<longrightarrow> ready s' t)"
proof (cases "snd a")
  case Nil
  let ?s = "upd_sem i (\<lambda>sm. sm\<lparr>sem_value := sem_value sm + 1\<rparr>) s"
  have "kgood ?s" by (rule kgood_cong [of s]) (use good in simp_all)
  moreover have "rt_sem_release i s = Ok (RT_EOK, ?s)"
    using sem_release_free [OF inv, of i] a Nil by (simp add: sem_abs_def)
  moreover have "sem_abs ?s F i (asem_release a)"
    using a Nil room unat_inc [of "sem_value (sem s i)"]
    by (auto simp: sem_abs_def asem_release_def split: prod.splits)
  ultimately show ?thesis using kinv_sem_value [OF inv, of i] Nil by (auto simp del: upd_sem_def)
next
  case (Cons t q)
  then have "waiters F (Suspend_thread (Sem i)) (t # q)" using a by (simp add: sem_abs_def)
  then obtain s' F' where s': "rt_sem_release i s = Ok (RT_EOK, s')" "woken s F t (Suspend_thread (Sem i)) q s' F'"
    using sem_release_waiter [OF inv good] by blast
  have "sem_abs s' F' i (asem_release a)"
    using s'(2) a Cons by (auto simp: sem_abs_def asem_release_def woken_def ipc_frame_def split: prod.splits)
  then show ?thesis using s' Cons by (auto simp: woken_def)
qed

text \<open>The counter has 16 bits: one release too many makes a full semaphore an empty one.\<close>

lemma sem_release_wraps:
  assumes "kinv s F" "F (Suspend_thread (Sem i)) = []" "sem_value (sem s i) = 0xffff"
  shows "\<exists>s'. rt_sem_release i s = Ok (RT_EOK, s') \<and> sem_value (sem s' i) = 0"
  using sem_release_free [OF assms(1,2)] assms(3) by simp

end
