(* ===== verification/RT_Mutex.thy ===== *)
theory RT_Mutex
  imports RT_Semaphore
begin

text \<open>
  Mutexes of \<^verbatim>\<open>src/src/ipc.c\<close>: recursive, owned, with priority inheritance. \<open>mutex_again\<close> is the part
  of \<^verbatim>\<open>rt_mutex_take\<close> from the label \<^verbatim>\<open>__again\<close> on, which a thread interrupted by a signal executes again.
\<close>

section \<open>Operations\<close>

definition upd_mutex :: "nat \<Rightarrow> (rt_mutex \<Rightarrow> rt_mutex) \<Rightarrow> kstate \<Rightarrow> kstate" where
  [simp]: "upd_mutex i f s = s\<lparr>mutex := (mutex s)(i := f (mutex s i))\<rparr>"

definition mutex_struct_init :: "nat \<Rightarrow> u8 \<Rightarrow> kstate \<Rightarrow> kstate" where
  "mutex_struct_init i flag s =
     (let s = rt_ipc_object_init (Mutex i) s;
          s = upd_mutex i (\<lambda>m. m\<lparr>mx_value := 1, mx_owner := None, mx_original_priority := 0xff, mx_hold := 0\<rparr>) s
      in upd_object (O_ipc (Mutex i)) (\<lambda>r. r\<lparr>ob_flag := flag\<rparr>) s)"

definition rt_mutex_init :: "nat \<Rightarrow> cstr \<Rightarrow> u8 \<Rightarrow> kstate \<Rightarrow> (int \<times> kstate) res" where
  "rt_mutex_init i name flag s =
     rbind (rt_object_init (O_ipc (Mutex i)) Class_Mutex name s) (\<lambda>s.
     Ok (RT_EOK, mutex_struct_init i flag s))"

definition rt_mutex_detach :: "nat \<Rightarrow> kstate \<Rightarrow> (int \<times> kstate) res" where
  "rt_mutex_detach i s =
     rbind (rt_ipc_list_resume_all (Suspend_thread (Mutex i)) s) (\<lambda>s.
     Ok (RT_EOK, rt_object_detach (O_ipc (Mutex i)) s))"

definition rt_mutex_create :: "nat option \<Rightarrow> cstr \<Rightarrow> u8 \<Rightarrow> kstate \<Rightarrow> (nat option \<times> kstate) res" where
  "rt_mutex_create malloc name flag s =
     rbind (rassert (not_in_interrupt s) s) (\<lambda>s.
     rbind (rt_object_allocate (map_option (O_ipc \<circ> Mutex) malloc) Class_Mutex name s) (\<lambda>(ob, s).
     case malloc of None \<Rightarrow> Ok (None, s) | Some i \<Rightarrow> Ok (Some i, mutex_struct_init i flag s)))"

definition rt_mutex_delete :: "nat \<Rightarrow> kstate \<Rightarrow> (int \<times> kstate) res" where
  "rt_mutex_delete i s =
     rbind (rassert (not_in_interrupt s) s) (\<lambda>s.
     rbind (rt_ipc_list_resume_all (Suspend_thread (Mutex i)) s) (\<lambda>s.
     rbind (rt_object_delete (O_ipc (Mutex i)) s) (\<lambda>s.
     Ok (RT_EOK, s))))"

definition mutex_again :: "nat \<Rightarrow> u32 \<Rightarrow> thread_id \<Rightarrow> kstate \<Rightarrow> (int option \<times> kstate) res" where
  "mutex_again i time t s =
     (if mx_value (mutex s i) > 0 then
        (let s = upd_mutex i (\<lambda>m. m\<lparr>mx_value := mx_value m - 1\<rparr>) s;
             s = upd_mutex i (\<lambda>m. m\<lparr>mx_owner := Some t,
                   mx_original_priority := th_current_priority (thread s t)\<rparr>) s;
             s = upd_mutex i (\<lambda>m. m\<lparr>mx_hold := mx_hold m + 1\<rparr>) s
         in Ok (Some RT_EOK, s))
      else if time = 0 then
        Ok (Some (- RT_ETIMEOUT), upd_thread t (\<lambda>th. th\<lparr>th_error := - RT_ETIMEOUT\<rparr>) s)
      else
        (case mx_owner (mutex s i) of
           None \<Rightarrow> Fault Null_Pointer
         | Some own \<Rightarrow>
             rbind
               (if th_current_priority (thread s t) < th_current_priority (thread s own)
                then rt_thread_control own (Change_priority (th_current_priority (thread s t))) s
                else Ok (RT_EOK, s)) (\<lambda>(r, s).
             rbind (rt_ipc_list_suspend (Suspend_thread (Mutex i)) t (ob_flag (object s (O_ipc (Mutex i)))) s) (\<lambda>s.
             rbind (wait_timer t time s) (\<lambda>s.
             block t (C_mutex_take i time) s)))))"

definition rt_mutex_take :: "nat \<Rightarrow> u32 \<Rightarrow> kstate \<Rightarrow> (int option \<times> kstate) res" where
  "rt_mutex_take i time s =
     rbind (rassert (in_thread_context s) s) (\<lambda>s.
     case rt_thread_self s of
       None \<Rightarrow> Fault Null_Pointer
     | Some t \<Rightarrow>
         (let s = upd_thread t (\<lambda>th. th\<lparr>th_error := RT_EOK\<rparr>) s
          in if mx_owner (mutex s i) = Some t
             then Ok (Some RT_EOK, upd_mutex i (\<lambda>m. m\<lparr>mx_hold := mx_hold m + 1\<rparr>) s)
             else mutex_again i time t s))"

definition rt_mutex_take_resume :: "thread_id \<Rightarrow> nat \<Rightarrow> u32 \<Rightarrow> kstate \<Rightarrow> (int option \<times> kstate) res" where
  "rt_mutex_take_resume t i time s =
     (let s = s\<lparr>cont := (cont s)(t := None)\<rparr>
      in if th_error (thread s t) \<noteq> RT_EOK then
           (if th_error (thread s t) = - RT_EINTR then mutex_again i time t s
            else Ok (Some (th_error (thread s t)), s))
         else Ok (Some RT_EOK, s))"

definition rt_mutex_release :: "nat \<Rightarrow> kstate \<Rightarrow> (int \<times> kstate) res" where
  "rt_mutex_release i s =
     rbind (rassert (in_thread_context s) s) (\<lambda>s.
     case rt_thread_self s of
       None \<Rightarrow> Fault Null_Pointer
     | Some t \<Rightarrow>
         if Some t \<noteq> mx_owner (mutex s i) then
           Ok (- RT_ERROR, upd_thread t (\<lambda>th. th\<lparr>th_error := - RT_ERROR\<rparr>) s)
         else
           (let s = upd_mutex i (\<lambda>m. m\<lparr>mx_hold := mx_hold m - 1\<rparr>) s
            in if mx_hold (mutex s i) = 0 then
                 rbind
                   (if mx_original_priority (mutex s i) \<noteq> th_current_priority (thread s t)
                    then rt_thread_control t (Change_priority (mx_original_priority (mutex s i))) s
                    else Ok (RT_EOK, s)) (\<lambda>(r, s).
                 if \<not> rt_list_isempty (Suspend_thread (Mutex i)) (links s) then
                   rbind (thread_entry (lnext (links s) (Suspend_thread (Mutex i)))) (\<lambda>t.
                   (let s = upd_mutex i (\<lambda>m. m\<lparr>mx_owner := Some t,
                              mx_original_priority := th_current_priority (thread s t)\<rparr>) s;
                        s = upd_mutex i (\<lambda>m. m\<lparr>mx_hold := mx_hold m + 1\<rparr>) s
                    in rbind (rt_ipc_list_resume (Suspend_thread (Mutex i)) s) (\<lambda>s.
                       rbind (rt_schedule s) (\<lambda>s. Ok (RT_EOK, s)))))
                 else
                   (let s = upd_mutex i (\<lambda>m. m\<lparr>mx_value := mx_value m + 1\<rparr>) s
                    in Ok (RT_EOK, upd_mutex i (\<lambda>m. m\<lparr>mx_owner := None, mx_original_priority := 0xff\<rparr>) s)))
               else Ok (RT_EOK, s)))"

definition rt_mutex_control :: "nat \<Rightarrow> ipc_cmd \<Rightarrow> kstate \<Rightarrow> int \<times> kstate" where
  "rt_mutex_control i cmd s = (- RT_ERROR, s)"

declare rt_thread_control.simps(1) [simp del]

section \<open>Behaviour\<close>

text \<open>Free, or owned and held at least once.\<close>

definition mutex_inv :: "kstate \<Rightarrow> (node \<Rightarrow> node list) \<Rightarrow> nat \<Rightarrow> bool" where
  "mutex_inv s F i \<longleftrightarrow>
     (let m = mutex s i in
       mx_value m = 1 \<and> mx_owner m = None \<and> mx_hold m = 0 \<and> F (Suspend_thread (Mutex i)) = [] \<or>
       mx_value m = 0 \<and> mx_owner m \<noteq> None \<and> mx_hold m \<noteq> 0)"

definition mutex_flag_ok :: "kstate \<Rightarrow> nat \<Rightarrow> bool" where
  "mutex_flag_ok s i \<longleftrightarrow> ob_flag (object s (O_ipc (Mutex i))) = RT_IPC_FLAG_FIFO \<or>
     ob_flag (object s (O_ipc (Mutex i))) = RT_IPC_FLAG_PRIO"

lemma kinv_mutex [intro]: "kinv s F \<Longrightarrow> kinv (upd_mutex i f s) F"
  by (rule kinv_cong) (simp_all add: same_defs)

lemma kgood_mutex: "kgood s \<Longrightarrow> kgood (upd_mutex i f s)"
  by (rule kgood_cong) simp_all

lemma change_priority_ok:
  assumes inv: "kinv s F"
  obtains s' where "rt_thread_control t (Change_priority p) s = Ok (RT_EOK, s')"
    "kinv s' (if ready s t then requeue t p F else F)" "ipc_frame s s'" "cont s' = cont s"
    "rt_current_thread s' = rt_current_thread s" "timer s' = timer s"
    "th_current_priority (thread s' t) = p" "\<And>u. u \<noteq> t \<Longrightarrow> thread s' u = thread s u"
    "th_state (thread s' t) = th_state (thread s t)" "th_error (thread s' t) = th_error (thread s t)"
    "th_sp (thread s' t) = th_sp (thread s t)" "th_stack_addr (thread s' t) = th_stack_addr (thread s t)"
    "th_stack_size (thread s' t) = th_stack_size (thread s t)"
proof -
  obtain r s' where s': "rt_thread_control t (Change_priority p) s = Ok (r, s')"
    by (cases "ready s t") (simp_all add: rt_thread_control.simps Let_def)
  then have r: "r = RT_EOK" by (auto simp: rt_thread_control.simps Let_def split: if_splits)
  note inv' = kinv_change_priority [OF inv s']
  show ?thesis
  proof (rule that [OF s' [unfolded r] inv'])
    show "th_state (thread s' t) = th_state (thread s t)"
    proof (cases "ready s t")
      case True
      then show ?thesis using s' ready_stat by (auto simp: rt_thread_control.simps Let_def)
    next
      case False
      then show ?thesis using s' by (auto simp: rt_thread_control.simps Let_def)
    qed
  qed (use s' in \<open>auto simp: rt_thread_control.simps Let_def ipc_frame_def set_priority_attr_def rt_schedule_remove_thread_def
        rt_schedule_insert_thread_def split: if_splits\<close>)
qed

lemma kgood_change_priority:
  assumes good: "kgood s" and fr: "ipc_frame s s'" and c: "rt_current_thread s' = rt_current_thread s" "timer s' = timer s"
    and o: "\<And>u. u \<noteq> t \<Longrightarrow> thread s' u = thread s u" "th_state (thread s' t) = th_state (thread s t)"
      "th_sp (thread s' t) = th_sp (thread s t)" "th_stack_addr (thread s' t) = th_stack_addr (thread s t)"
      "th_stack_size (thread s' t) = th_stack_size (thread s t)"
  shows "kgood s'"
proof -
  have "stack_ok s' u" if "th_state (thread s' u) \<noteq> RT_THREAD_INIT" for u
  proof -
    have "th_state (thread s u) \<noteq> RT_THREAD_INIT" using that o by (cases "u = t") simp_all
    then have "stack_ok s u" using good by (simp add: kgood_def all_stacks_def)
    then show ?thesis using o fr by (cases "u = t") (simp_all add: stack_ok_def ipc_frame_def Let_def)
  qed
  then show ?thesis using good c by (simp add: kgood_def all_stacks_def)
qed

lemma requeue_wait:
  assumes "kinv s F" "ready s t" "wait_head h"
  shows "requeue t p F h = F h"
  using drop_thread_wait [OF assms] assms(3) by (auto simp: requeue_def wait_head_def)

text \<open>
  Blocking on an owned mutex: the owner inherits the waiter's priority if that is more urgent, and
  the waiter joins the queue.
\<close>

lemma mutex_again_blocks:
  assumes inv: "kinv s F" and cb: "can_block s t" and z: "mx_value (mutex s i) = 0"
    and own: "mx_owner (mutex s i) = Some w" "w \<noteq> t" and fl: "mutex_flag_ok s i"
    and time: "time \<noteq> 0" "time \<noteq> 0x7fffffff" and ws: "waiters F (Suspend_thread (Mutex i)) ws"
  shows "\<exists>s1 F1 s' F'. mutex_again i time t s = Ok (None, s') \<and>
    blocked_on s1 F1 t (Suspend_thread (Mutex i)) (enqueue (ob_flag (object s (O_ipc (Mutex i)))) s1 t ws)
      time (C_mutex_take i time) s' F' \<and>
    ipc_frame s s1 \<and> (\<forall>u. u \<noteq> w \<longrightarrow> thread s1 u = thread s u) \<and> (\<forall>k. wait_head k \<longrightarrow> F1 k = F k) \<and>
    th_current_priority (thread s1 w) = min (th_current_priority (thread s w)) (th_current_priority (thread s t)) \<and>
    th_state (thread s1 w) = th_state (thread s w) \<and> cont s1 = cont s"
proof -
  let ?p = "th_current_priority (thread s t)"
  define act where "act = (if ?p < th_current_priority (thread s w)
      then rt_thread_control w (Change_priority ?p) s else Ok (RT_EOK, s))"
  have flag: "ob_flag (object s (O_ipc (Mutex i))) = RT_IPC_FLAG_FIFO \<or> ob_flag (object s (O_ipc (Mutex i))) = RT_IPC_FLAG_PRIO"
    using fl by (simp add: mutex_flag_ok_def)
  have "\<exists>s1 F1. act = Ok (RT_EOK, s1) \<and> kinv s1 F1 \<and> ipc_frame s s1 \<and> (\<forall>u. u \<noteq> w \<longrightarrow> thread s1 u = thread s u) \<and>
     (\<forall>k. wait_head k \<longrightarrow> F1 k = F k) \<and> th_current_priority (thread s1 w) = min (th_current_priority (thread s w)) ?p \<and>
     th_state (thread s1 w) = th_state (thread s w) \<and> cont s1 = cont s \<and> rt_current_thread s1 = rt_current_thread s \<and> kgood s1"
  proof (cases "?p < th_current_priority (thread s w)")
    case True
    obtain s1 where s1: "rt_thread_control w (Change_priority ?p) s = Ok (RT_EOK, s1)"
      "kinv s1 (if ready s w then requeue w ?p F else F)" "ipc_frame s s1" "cont s1 = cont s"
      "rt_current_thread s1 = rt_current_thread s" "timer s1 = timer s"
      "th_current_priority (thread s1 w) = ?p" "\<And>u. u \<noteq> w \<Longrightarrow> thread s1 u = thread s u"
      "th_state (thread s1 w) = th_state (thread s w)" "th_error (thread s1 w) = th_error (thread s w)"
      "th_sp (thread s1 w) = th_sp (thread s w)" "th_stack_addr (thread s1 w) = th_stack_addr (thread s w)"
      "th_stack_size (thread s1 w) = th_stack_size (thread s w)"
      by (rule change_priority_ok [OF inv, of w ?p]) blast
    have "kgood s1"
      using cb by (intro kgood_change_priority [OF _ s1(3,5,6,8,9,11,12,13)]) (simp add: can_block_def)
    moreover have "act = Ok (RT_EOK, s1)" using True s1(1) unfolding act_def by (simp only: if_True)
    moreover have "(if ready s w then requeue w ?p F else F) k = F k" if "wait_head k" for k
      using requeue_wait [OF inv _ that] by simp
    moreover have "th_current_priority (thread s1 w) = min (th_current_priority (thread s w)) ?p"
      using True s1(7) by simp
    ultimately show ?thesis
      using s1(2,3,4,5,8,9) by (intro exI [of _ s1] exI [of _ "if ready s w then requeue w ?p F else F"]) auto
  next
    case False
    then have "act = Ok (RT_EOK, s)" "th_current_priority (thread s w) \<le> ?p" by (simp_all add: act_def)
    then show ?thesis
      using inv cb by (intro exI [of _ s] exI [of _ F]) (simp add: can_block_def)
  qed
  then obtain s1 F1 where s1: "act = Ok (RT_EOK, s1)" "kinv s1 F1" "ipc_frame s s1" "\<forall>u. u \<noteq> w \<longrightarrow> thread s1 u = thread s u"
     "\<forall>k. wait_head k \<longrightarrow> F1 k = F k" "th_current_priority (thread s1 w) = min (th_current_priority (thread s w)) ?p"
     "th_state (thread s1 w) = th_state (thread s w)" "cont s1 = cont s" "rt_current_thread s1 = rt_current_thread s" "kgood s1"
    by blast
  have rdy: "ready s1 u \<longleftrightarrow> ready s u" for u using s1(4,7) by (cases "u = w") simp_all
  have cb1: "can_block s1 t"
    using cb s1(3,9,10) rdy by (auto simp: can_block_def ipc_frame_def)
  have ws1: "waiters F1 (Suspend_thread (Mutex i)) ws" using s1(5) ws by simp
  have fl1: "ob_flag (object s1 (O_ipc (Mutex i))) = ob_flag (object s (O_ipc (Mutex i)))"
    using s1(3) by (simp add: ipc_frame_def)
  have "mutex_again i time t s = ipc_block (Suspend_thread (Mutex i)) (ob_flag (object s (O_ipc (Mutex i)))) t time (C_mutex_take i time) s1"
    using z own time s1(1) fl1 unfolding mutex_again_def act_def [symmetric] by (simp add: act_def ipc_block_def)
  then show ?thesis
    using ipc_block_blocked [OF s1(2) cb1 _ ws1 flag time(2), of "C_mutex_take i time"] s1(3-8) by auto
qed

lemma mutex_take_again:
  assumes "rt_current_thread s = Some t" "rt_interrupt_nest s = 0" "mx_owner (mutex s i) \<noteq> Some t"
  shows "rt_mutex_take i time s = mutex_again i time t (upd_thread t (\<lambda>th. th\<lparr>th_error := RT_EOK\<rparr>) s)"
  using assms by (simp add: rt_mutex_take_def in_thread_context_def not_in_interrupt_def rt_thread_self_def)

section \<open>Releasing\<close>

text \<open>The state in which the last release of \<open>t\<close> continues: priority restored, hold count zero.\<close>

lemma mutex_restore_ok:
  assumes inv: "kinv s F" and good: "kgood s"
  shows "\<exists>s1 F1. (if p \<noteq> th_current_priority (thread s t) then rt_thread_control t (Change_priority p) s
       else Ok (RT_EOK, s)) = Ok (RT_EOK, s1) \<and>
    kinv s1 F1 \<and> kgood s1 \<and> ipc_frame s s1 \<and> (\<forall>k. wait_head k \<longrightarrow> F1 k = F k) \<and> cont s1 = cont s \<and>
    rt_current_thread s1 = rt_current_thread s \<and> th_current_priority (thread s1 t) = p \<and>
    th_state (thread s1 t) = th_state (thread s t) \<and> (\<forall>u. u \<noteq> t \<longrightarrow> thread s1 u = thread s u)"
proof (cases "p \<noteq> th_current_priority (thread s t)")
  case True
  obtain s1 where s1: "rt_thread_control t (Change_priority p) s = Ok (RT_EOK, s1)"
    "kinv s1 (if ready s t then requeue t p F else F)" "ipc_frame s s1" "cont s1 = cont s"
    "rt_current_thread s1 = rt_current_thread s" "timer s1 = timer s"
    "th_current_priority (thread s1 t) = p" "\<And>u. u \<noteq> t \<Longrightarrow> thread s1 u = thread s u"
    "th_state (thread s1 t) = th_state (thread s t)" "th_error (thread s1 t) = th_error (thread s t)"
    "th_sp (thread s1 t) = th_sp (thread s t)" "th_stack_addr (thread s1 t) = th_stack_addr (thread s t)"
    "th_stack_size (thread s1 t) = th_stack_size (thread s t)"
    by (rule change_priority_ok [OF inv, of t p]) blast
  have "kgood s1" by (rule kgood_change_priority [OF good s1(3,5,6,8,9,11,12,13)])
  moreover have "(if ready s t then requeue t p F else F) k = F k" if "wait_head k" for k
    using requeue_wait [OF inv _ that] by simp
  moreover have "(if p \<noteq> th_current_priority (thread s t) then rt_thread_control t (Change_priority p) s
       else Ok (RT_EOK, s)) = Ok (RT_EOK, s1)" using True s1(1) by (simp only: if_True not_False_eq_True)
  ultimately show ?thesis
    using s1(2-9) by (intro exI [of _ s1] exI [of _ "if ready s t then requeue t p F else F"]) auto
next
  case False
  then show ?thesis using inv good by (intro exI [of _ s] exI [of _ F]) simp
qed

lemma mutex_release_last:
  assumes inv: "kinv s F" and good: "kgood s" and cur: "rt_current_thread s = Some t" and rdy: "ready s t"
    and irq: "rt_interrupt_nest s = 0" and own: "mx_owner (mutex s i) = Some t" and hold: "mx_hold (mutex s i) = 1" and val: "mx_value (mutex s i) = 0"
    and ws: "waiters F (Suspend_thread (Mutex i)) ws"
  shows "\<exists>s' F'. rt_mutex_release i s = Ok (RT_EOK, s') \<and> kinv s' F' \<and> kgood s' \<and>
    th_current_priority (thread s' t) = mx_original_priority (mutex s i) \<and>
    waiters F' (Suspend_thread (Mutex i)) (case ws of [] \<Rightarrow> [] | u # us \<Rightarrow> us) \<and>
    (case ws of
       [] \<Rightarrow> mutex s' i = \<lparr>mx_value = 1, mx_original_priority = 0xff, mx_hold = 0, mx_owner = None\<rparr>
     | u # us \<Rightarrow> mutex s' i = \<lparr>mx_value = 0, mx_original_priority = th_current_priority (thread s u), mx_hold = 1, mx_owner = Some u\<rparr> \<and>
         ready s' u)"
proof -
  define s0 where "s0 = upd_mutex i (\<lambda>m. m\<lparr>mx_hold := mx_hold m - 1\<rparr>) s"
  have inv0: "kinv s0 F" unfolding s0_def by (rule kinv_mutex [OF inv])
  have good0: "kgood s0" unfolding s0_def by (rule kgood_mutex [OF good])
  have s0m: "mx_hold (mutex s0 i) = 0" "mx_original_priority (mutex s0 i) = mx_original_priority (mutex s i)"
    "mx_value (mutex s0 i) = 0" "thread s0 = thread s"
    using hold val by (simp_all add: s0_def)
  obtain s1 F1 where act: "(if mx_original_priority (mutex s0 i) \<noteq> th_current_priority (thread s0 t)
       then rt_thread_control t (Change_priority (mx_original_priority (mutex s0 i))) s0 else Ok (RT_EOK, s0)) = Ok (RT_EOK, s1)"
    and s1: "kinv s1 F1" "kgood s1" "ipc_frame s0 s1" "\<forall>k. wait_head k \<longrightarrow> F1 k = F k" "cont s1 = cont s0"
      "rt_current_thread s1 = rt_current_thread s0" "th_current_priority (thread s1 t) = mx_original_priority (mutex s0 i)"
      "th_state (thread s1 t) = th_state (thread s0 t)" "\<forall>u. u \<noteq> t \<longrightarrow> thread s1 u = thread s0 u"
    using mutex_restore_ok [OF inv0 good0, of "mx_original_priority (mutex s0 i)" t] by blast
  have mx1: "mutex s1 = mutex s0" using s1(3) by (simp add: ipc_frame_def)
  have ws1: "waiters F1 (Suspend_thread (Mutex i)) ws" using s1(4) ws by simp
  have emp: "rt_list_isempty (Suspend_thread (Mutex i)) (links s1) \<longleftrightarrow> ws = []"
    using rl.isempty_iff [OF kinv_wf [OF s1(1)], of "Suspend_thread (Mutex i)"] ws1 by simp
  have rel: "rt_mutex_release i s = (if \<not> rt_list_isempty (Suspend_thread (Mutex i)) (links s1) then
       rbind (thread_entry (lnext (links s1) (Suspend_thread (Mutex i)))) (\<lambda>u.
       (let s = upd_mutex i (\<lambda>m. m\<lparr>mx_owner := Some u, mx_original_priority := th_current_priority (thread s1 u)\<rparr>) s1;
            s = upd_mutex i (\<lambda>m. m\<lparr>mx_hold := mx_hold m + 1\<rparr>) s
        in rbind (rt_ipc_list_resume (Suspend_thread (Mutex i)) s) (\<lambda>s. rbind (rt_schedule s) (\<lambda>s. Ok (RT_EOK, s)))))
     else
       (let s = upd_mutex i (\<lambda>m. m\<lparr>mx_value := mx_value m + 1\<rparr>) s1
        in Ok (RT_EOK, upd_mutex i (\<lambda>m. m\<lparr>mx_owner := None, mx_original_priority := 0xff\<rparr>) s)))"
    using cur irq own s0m(1) act
    by (simp add: rt_mutex_release_def s0_def [symmetric] Let_def in_thread_context_def not_in_interrupt_def
        rt_thread_self_def del: upd_mutex_def)
  show ?thesis
  proof (cases ws)
    case Nil
    let ?s = "upd_mutex i (\<lambda>m. m\<lparr>mx_owner := None, mx_original_priority := 0xff\<rparr>) (upd_mutex i (\<lambda>m. m\<lparr>mx_value := mx_value m + 1\<rparr>) s1)"
    have "rt_mutex_release i s = Ok (RT_EOK, ?s)" using rel emp Nil by (simp add: Let_def)
    moreover have "kinv ?s F1" by (intro kinv_mutex s1(1))
    moreover have "kgood ?s" by (intro kgood_mutex s1(2))
    ultimately show ?thesis
      using Nil ws1 s0m s1(7) mx1 by (intro exI [of _ ?s] exI [of _ F1]) (simp add: rt_mutex.equality)
  next
    case (Cons u us)
    let ?s = "upd_mutex i (\<lambda>m. m\<lparr>mx_hold := mx_hold m + 1\<rparr>)
       (upd_mutex i (\<lambda>m. m\<lparr>mx_owner := Some u, mx_original_priority := th_current_priority (thread s1 u)\<rparr>) s1)"
    have nx: "lnext (links s1) (Suspend_thread (Mutex i)) = Tlist u"
      using rl.nxt_head [OF kinv_wf [OF s1(1)], of "Suspend_thread (Mutex i)"] ws1 Cons by simp
    have k: "kinv ?s F1" by (intro kinv_mutex s1(1))
    have g: "kgood ?s" by (intro kgood_mutex s1(2))
    obtain s2 s' F' where w: "rt_ipc_list_resume (Suspend_thread (Mutex i)) ?s = Ok s2" "rt_schedule s2 = Ok s'"
        "woken ?s F1 u (Suspend_thread (Mutex i)) us s' F'"
      using ipc_wake_woken [OF k g, of "Suspend_thread (Mutex i)" u us] ws1 Cons by auto
    have ok: "rt_mutex_release i s = Ok (RT_EOK, s')"
      using rel emp Cons nx w(1,2) by (simp add: Let_def)
    have tu: "t \<noteq> u"
    proof
      assume "t = u"
      then have "suspended s1 t"
        using kinv_node [OF s1(1), of "Tlist u" "Suspend_thread (Mutex i)"] ws1 Cons by simp
      then show False using rdy s1(8) s0m(4) by simp
    qed
    have "mutex s' i = \<lparr>mx_value = 0, mx_original_priority = th_current_priority (thread s u), mx_hold = 1, mx_owner = Some u\<rparr>"
      using w(3) s0m mx1 tu s1(9) by (simp add: woken_def ipc_frame_def rt_mutex.equality)
    moreover have "th_current_priority (thread s' t) = mx_original_priority (mutex s i)"
      using w(3) tu s1(7) s0m(2) by (simp add: woken_def)
    ultimately show ?thesis
      using ok w(3) Cons by (intro exI [of _ s'] exI [of _ F']) (simp add: woken_def)
  qed
qed

section \<open>Two corner cases of the code\<close>

text \<open>The hold count has eight bits: the 256th nested take brings it back to zero.\<close>

lemma mutex_hold_wraps:
  assumes "rt_current_thread s = Some t" "rt_interrupt_nest s = 0" "mx_owner (mutex s i) = Some t" "mx_hold (mutex s i) = 0xff"
  shows "\<exists>s'. rt_mutex_take i time s = Ok (Some RT_EOK, s') \<and> mx_hold (mutex s' i) = 0 \<and> mx_owner (mutex s' i) = Some t"
  using assms by (simp add: rt_mutex_take_def in_thread_context_def not_in_interrupt_def rt_thread_self_def)

end
