(* ===== verification/RT_Event.thy ===== *)
theory RT_Event
  imports RT_Semaphore
begin

text \<open>
  Events of \<^verbatim>\<open>src/src/ipc.c\<close>: 32 flags, and threads that wait for all or for any of a set of them.
\<close>

section \<open>Operations\<close>

abbreviation (input) RT_EVENT_FLAG_AND :: u8 where "RT_EVENT_FLAG_AND \<equiv> 0x01"
abbreviation (input) RT_EVENT_FLAG_OR :: u8 where "RT_EVENT_FLAG_OR \<equiv> 0x02"
abbreviation (input) RT_EVENT_FLAG_CLEAR :: u8 where "RT_EVENT_FLAG_CLEAR \<equiv> 0x04"

definition upd_event :: "nat \<Rightarrow> (rt_event \<Rightarrow> rt_event) \<Rightarrow> kstate \<Rightarrow> kstate" where
  [simp]: "upd_event i f s = s\<lparr>event := (event s)(i := f (event s i))\<rparr>"

definition event_struct_init :: "nat \<Rightarrow> u8 \<Rightarrow> kstate \<Rightarrow> kstate" where
  "event_struct_init i flag s =
     (let s = upd_object (O_ipc (Event i)) (\<lambda>r. r\<lparr>ob_flag := flag\<rparr>) s;
          s = rt_ipc_object_init (Event i) s
      in upd_event i (\<lambda>e. e\<lparr>ev_set := 0\<rparr>) s)"

definition rt_event_init :: "nat \<Rightarrow> cstr \<Rightarrow> u8 \<Rightarrow> kstate \<Rightarrow> (int \<times> kstate) res" where
  "rt_event_init i name flag s =
     rbind (rt_object_init (O_ipc (Event i)) Class_Event name s) (\<lambda>s.
     Ok (RT_EOK, event_struct_init i flag s))"

definition rt_event_detach :: "nat \<Rightarrow> kstate \<Rightarrow> (int \<times> kstate) res" where
  "rt_event_detach i s =
     rbind (rt_ipc_list_resume_all (Suspend_thread (Event i)) s) (\<lambda>s.
     Ok (RT_EOK, rt_object_detach (O_ipc (Event i)) s))"

definition rt_event_create :: "nat option \<Rightarrow> cstr \<Rightarrow> u8 \<Rightarrow> kstate \<Rightarrow> (nat option \<times> kstate) res" where
  "rt_event_create malloc name flag s =
     rbind (rassert (not_in_interrupt s) s) (\<lambda>s.
     rbind (rt_object_allocate (map_option (O_ipc \<circ> Event) malloc) Class_Event name s) (\<lambda>(ob, s).
     case malloc of None \<Rightarrow> Ok (None, s) | Some i \<Rightarrow> Ok (Some i, event_struct_init i flag s)))"

definition rt_event_delete :: "nat \<Rightarrow> kstate \<Rightarrow> (int \<times> kstate) res" where
  "rt_event_delete i s =
     rbind (rassert (not_in_interrupt s) s) (\<lambda>s.
     rbind (rt_ipc_list_resume_all (Suspend_thread (Event i)) s) (\<lambda>s.
     rbind (rt_object_delete (O_ipc (Event i)) s) (\<lambda>s.
     Ok (RT_EOK, s))))"

text \<open>
  The body of the loop of \<^verbatim>\<open>rt_event_send\<close> for one waiting thread: whether its condition is met, after
  the thread's \<^verbatim>\<open>event_set\<close> has been replaced by the events received.
\<close>

definition event_status :: "nat \<Rightarrow> thread_id \<Rightarrow> kstate \<Rightarrow> bool \<times> kstate" where
  "event_status i t s =
     (if th_event_info (thread s t) AND RT_EVENT_FLAG_AND \<noteq> 0 then
        (th_event_set (thread s t) AND ev_set (event s i) = th_event_set (thread s t), s)
      else if th_event_info (thread s t) AND RT_EVENT_FLAG_OR \<noteq> 0 then
        (if th_event_set (thread s t) AND ev_set (event s i) \<noteq> 0
         then (True, upd_thread t (\<lambda>th. th\<lparr>th_event_set := th_event_set th AND ev_set (event s i)\<rparr>) s)
         else (False, s))
      else (False, s))"

definition event_wake :: "nat \<Rightarrow> thread_id \<Rightarrow> kstate \<Rightarrow> kstate" where
  "event_wake i t s =
     (let s = (if th_event_info (thread s t) AND RT_EVENT_FLAG_CLEAR \<noteq> 0
               then upd_event i (\<lambda>e. e\<lparr>ev_set := ev_set e AND NOT (th_event_set (thread s t))\<rparr>) s else s)
      in snd (rt_thread_resume t s))"

partial_function (option) event_send_loop :: "nat \<Rightarrow> node \<Rightarrow> bool \<Rightarrow> kstate \<Rightarrow> (bool \<times> kstate) res option" where
  "event_send_loop i n need_schedule s =
     (if n \<noteq> Suspend_thread (Event i) then
        (case thread_entry n of
           Fault e \<Rightarrow> Some (Fault e)
         | Ok t \<Rightarrow>
             (let (status, s) = event_status i t s;
                  n = lnext (links s) n
              in if status then event_send_loop i n True (event_wake i t s)
                 else event_send_loop i n need_schedule s))
      else Some (Ok (need_schedule, s)))"

definition rt_event_send :: "nat \<Rightarrow> u32 \<Rightarrow> kstate \<Rightarrow> (int \<times> kstate) res" where
  "rt_event_send i evs s =
     (if evs = 0 then Ok (- RT_ERROR, s)
      else
        (let s = upd_event i (\<lambda>e. e\<lparr>ev_set := ev_set e OR evs\<rparr>) s
         in rbind
              (if \<not> rt_list_isempty (Suspend_thread (Event i)) (links s)
               then loop_res (event_send_loop i (lnext (links s) (Suspend_thread (Event i))) False s)
               else Ok (False, s)) (\<lambda>(need_schedule, s).
            if need_schedule then rbind (rt_schedule s) (\<lambda>s. Ok (RT_EOK, s))
            else Ok (RT_EOK, s))))"

text \<open>The value of a call that returned: the error code and what was stored through \<^verbatim>\<open>recved\<close>.\<close>

definition rt_event_recv ::
    "nat \<Rightarrow> u32 \<Rightarrow> u8 \<Rightarrow> u32 \<Rightarrow> kstate \<Rightarrow> ((int \<times> u32 option) option \<times> kstate) res" where
  "rt_event_recv i evs opt timeout s =
     rbind (rassert (in_thread_context s) s) (\<lambda>s.
     if evs = 0 then Ok (Some (- RT_ERROR, None), s)
     else
       (case rt_thread_self s of
          None \<Rightarrow> Fault Null_Pointer
        | Some t \<Rightarrow>
            (let s = upd_thread t (\<lambda>th. th\<lparr>th_error := RT_EOK\<rparr>) s
             in rbind
                  (if opt AND RT_EVENT_FLAG_AND \<noteq> 0 then Ok (ev_set (event s i) AND evs = evs)
                   else if opt AND RT_EVENT_FLAG_OR \<noteq> 0 then Ok (ev_set (event s i) AND evs \<noteq> 0)
                   else Fault Assert_Failed) (\<lambda>status.
                if status then
                  (let recved = ev_set (event s i) AND evs;
                       s = (if opt AND RT_EVENT_FLAG_CLEAR \<noteq> 0
                            then upd_event i (\<lambda>e. e\<lparr>ev_set := ev_set e AND NOT evs\<rparr>) s else s)
                   in Ok (Some (th_error (thread s t), Some recved), s))
                else if timeout = 0 then
                  (let s = upd_thread t (\<lambda>th. th\<lparr>th_error := - RT_ETIMEOUT\<rparr>) s
                   in Ok (Some (th_error (thread s t), None), s))
                else
                  (let s = upd_thread t (\<lambda>th. th\<lparr>th_event_set := evs, th_event_info := opt\<rparr>) s
                   in rbind (rt_ipc_list_suspend (Suspend_thread (Event i)) t (ob_flag (object s (O_ipc (Event i)))) s) (\<lambda>s.
                      rbind (wait_timer t timeout s) (\<lambda>s.
                      block t (C_event_recv i) s)))))))"

definition rt_event_recv_resume :: "thread_id \<Rightarrow> nat \<Rightarrow> kstate \<Rightarrow> (int \<times> u32 option) \<times> kstate" where
  "rt_event_recv_resume t i s =
     (let s = s\<lparr>cont := (cont s)(t := None)\<rparr>
      in if th_error (thread s t) \<noteq> RT_EOK then ((th_error (thread s t), None), s)
         else ((th_error (thread s t), Some (th_event_set (thread s t))), s))"

fun rt_event_control :: "nat \<Rightarrow> ipc_cmd \<Rightarrow> kstate \<Rightarrow> (int \<times> kstate) res" where
  "rt_event_control i (Ipc_reset arg) s =
     rbind (rt_ipc_list_resume_all (Suspend_thread (Event i)) s) (\<lambda>s.
     (let s = upd_event i (\<lambda>e. e\<lparr>ev_set := 0\<rparr>) s
      in rbind (rt_schedule s) (\<lambda>s. Ok (RT_EOK, s))))"
| "rt_event_control i Ipc_other s = Ok (- RT_ERROR, s)"

section \<open>What a send delivers\<close>

definition satisfied :: "u8 \<Rightarrow> u32 \<Rightarrow> u32 \<Rightarrow> bool" where
  "satisfied info evs E \<longleftrightarrow>
     (if info AND RT_EVENT_FLAG_AND \<noteq> 0 then evs AND E = evs
      else info AND RT_EVENT_FLAG_OR \<noteq> 0 \<and> evs AND E \<noteq> 0)"

definition received :: "u8 \<Rightarrow> u32 \<Rightarrow> u32 \<Rightarrow> u32" where
  "received info evs E = (if info AND RT_EVENT_FLAG_AND \<noteq> 0 then evs else evs AND E)"

text \<open>
  The reference: the waiters are served in order; one that clears takes its events away from those
  behind it. The result is the remaining flags, the served threads with their events, and the
  threads still waiting.
\<close>

fun deliver :: "(thread_id \<Rightarrow> u8) \<Rightarrow> (thread_id \<Rightarrow> u32) \<Rightarrow> u32 \<Rightarrow> thread_id list \<Rightarrow>
    u32 \<times> (thread_id \<times> u32) list \<times> thread_id list" where
  "deliver info es E [] = (E, [], [])"
| "deliver info es E (t # ws) =
     (if satisfied (info t) (es t) E then
        (let r = received (info t) (es t) E;
             E' = (if info t AND RT_EVENT_FLAG_CLEAR \<noteq> 0 then E AND NOT r else E);
             (E'', served, rest) = deliver info es E' ws
         in (E'', (t, r) # served, rest))
      else
        (let (E'', served, rest) = deliver info es E ws
         in (E'', served, t # rest)))"

lemma satisfied_mono:
  assumes "satisfied info evs (E AND X)"
  shows "satisfied info evs E"
proof (cases "info AND RT_EVENT_FLAG_AND \<noteq> 0")
  case True
  then have "evs AND (E AND X) = evs" using assms by (simp add: satisfied_def)
  moreover have "(evs AND (E AND X)) AND E = evs AND (E AND X)"
    by (rule bit_eqI) (auto simp: bit_and_iff)
  ultimately have "evs AND E = evs" by simp
  then show ?thesis using True by (simp add: satisfied_def)
next
  case False
  have "evs AND E \<noteq> 0"
  proof
    assume "evs AND E = 0"
    then have "evs AND (E AND X) = 0" by (simp add: and.assoc [symmetric])
    then show False using assms False by (simp add: satisfied_def)
  qed
  then show ?thesis using False assms by (simp add: satisfied_def)
qed

lemma deliver_shrinks:
  "deliver info es E ws = (E', served, rest) \<Longrightarrow> \<exists>X. E' = E AND X"
proof (induction info es E ws arbitrary: E' served rest rule: deliver.induct)
  case (1 info es E)
  then show ?case by (intro exI [of _ "- 1"]) simp
next
  case (2 info es E t ws)
  show ?case
  proof (cases "satisfied (info t) (es t) E")
    case True
    define E1 where "E1 = (if info t AND 4 \<noteq> 0 then E AND NOT (received (info t) (es t) E) else E)"
    obtain served' where "deliver info es E1 ws = (E', served', rest)"
      using 2(3) True by (auto simp: E1_def Let_def split: prod.splits)
    then obtain X where X: "E' = E1 AND X" using 2(1) [OF True refl E1_def] by blast
    define Y where "Y = (if info t AND 4 \<noteq> 0 then NOT (received (info t) (es t) E) else - 1)"
    have "E1 = E AND Y" by (simp add: E1_def Y_def)
    then have "E' = E AND (Y AND X)" using X by (simp only: and.assoc)
    then show ?thesis by (rule exI)
  next
    case False
    then obtain rest' where "deliver info es E ws = (E', served, rest')"
      using 2(3) by (auto split: prod.splits)
    then show ?thesis by (rule 2(2) [OF False])
  qed
qed

lemma deliver_rest_unsatisfied:
  "deliver info es E ws = (E', served, rest) \<Longrightarrow> t \<in> set rest \<Longrightarrow> \<not> satisfied (info t) (es t) E'"
proof (induction info es E ws arbitrary: E' served rest rule: deliver.induct)
  case (2 info es E u ws)
  show ?case
  proof (cases "satisfied (info u) (es u) E")
    case True
    define E1 where "E1 = (if info u AND 4 \<noteq> 0 then E AND NOT (received (info u) (es u) E) else E)"
    obtain served' where "deliver info es E1 ws = (E', served', rest)"
      using 2(3) True by (auto simp: E1_def Let_def split: prod.splits)
    then show ?thesis using 2(1) [OF True refl E1_def] 2(4) by blast
  next
    case False
    then obtain rest' where r: "deliver info es E ws = (E', served, rest')" "rest = u # rest'"
      using 2(3) by (auto split: prod.splits)
    obtain X where "E' = E AND X" using deliver_shrinks [OF r(1)] by blast
    then have "\<not> satisfied (info u) (es u) E'" using False satisfied_mono by blast
    then show ?thesis using 2(2) [OF False r(1)] 2(4) r(2) by auto
  qed
qed simp

lemma deliver_parts:
  "deliver info es E ws = (E', served, rest) \<Longrightarrow> set ws = fst ` set served \<union> set rest"
proof (induction info es E ws arbitrary: E' served rest rule: deliver.induct)
  case (2 info es E u ws)
  show ?case
  proof (cases "satisfied (info u) (es u) E")
    case True
    define E1 where "E1 = (if info u AND 4 \<noteq> 0 then E AND NOT (received (info u) (es u) E) else E)"
    obtain served' where "deliver info es E1 ws = (E', served', rest)" "served = (u, received (info u) (es u) E) # served'"
      using 2(3) True by (auto simp: E1_def Let_def split: prod.splits)
    then show ?thesis using 2(1) [OF True refl E1_def] by auto
  next
    case False
    then obtain rest' where r: "deliver info es E ws = (E', served, rest')" "rest = u # rest'"
      using 2(3) by (auto split: prod.splits)
    then show ?thesis using 2(2) [OF False r(1)] by auto
  qed
qed simp

lemma deliver_disjoint:
  "deliver info es E ws = (E', served, rest) \<Longrightarrow> distinct ws \<Longrightarrow> fst ` set served \<inter> set rest = {}"
proof (induction info es E ws arbitrary: E' served rest rule: deliver.induct)
  case (2 info es E u ws)
  show ?case
  proof (cases "satisfied (info u) (es u) E")
    case True
    define E1 where "E1 = (if info u AND 4 \<noteq> 0 then E AND NOT (received (info u) (es u) E) else E)"
    obtain served' where d: "deliver info es E1 ws = (E', served', rest)" "served = (u, received (info u) (es u) E) # served'"
      using 2(3) True unfolding E1_def by (auto simp: Let_def split: prod.splits)
    then have "u \<notin> set rest" using deliver_parts [OF d(1)] 2(4) by auto
    then show ?thesis using 2(1) [OF True refl E1_def d(1)] d 2(4) by auto
  next
    case False
    then obtain rest' where r: "deliver info es E ws = (E', served, rest')" "rest = u # rest'"
      using 2(3) by (auto split: prod.splits)
    have "u \<notin> fst ` set served" using deliver_parts [OF r(1)] 2(4) by auto
    then show ?thesis using 2(2) [OF False r(1)] 2(4) r(2) by auto
  qed
qed simp

section \<open>The loop of rt_event_send delivers\<close>

lemma make_ready_middle:
  assumes inv: "kinv s F" and h: "wait_head h" and ws: "waiters F h (xs @ t # ws)"
  shows "make_ready s t F h = map Tlist (xs @ ws)"
    and "wait_head k \<Longrightarrow> k \<noteq> h \<Longrightarrow> make_ready s t F k = F k"
    and "suspended s t" "t \<notin> set xs" "t \<notin> set ws"
proof -
  have row: "Row (Thread_timer t) 0 \<notin> set (F k)" "k \<noteq> ready_head s t" if "wait_head k" for k
    using kinv_node [OF inv, of "Row (Thread_timer t) 0" k] that by (auto simp: wait_head_def)
  have "distinct (map Tlist (xs @ t # ws))"
    using lists_wf_distinct [OF kinv_wf [OF inv], of h] ws by simp
  then show nin: "t \<notin> set xs" "t \<notin> set ws" by (auto simp: distinct_map)
  then have "remove1 (Tlist t) (F h) = map Tlist (xs @ ws)"
    using ws remove1_split [of "Tlist t" "map Tlist xs" "map Tlist ws"] by (auto simp: image_iff)
  then show "make_ready s t F h = map Tlist (xs @ ws)"
    using row [OF h] by (simp add: make_ready_def drop_timer_def drop_thread_def Let_def remove1_idem image_iff)
  show "make_ready s t F k = F k" if k: "wait_head k" "k \<noteq> h"
  proof -
    have "Tlist t \<notin> set (F k)"
      using lists_wf_unique [OF kinv_wf [OF inv], of "Tlist t" h k] ws k(2) by auto
    then show ?thesis
      using row [OF k(1)] by (simp add: make_ready_def drop_timer_def drop_thread_def Let_def remove1_idem)
  qed
  show "suspended s t"
    using kinv_node [OF inv, of "Tlist t" h] ws h by (auto simp: wait_head_def)
qed

text \<open>
  \<open>event_sent s F i xs served rest E s' F'\<close>: the loop turned \<open>s\<close> into \<open>s'\<close>, where the threads \<open>served\<close> are ready and
  hold the events they received, \<open>xs\<close> and \<open>rest\<close> still wait, the flags are \<open>E\<close>, and nothing else changed.
\<close>

definition event_sent ::
    "kstate \<Rightarrow> (node \<Rightarrow> node list) \<Rightarrow> nat \<Rightarrow> thread_id list \<Rightarrow> (thread_id \<times> u32) list \<Rightarrow> thread_id list \<Rightarrow> u32 \<Rightarrow>
     kstate \<Rightarrow> (node \<Rightarrow> node list) \<Rightarrow> bool" where
  "event_sent s F i xs served rest E s' F' \<longleftrightarrow>
     kinv s' F' \<and> kgood s' \<and> waiters F' (Suspend_thread (Event i)) (xs @ rest) \<and>
     (\<forall>k. wait_head k \<and> k \<noteq> Suspend_thread (Event i) \<longrightarrow> F' k = F k) \<and>
     event s' = (event s)(i := (event s i)\<lparr>ev_set := E\<rparr>) \<and>
     (\<forall>(t, r) \<in> set served. ready s' t \<and> th_event_set (thread s' t) = r \<and> th_error (thread s' t) = th_error (thread s t)) \<and>
     (\<forall>t. t \<notin> fst ` set served \<longrightarrow> thread s' t = thread s t) \<and>
     sem s' = sem s \<and> mutex s' = mutex s \<and> mailbox s' = mailbox s \<and> msgqueue s' = msgqueue s \<and>
     mempool s' = mempool s \<and> cont s' = cont s \<and> rt_tick s' = rt_tick s \<and>
     rt_scheduler_lock_nest s' = rt_scheduler_lock_nest s \<and> rt_interrupt_nest s' = rt_interrupt_nest s"

lemma event_status_eq:
  fixes s :: kstate and t :: thread_id and i :: nat
  defines "th \<equiv> thread s t" and "E \<equiv> ev_set (event s i)"
  shows "event_status i t s =
    (satisfied (th_event_info th) (th_event_set th) E,
     if satisfied (th_event_info th) (th_event_set th) E
     then upd_thread t (\<lambda>th. th\<lparr>th_event_set := received (th_event_info th) (th_event_set th) E\<rparr>) s else s)"
  by (auto simp: event_status_def satisfied_def received_def th_def E_def fun_upd_idem)

lemma event_send_loop_ok:
  assumes "kinv s F" "kgood s" "waiters F (Suspend_thread (Event i)) (xs @ ws)"
    and "\<forall>t \<in> set ws. th_event_info (thread s t) = info t \<and> th_event_set (thread s t) = es t"
    and "deliver info es (ev_set (event s i)) ws = (E, served, rest)"
  shows "\<exists>s' F'. event_send_loop i (hd (map Tlist ws @ [Suspend_thread (Event i)])) need s =
      Some (Ok (need \<or> served \<noteq> [], s')) \<and> event_sent s F i xs served rest E s' F'"
  using assms
proof (induction ws arbitrary: s F xs need E served rest)
  case Nil
  then have "event_send_loop i (Suspend_thread (Event i)) need s = Some (Ok (need, s))"
    by (subst event_send_loop.simps) simp
  moreover have "event_sent s F i xs [] [] (ev_set (event s i)) s F"
    using Nil.prems(1-3) by (simp add: event_sent_def fun_upd_idem)
  ultimately show ?case using Nil.prems(5) by auto
next
  case (Cons t ws)
  let ?h = "Suspend_thread (Event i)"
  note inv = Cons.prems(1) and good = Cons.prems(2) and W = Cons.prems(3)
  note m = make_ready_middle [OF inv wait_head_simps(1) W]
  have nx: "lnext (links s) (Tlist t) = hd (map Tlist ws @ [?h])"
    using rl.nxt_member [OF kinv_wf [OF inv], of ?h "map Tlist xs" "Tlist t" "map Tlist ws"] W by simp
  have t: "th_event_info (thread s t) = info t" "th_event_set (thread s t) = es t" using Cons.prems(4) by simp_all
  define E0 where "E0 = ev_set (event s i)"
  show ?case
  proof (cases "satisfied (info t) (es t) E0")
    case False
    then obtain rest' where d: "deliver info es E0 ws = (E, served, rest')" "rest = t # rest'"
      using Cons.prems(5) by (auto simp: E0_def split: prod.splits)
    have "event_send_loop i (Tlist t) need s = event_send_loop i (hd (map Tlist ws @ [?h])) need s"
      using False nx by (subst event_send_loop.simps) (simp add: event_status_eq t E0_def)
    moreover obtain s' F' where "event_send_loop i (hd (map Tlist ws @ [?h])) need s = Some (Ok (need \<or> served \<noteq> [], s'))"
        "event_sent s F i (xs @ [t]) served rest' E s' F'"
      using Cons.IH [OF inv good, of "xs @ [t]" E served rest' need] W Cons.prems(4) d(1) by (auto simp: E0_def)
    ultimately show ?thesis using d(2) by (auto simp: event_sent_def)
  next
    case True
    define r where "r = received (info t) (es t) E0"
    define E1 where "E1 = (if info t AND 4 \<noteq> 0 then E0 AND NOT r else E0)"
    obtain served' where d: "deliver info es E1 ws = (E, served', rest)" "served = (t, r) # served'"
      using Cons.prems(5) True unfolding E1_def r_def E0_def by (auto simp: Let_def split: prod.splits)
    define s1 where "s1 = s\<lparr>thread := (thread s)(t := (thread s t)\<lparr>th_event_set := r\<rparr>),
        event := (event s)(i := (event s i)\<lparr>ev_set := E1\<rparr>)\<rparr>"
    define s2 where "s2 = snd (rt_thread_resume t s1)"
    have inv1: "kinv s1 F" by (rule kinv_cong [OF inv]) (simp_all add: s1_def same_defs)
    have good1: "kgood s1" by (rule kgood_cong [OF good]) (simp_all add: s1_def)
    have sus1: "suspended s1 t" using m(3) by (simp add: s1_def)
    have inv2: "kinv s2 (make_ready s1 t F)" unfolding s2_def by (rule kinv_thread_resume(1) [OF inv1 sus1])
    have good2: "kgood s2" unfolding s2_def by (rule kgood_resume [OF good1 sus1])
    note m1 = make_ready_middle [OF inv1 wait_head_simps(1) W]
    have th2: "thread s2 = (thread s1)(t := (thread s1 t)\<lparr>th_stat := RT_THREAD_READY OR (th_stat (thread s1 t) AND NOT RT_THREAD_STAT_MASK)\<rparr>)"
      unfolding s2_def by (rule resume_fields(1) [OF sus1])
    have fr: "ipc_frame s1 s2" unfolding s2_def by (rule ipc_frame_resume)
    have c2: "cont s2 = cont s1" unfolding s2_def by (subst resume_fields(2) [OF sus1]) simp
    have ev2: "event s2 = event s1" using fr by (simp add: ipc_frame_def)
    have wk: "event_wake i t (upd_thread t (\<lambda>th. th\<lparr>th_event_set := r\<rparr>) s) = s2"
      using t by (auto simp: event_wake_def s2_def s1_def E1_def E0_def fun_upd_idem)
    have "event_send_loop i (Tlist t) need s = event_send_loop i (hd (map Tlist ws @ [?h])) True s2"
      using True nx wk by (subst event_send_loop.simps) (simp add: event_status_eq t E0_def r_def)
    moreover have oth: "thread s2 u = thread s u" if "u \<noteq> t" for u using that by (simp add: th2 s1_def)
    then have "\<forall>u \<in> set ws. th_event_info (thread s2 u) = info u \<and> th_event_set (thread s2 u) = es u"
      using m(5) Cons.prems(4) by (metis insert_iff list.simps(15))
    moreover have "deliver info es (ev_set (event s2 i)) ws = (E, served', rest)" using d(1) by (simp add: ev2 s1_def)
    ultimately obtain s' F' where l: "event_send_loop i (Tlist t) need s = Some (Ok (True, s'))"
        "event_sent s2 (make_ready s1 t F) i xs served' rest E s' F'"
      using Cons.IH [OF inv2 good2 m1(1), of E served' rest True] by auto
    have nt: "t \<notin> fst ` set served'" using deliver_parts [OF d(1)] m(5) by auto
    have "event_sent s F i xs served rest E s' F'"
      using l(2) nt oth fr m1(2) th2 ready_stat c2
      by (auto simp: event_sent_def d(2) ev2 s1_def ipc_frame_def)
    then show ?thesis using l(1) d(2) by auto
  qed
qed

section \<open>Sending and receiving\<close>

text \<open>No waiter is left whose condition holds.\<close>

definition event_inv :: "kstate \<Rightarrow> (node \<Rightarrow> node list) \<Rightarrow> nat \<Rightarrow> bool" where
  "event_inv s F i \<longleftrightarrow>
     (\<forall>t. Tlist t \<in> set (F (Suspend_thread (Event i))) \<longrightarrow>
        \<not> satisfied (th_event_info (thread s t)) (th_event_set (thread s t)) (ev_set (event s i)))"

abbreviation event_deliver :: "kstate \<Rightarrow> nat \<Rightarrow> u32 \<Rightarrow> thread_id list \<Rightarrow> u32 \<times> (thread_id \<times> u32) list \<times> thread_id list" where
  "event_deliver s i evs ws \<equiv>
     deliver (\<lambda>t. th_event_info (thread s t)) (\<lambda>t. th_event_set (thread s t)) (ev_set (event s i) OR evs) ws"

lemma event_sent_schedule:
  assumes "event_sent s F i xs served rest E s1 F'" "rt_schedule s1 = Ok s'" "kgood s'"
  shows "event_sent s F i xs served rest E s' F'"
proof -
  have eq: "s' = s1\<lparr>rt_current_priority := rt_current_priority s', rt_current_thread := rt_current_thread s'\<rparr>"
    and inv: "kinv s' F'" using kinv_schedule [OF _ assms(2), of F'] assms(1) by (simp_all add: event_sent_def)
  have "thread s' = thread s1" "event s' = event s1" "sem s' = sem s1" "mutex s' = mutex s1" "mailbox s' = mailbox s1"
      "msgqueue s' = msgqueue s1" "mempool s' = mempool s1" "cont s' = cont s1" "rt_tick s' = rt_tick s1"
      "rt_scheduler_lock_nest s' = rt_scheduler_lock_nest s1" "rt_interrupt_nest s' = rt_interrupt_nest s1"
    by (subst eq, simp)+
  then show ?thesis using assms(1,3) inv by (simp add: event_sent_def)
qed

lemma event_send_ok:
  assumes inv: "kinv s F" and good: "kgood s" and ws: "waiters F (Suspend_thread (Event i)) ws" and evs: "evs \<noteq> 0"
    and d: "event_deliver s i evs ws = (E, served, rest)"
  shows "\<exists>s' F'. rt_event_send i evs s = Ok (RT_EOK, s') \<and> event_sent s F i [] served rest E s' F' \<and>
    (served \<noteq> [] \<and> rt_scheduler_lock_nest s = 0 \<longrightarrow> (\<exists>v. rt_current_thread s' = Some v \<and> top_thread s' v))"
proof -
  let ?h = "Suspend_thread (Event i)"
  define s0 where "s0 = upd_event i (\<lambda>e. e\<lparr>ev_set := ev_set e OR evs\<rparr>) s"
  have inv0: "kinv s0 F" by (rule kinv_cong [OF inv]) (simp_all add: s0_def same_defs)
  have good0: "kgood s0" by (rule kgood_cong [OF good]) (simp_all add: s0_def)
  have "\<forall>t \<in> set ws. th_event_info (thread s0 t) = th_event_info (thread s t) \<and> th_event_set (thread s0 t) = th_event_set (thread s t)"
    by (simp add: s0_def)
  moreover have "deliver (\<lambda>t. th_event_info (thread s t)) (\<lambda>t. th_event_set (thread s t)) (ev_set (event s0 i)) ws = (E, served, rest)"
    using d by (simp add: s0_def)
  moreover have "waiters F ?h ([] @ ws)" using ws by simp
  ultimately obtain s1 F' where l: "event_send_loop i (hd (map Tlist ws @ [?h])) False s0 = Some (Ok (served \<noteq> [], s1))"
      "event_sent s0 F i [] served rest E s1 F'"
    using event_send_loop_ok [OF inv0 good0, of i "[]" ws "\<lambda>t. th_event_info (thread s t)" "\<lambda>t. th_event_set (thread s t)"
        E served rest False] by auto
  have sent: "event_sent s F i [] served rest E s1 F'" using l(2) by (simp add: event_sent_def s0_def)
  have nx: "lnext (links s0) ?h = hd (map Tlist ws @ [?h])"
    using rl.nxt_head [OF kinv_wf [OF inv0], of ?h] ws by simp
  have em: "rt_list_isempty ?h (links s0) \<longleftrightarrow> ws = []"
    using rl.isempty_iff [OF kinv_wf [OF inv0], of ?h] ws by simp
  have "(if \<not> rt_list_isempty ?h (links s0) then loop_res (event_send_loop i (lnext (links s0) ?h) False s0)
      else Ok (False, s0)) = Ok (served \<noteq> [], s1)"
  proof (cases "ws = []")
    case True
    then have "s1 = s0 \<and> served = []"
      using l(1) by (subst (asm) event_send_loop.simps) auto
    then show ?thesis using True em by simp
  qed (use em nx l(1) in simp)
  then have send: "rt_event_send i evs s = (if served \<noteq> [] then rbind (rt_schedule s1) (\<lambda>s. Ok (RT_EOK, s)) else Ok (RT_EOK, s1))"
    unfolding rt_event_send_def Let_def s0_def [symmetric] using evs by simp
  show ?thesis
  proof (cases "served = []")
    case True
    then show ?thesis using send sent by (intro exI [of _ s1] exI [of _ F']) simp
  next
    case False
    have k1: "kinv s1 F'" "kgood s1" using sent by (simp_all add: event_sent_def)
    obtain t r sv where "served = (t, r) # sv" using False by (cases served) auto
    then have "ready s1 t" using sent by (simp add: event_sent_def)
    then obtain s' where s': "rt_schedule s1 = Ok s'" "kinv s' F'" "rt_current_thread s' \<noteq> None"
      and eq: "s' = s1\<lparr>rt_current_priority := rt_current_priority s', rt_current_thread := rt_current_thread s'\<rparr>"
      and top: "rt_scheduler_lock_nest s1 = 0 \<Longrightarrow> (\<exists>v. rt_current_thread s' = Some v \<and> top_thread s1 v)"
      by (rule schedule_total [OF k1]) blast
    have "event_sent s F i [] served rest E s' F'"
      by (rule event_sent_schedule [OF sent s'(1) kgood_schedule [OF k1(2) s'(3) eq]])
    moreover have "thread s' = thread s1" by (subst eq) simp
    moreover have "rt_scheduler_lock_nest s1 = rt_scheduler_lock_nest s" using sent by (simp add: event_sent_def)
    ultimately show ?thesis
      using send False s'(1) top by (intro exI [of _ s'] exI [of _ F']) (auto simp: top_thread_def)
  qed
qed

lemma event_send_inv:
  assumes "event_deliver s i evs ws = (E, served, rest)" "event_sent s F i [] served rest E s' F'" "distinct ws"
  shows "event_inv s' F' i"
  unfolding event_inv_def
proof (intro allI impI)
  fix t assume "Tlist t \<in> set (F' (Suspend_thread (Event i)))"
  then have t: "t \<in> set rest" using assms(2) by (auto simp: event_sent_def)
  have "t \<notin> fst ` set served" using deliver_disjoint [OF assms(1,3)] t by auto
  then have "thread s' t = thread s t" "ev_set (event s' i) = E" using assms(2) by (simp_all add: event_sent_def)
  then show "\<not> satisfied (th_event_info (thread s' t)) (th_event_set (thread s' t)) (ev_set (event s' i))"
    using deliver_rest_unsatisfied [OF assms(1) t] by simp
qed

definition event_flag_ok :: "kstate \<Rightarrow> nat \<Rightarrow> bool" where
  "event_flag_ok s i \<longleftrightarrow> ob_flag (object s (O_ipc (Event i))) = RT_IPC_FLAG_FIFO \<or>
     ob_flag (object s (O_ipc (Event i))) = RT_IPC_FLAG_PRIO"

text \<open>The thread that waits records what it waits for before it is suspended.\<close>

definition event_request :: "thread_id \<Rightarrow> u32 \<Rightarrow> u8 \<Rightarrow> kstate \<Rightarrow> kstate" where
  "event_request t evs opt s =
     upd_thread t (\<lambda>th. th\<lparr>th_event_set := evs, th_event_info := opt\<rparr>) (upd_thread t (\<lambda>th. th\<lparr>th_error := RT_EOK\<rparr>) s)"

lemma event_recv_block_eq:
  assumes "rt_current_thread s = Some t" "rt_interrupt_nest s = 0" "evs \<noteq> 0" "timeout \<noteq> 0"
    and "opt AND RT_EVENT_FLAG_AND \<noteq> 0 \<or> opt AND RT_EVENT_FLAG_OR \<noteq> 0"
    and "\<not> satisfied opt evs (ev_set (event s i))"
  shows "rt_event_recv i evs opt timeout s =
    ipc_block (Suspend_thread (Event i)) (ob_flag (object s (O_ipc (Event i)))) t timeout (C_event_recv i) (event_request t evs opt s)"
proof -
  have "opt AND RT_EVENT_FLAG_AND \<noteq> 0 \<and> ev_set (event s i) AND evs \<noteq> evs \<or>
      opt AND RT_EVENT_FLAG_AND = 0 \<and> opt AND RT_EVENT_FLAG_OR \<noteq> 0 \<and> ev_set (event s i) AND evs = 0"
    using assms(5,6) by (auto simp: satisfied_def and.commute [of evs "ev_set (event s i)"] split: if_splits)
  then show ?thesis
    by (rule disjE) (use assms(1-4) in \<open>simp_all add: rt_event_recv_def ipc_block_def event_request_def
       in_thread_context_def not_in_interrupt_def rt_thread_self_def Let_def\<close>)
qed

lemma event_recv_now:
  assumes "rt_current_thread s = Some t" "rt_interrupt_nest s = 0" "evs \<noteq> 0"
    and "opt AND RT_EVENT_FLAG_AND \<noteq> 0 \<or> opt AND RT_EVENT_FLAG_OR \<noteq> 0"
    and "satisfied opt evs (ev_set (event s i))"
  shows "\<exists>s'. rt_event_recv i evs opt timeout s = Ok (Some (RT_EOK, Some (received opt evs (ev_set (event s i)))), s') \<and>
    ev_set (event s' i) = (if opt AND RT_EVENT_FLAG_CLEAR \<noteq> 0 then ev_set (event s i) AND NOT (received opt evs (ev_set (event s i)))
       else ev_set (event s i)) \<and> links s' = links s"
proof -
  have r: "ev_set (event s i) AND evs = received opt evs (ev_set (event s i))"
    using assms(5) by (auto simp: satisfied_def received_def and.commute)
  have n: "ev_set (event s i) AND NOT evs = ev_set (event s i) AND NOT (ev_set (event s i) AND evs)"
    by (rule bit_eqI) (auto simp: bit_and_iff bit_not_iff bit_or_iff)
  have "opt AND RT_EVENT_FLAG_AND \<noteq> 0 \<and> ev_set (event s i) AND evs = evs \<or>
      opt AND RT_EVENT_FLAG_AND = 0 \<and> opt AND RT_EVENT_FLAG_OR \<noteq> 0 \<and> ev_set (event s i) AND evs \<noteq> 0"
    using assms(4,5) by (auto simp: satisfied_def and.commute [of evs "ev_set (event s i)"] split: if_splits)
  then show ?thesis
    unfolding r [symmetric]
    by (rule disjE) (use assms(1-3) n in \<open>simp_all add: rt_event_recv_def in_thread_context_def not_in_interrupt_def
       rt_thread_self_def Let_def\<close>)
qed

lemma event_recv_blocks:
  assumes inv: "kinv s F" and cb: "can_block s t" and evs: "evs \<noteq> 0" and time: "timeout \<noteq> 0" "timeout \<noteq> 0x7fffffff"
    and opt: "opt AND RT_EVENT_FLAG_AND \<noteq> 0 \<or> opt AND RT_EVENT_FLAG_OR \<noteq> 0"
    and un: "\<not> satisfied opt evs (ev_set (event s i))" and fl: "event_flag_ok s i"
    and ws: "waiters F (Suspend_thread (Event i)) ws"
  shows "\<exists>s' F'. rt_event_recv i evs opt timeout s = Ok (None, s') \<and>
    blocked_on (event_request t evs opt s) F t (Suspend_thread (Event i))
      (enqueue (ob_flag (object s (O_ipc (Event i)))) s t ws) timeout (C_event_recv i) s' F' \<and>
    (event_inv s F i \<longrightarrow> event_inv s' F' i)"
proof -
  let ?h = "Suspend_thread (Event i)" and ?s = "event_request t evs opt s"
  have inv0: "kinv ?s F" by (rule kinv_cong [OF inv]) (simp_all add: event_request_def same_defs)
  have "kgood ?s" by (rule kgood_cong [of s]) (use cb in \<open>simp_all add: can_block_def event_request_def\<close>)
  then have cb0: "can_block ?s t" using cb by (auto simp: can_block_def event_request_def)
  have enq: "enqueue flag ?s t ws = enqueue flag s t ws" for flag
    by (rule enqueue_cong) (simp add: event_request_def)
  have fl0: "ob_flag (object s (O_ipc (Event i))) = RT_IPC_FLAG_FIFO \<or> ob_flag (object s (O_ipc (Event i))) = RT_IPC_FLAG_PRIO"
    using fl by (simp add: event_flag_ok_def)
  have eq: "rt_event_recv i evs opt timeout s =
      ipc_block ?h (ob_flag (object s (O_ipc (Event i)))) t timeout (C_event_recv i) ?s"
    using event_recv_block_eq [OF _ _ evs time(1) opt un, of t] cb by (simp add: can_block_def)
  obtain s' F' where b: "rt_event_recv i evs opt timeout s = Ok (None, s')"
      "blocked_on ?s F t ?h (enqueue (ob_flag (object s (O_ipc (Event i)))) s t ws) timeout (C_event_recv i) s' F'"
    using ipc_block_blocked [OF inv0 cb0 wait_head_simps(1) ws fl0 time(2), of "C_event_recv i"] unfolding enq eq by blast
  have "event_inv s' F' i" if iv: "event_inv s F i"
    unfolding event_inv_def
  proof (intro allI impI)
    fix u assume "Tlist u \<in> set (F' ?h)"
    then have u: "u = t \<or> u \<in> set ws" using b(2) by (auto simp: blocked_on_def)
    have e: "ev_set (event s' i) = ev_set (event s i)" using b(2) by (simp add: blocked_on_def ipc_frame_def event_request_def)
    show "\<not> satisfied (th_event_info (thread s' u)) (th_event_set (thread s' u)) (ev_set (event s' i))"
    proof (cases "u = t")
      case True
      then show ?thesis using b(2) un e by (simp add: blocked_on_def event_request_def)
    next
      case False
      then have "thread s' u = thread s u" using b(2) by (simp add: blocked_on_def event_request_def)
      then show ?thesis using iv u False ws e by (simp add: event_inv_def)
    qed
  qed
  then show ?thesis using b by blast
qed

end
