(* ===== verification/RT_Contracts.thy ===== *)
theory RT_Contracts
  imports RT_Prelude
begin

text \<open>
  Two contracts that several components of the kernel keep: a bounded first-in first-out buffer
  (mailboxes, message queues, data queues, ring buffers) and a pool of numbered blocks handed out
  from a free list (message queues, memory pools).  Each contract is a locale; what follows from it
  for any sequence of operations is proved here once, and the components interpret the locales on
  their own operations.
\<close>

section \<open>First in, first out\<close>

datatype 'a fifo_op = Put 'a | Get

fun fifo_run ::
    "('q \<Rightarrow> bool) \<Rightarrow> ('a \<Rightarrow> 'q \<Rightarrow> 'q) \<Rightarrow> ('q \<Rightarrow> ('a \<times> 'q) option) \<Rightarrow> 'a fifo_op list \<Rightarrow> 'q \<Rightarrow> ('a list \<times> 'q) option" where
  "fifo_run full put get [] q = Some ([], q)"
| "fifo_run full put get (Put x # ops) q = (if full q then None else fifo_run full put get ops (put x q))"
| "fifo_run full put get (Get # ops) q =
     (case get q of
        None \<Rightarrow> None
      | Some (x, q) \<Rightarrow> map_option (\<lambda>(xs, q). (x # xs, q)) (fifo_run full put get ops q))"

fun fifo_puts :: "'a fifo_op list \<Rightarrow> 'a list" where
  "fifo_puts [] = []"
| "fifo_puts (Put x # ops) = x # fifo_puts ops"
| "fifo_puts (Get # ops) = fifo_puts ops"

text \<open>\<open>fifo_fits n c ops\<close>: starting with \<open>n\<close> of \<open>c\<close> places taken, no put overflows and no get underflows.\<close>

fun fifo_fits :: "nat \<Rightarrow> nat \<Rightarrow> 'a fifo_op list \<Rightarrow> bool" where
  "fifo_fits n c [] \<longleftrightarrow> True"
| "fifo_fits n c (Put x # ops) \<longleftrightarrow> n < c \<and> fifo_fits (Suc n) c ops"
| "fifo_fits n c (Get # ops) \<longleftrightarrow> 0 < n \<and> fifo_fits (n - 1) c ops"

locale fifo =
  fixes inv :: "'q \<Rightarrow> bool"
    and contents :: "'q \<Rightarrow> 'a list"
    and capacity :: "'q \<Rightarrow> nat"
    and full :: "'q \<Rightarrow> bool"
    and put :: "'a \<Rightarrow> 'q \<Rightarrow> 'q"
    and get :: "'q \<Rightarrow> ('a \<times> 'q) option"
  assumes bound: "inv q \<Longrightarrow> length (contents q) \<le> capacity q"
    and full_iff: "inv q \<Longrightarrow> full q \<longleftrightarrow> length (contents q) = capacity q"
    and put_law: "inv q \<Longrightarrow> \<not> full q \<Longrightarrow>
      inv (put x q) \<and> contents (put x q) = contents q @ [x] \<and> capacity (put x q) = capacity q"
    and get_empty: "inv q \<Longrightarrow> contents q = [] \<Longrightarrow> get q = None"
    and get_law: "inv q \<Longrightarrow> contents q = x # xs \<Longrightarrow>
      \<exists>q'. get q = Some (x, q') \<and> inv q' \<and> contents q' = xs \<and> capacity q' = capacity q"
begin

lemma run_law:
  assumes "inv q" "fifo_run full put get ops q = Some (xs, q')"
  shows "inv q' \<and> contents q @ fifo_puts ops = xs @ contents q' \<and> capacity q' = capacity q"
  using assms
proof (induction ops arbitrary: q xs)
  case (Cons op ops)
  show ?case
  proof (cases op)
    case (Put x)
    then have nf: "\<not> full q" and run: "fifo_run full put get ops (put x q) = Some (xs, q')"
      using Cons.prems by (auto split: if_splits)
    from put_law [OF Cons.prems(1) nf, of x] Cons.IH [OF _ run] Put show ?thesis by auto
  next
    case Get
    obtain x ys where c: "contents q = x # ys"
      using Cons.prems Get get_empty by (cases "contents q") auto
    obtain q1 where q1: "get q = Some (x, q1)" "inv q1" "contents q1 = ys" "capacity q1 = capacity q"
      using get_law [OF Cons.prems(1) c] by blast
    then obtain zs where "fifo_run full put get ops q1 = Some (zs, q')" "xs = x # zs"
      using Cons.prems(2) Get by auto
    with Cons.IH [OF q1(2)] q1 c Get show ?thesis by auto
  qed
qed simp

lemma run_total:
  assumes "inv q"
  shows "fifo_run full put get ops q \<noteq> None \<longleftrightarrow> fifo_fits (length (contents q)) (capacity q) ops"
  using assms
proof (induction ops arbitrary: q)
  case (Cons op ops)
  show ?case
  proof (cases op)
    case (Put x)
    show ?thesis
    proof (cases "full q")
      case True
      then show ?thesis using Put full_iff [OF Cons.prems] by simp
    next
      case False
      then have "length (contents q) < capacity q" using bound [OF Cons.prems] full_iff [OF Cons.prems] by simp
      then show ?thesis using Put False put_law [OF Cons.prems False, of x] Cons.IH [of "put x q"] by simp
    qed
  next
    case Get
    show ?thesis
    proof (cases "contents q")
      case Nil
      then show ?thesis using Get get_empty [OF Cons.prems] by simp
    next
      case c: (Cons x xs)
      then obtain q1 where "get q = Some (x, q1)" "inv q1" "contents q1 = xs" "capacity q1 = capacity q"
        using get_law [OF Cons.prems] by blast
      then show ?thesis using Get c Cons.IH [of q1] by auto
    qed
  qed
qed simp

text \<open>Everything put in comes out, in the order it was put in.\<close>

lemma drain_law:
  assumes "inv q"
  shows "\<exists>q'. fifo_run full put get (replicate (length (contents q)) Get) q = Some (contents q, q') \<and> inv q' \<and> contents q' = []"
  using assms
proof (induction "contents q" arbitrary: q)
  case Nil
  then show ?case by simp
next
  case (Cons x xs)
  obtain q1 where q1: "get q = Some (x, q1)" "inv q1" "contents q1 = xs"
    using get_law [OF Cons.prems] Cons.hyps(2) by metis
  from Cons.hyps(1) [OF q1(3) [symmetric] q1(2)] q1 Cons.hyps(2) [symmetric] show ?case by auto
qed

end

section \<open>First in, first out, in a larger state\<close>

text \<open>
  The same contract for an object that lives in a larger state, such as a mailbox of the kernel: the
  calls may change the rest of the state, and a call that does not succeed has no result.
\<close>

fun service_run ::
    "('a \<Rightarrow> 's \<Rightarrow> 's option) \<Rightarrow> ('s \<Rightarrow> ('a \<times> 's) option) \<Rightarrow> 'a fifo_op list \<Rightarrow> 's \<Rightarrow> ('a list \<times> 's) option" where
  "service_run send recv [] s = Some ([], s)"
| "service_run send recv (Put x # ops) s =
     (case send x s of None \<Rightarrow> None | Some s \<Rightarrow> service_run send recv ops s)"
| "service_run send recv (Get # ops) s =
     (case recv s of
        None \<Rightarrow> None
      | Some (x, s) \<Rightarrow> map_option (\<lambda>(xs, s). (x # xs, s)) (service_run send recv ops s))"

locale fifo_service =
  fixes holds :: "'s \<Rightarrow> 'a list \<Rightarrow> nat \<Rightarrow> bool"
    and ok :: "'a \<Rightarrow> bool"
    and send :: "'a \<Rightarrow> 's \<Rightarrow> 's option"
    and recv :: "'s \<Rightarrow> ('a \<times> 's) option"
  assumes room: "holds s xs c \<Longrightarrow> length xs \<le> c"
    and send_law: "holds s xs c \<Longrightarrow> ok x \<Longrightarrow> length xs < c \<Longrightarrow> \<exists>s'. send x s = Some s' \<and> holds s' (xs @ [x]) c"
    and send_full: "holds s xs c \<Longrightarrow> ok x \<Longrightarrow> length xs = c \<Longrightarrow> send x s = None"
    and recv_law: "holds s (x # xs) c \<Longrightarrow> \<exists>s'. recv s = Some (x, s') \<and> holds s' xs c"
    and recv_empty: "holds s [] c \<Longrightarrow> recv s = None"
begin

lemma service_law:
  assumes "holds s xs c" "\<forall>x \<in> set (fifo_puts ops). ok x" "fifo_fits (length xs) c ops"
  shows "\<exists>ys s' zs. service_run send recv ops s = Some (ys, s') \<and> holds s' zs c \<and> xs @ fifo_puts ops = ys @ zs"
  using assms
proof (induction ops arbitrary: s xs)
  case (Cons op ops)
  show ?case
  proof (cases op)
    case (Put x)
    then obtain s1 where s1: "send x s = Some s1" "holds s1 (xs @ [x]) c"
      using send_law [OF Cons.prems(1), of x] Cons.prems(2,3) by auto
    then show ?thesis using Cons.IH [OF s1(2)] Cons.prems(2,3) Put by auto
  next
    case Get
    then obtain x xs' where xs: "xs = x # xs'" using Cons.prems(3) by (cases xs) auto
    then obtain s1 where s1: "recv s = Some (x, s1)" "holds s1 xs' c" using recv_law Cons.prems(1) by blast
    then show ?thesis using Cons.IH [OF s1(2)] Cons.prems(2,3) Get xs by fastforce
  qed
qed simp

lemma service_stops:
  assumes "holds s xs c" "\<forall>x \<in> set (fifo_puts ops). ok x" "\<not> fifo_fits (length xs) c ops"
  shows "service_run send recv ops s = None"
  using assms
proof (induction ops arbitrary: s xs)
  case (Cons op ops)
  show ?case
  proof (cases op)
    case (Put x)
    show ?thesis
    proof (cases "length xs < c")
      case True
      then obtain s1 where s1: "send x s = Some s1" "holds s1 (xs @ [x]) c"
        using send_law [OF Cons.prems(1), of x] Cons.prems(2) Put by auto
      then show ?thesis using Cons.IH [OF s1(2)] Cons.prems(2,3) Put True by auto
    next
      case False
      then show ?thesis using send_full [OF Cons.prems(1), of x] room [OF Cons.prems(1)] Cons.prems(2) Put by simp
    qed
  next
    case Get
    show ?thesis
    proof (cases xs)
      case Nil
      then show ?thesis using recv_empty Cons.prems(1) Get by simp
    next
      case xs: (Cons x xs')
      then obtain s1 where s1: "recv s = Some (x, s1)" "holds s1 xs' c" using recv_law Cons.prems(1) by blast
      then show ?thesis using Cons.IH [OF s1(2)] Cons.prems(2,3) Get xs by auto
    qed
  qed
qed simp

end

section \<open>Blocks of a pool\<close>

datatype pool_op = Take | Give nat

fun pool_run ::
    "('q \<Rightarrow> (nat \<times> 'q) option) \<Rightarrow> (nat \<Rightarrow> 'q \<Rightarrow> 'q) \<Rightarrow> pool_op list \<Rightarrow> 'q \<Rightarrow> nat set \<Rightarrow> (nat list \<times> 'q \<times> nat set) option" where
  "pool_run alloc release [] q held = Some ([], q, held)"
| "pool_run alloc release (Take # ops) q held =
     (case alloc q of
        None \<Rightarrow> None
      | Some (k, q) \<Rightarrow> map_option (\<lambda>(ks, q, h). (k # ks, q, h)) (pool_run alloc release ops q (insert k held)))"
| "pool_run alloc release (Give k # ops) q held =
     (if k \<in> held then pool_run alloc release ops (release k q) (held - {k}) else None)"

locale block_pool =
  fixes wf :: "'q \<Rightarrow> nat list \<Rightarrow> nat set \<Rightarrow> bool"
    and alloc :: "'q \<Rightarrow> (nat \<times> 'q) option"
    and release :: "nat \<Rightarrow> 'q \<Rightarrow> 'q"
  assumes disjoint: "wf q fr held \<Longrightarrow> distinct fr \<and> set fr \<inter> held = {} \<and> finite held"
    and take_empty: "wf q [] held \<Longrightarrow> alloc q = None"
    and take_law: "wf q (k # fr) held \<Longrightarrow> \<exists>q'. alloc q = Some (k, q') \<and> wf q' fr (insert k held)"
    and give_law: "wf q fr held \<Longrightarrow> k \<in> held \<Longrightarrow> wf (release k q) (k # fr) (held - {k})"
begin

text \<open>A block that is handed out is not held by anybody, and it is refused only when all are held.\<close>

lemma take_fresh:
  assumes "wf q fr held" "alloc q = Some (k, q')"
  shows "k \<notin> held \<and> wf q' (tl fr) (insert k held) \<and> fr = k # tl fr"
proof (cases fr)
  case Nil
  then show ?thesis using assms take_empty by auto
next
  case (Cons j fr')
  then show ?thesis using assms take_law [of q j fr' held] disjoint [OF assms(1)] by auto
qed

lemma take_fails_iff:
  assumes "wf q fr held"
  shows "alloc q = None \<longleftrightarrow> fr = []"
  using assms take_empty take_law by (cases fr) force+

text \<open>The block given back last is handed out next.\<close>

lemma give_take:
  assumes "wf q fr held" "k \<in> held"
  shows "\<exists>q'. alloc (release k q) = Some (k, q') \<and> wf q' fr held"
  using take_law [OF give_law [OF assms]] assms(2) by (simp add: insert_absorb)

text \<open>No sequence of operations loses or duplicates a block.\<close>

lemma run_conserves:
  assumes "wf q fr held" "pool_run alloc release ops q held = Some (ks, q', held')"
  shows "\<exists>fr'. wf q' fr' held' \<and> set fr' \<union> held' = set fr \<union> held \<and> length fr' + card held' = length fr + card held"
  using assms
proof (induction ops arbitrary: q fr held ks)
  case Nil
  then show ?case by auto
next
  case (Cons op ops)
  show ?case
  proof (cases op)
    case Take
    then obtain k q1 ls where k: "alloc q = Some (k, q1)" "pool_run alloc release ops q1 (insert k held) = Some (ls, q', held')"
      using Cons.prems(2) by (auto split: option.splits)
    note f = take_fresh [OF Cons.prems(1) k(1)]
    have "card (insert k held) = Suc (card held)" using f disjoint [OF Cons.prems(1)] by simp
    moreover have "set fr = insert k (set (tl fr))" "length fr = Suc (length (tl fr))" using f by (metis list.simps(15), metis length_Cons)
    moreover obtain fr' where "wf q' fr' held'" "set fr' \<union> held' = set (tl fr) \<union> insert k held"
        "length fr' + card held' = length (tl fr) + card (insert k held)"
      using Cons.IH [OF _ k(2)] f by blast
    ultimately show ?thesis by auto
  next
    case (Give k)
    then have k: "k \<in> held" "pool_run alloc release ops (release k q) (held - {k}) = Some (ks, q', held')"
      using Cons.prems(2) by (auto split: if_splits)
    have "Suc (card (held - {k})) = card held"
      using disjoint [OF Cons.prems(1)] k(1) card_Suc_Diff1 [of held k] by simp
    then show ?thesis using Cons.IH [OF give_law [OF Cons.prems(1) k(1)] k(2)] k(1) by auto
  qed
qed

end

end
