(* ===== verification/RT_Mailbox.thy ===== *)
theory RT_Mailbox
  imports RT_Semaphore RT_Contracts
begin

text \<open>
  Mailboxes of \<^verbatim>\<open>src/src/ipc.c\<close>: a ring of 32-bit mails, a list of waiting receivers and a list of
  waiting senders. A call that waits is resumed with the remaining time and evaluates its loop again.
\<close>

section \<open>Operations\<close>

definition upd_mb :: "nat \<Rightarrow> (rt_mailbox \<Rightarrow> rt_mailbox) \<Rightarrow> kstate \<Rightarrow> kstate" where
  [simp]: "upd_mb i f s = s\<lparr>mailbox := (mailbox s)(i := f (mailbox s i))\<rparr>"

definition mb_struct_init :: "nat \<Rightarrow> kstate \<Rightarrow> kstate" where
  "mb_struct_init i s =
     (let s = upd_mb i (\<lambda>m. m\<lparr>mb_entry := 0, mb_in_offset := 0, mb_out_offset := 0\<rparr>) s
      in upd_links (rt_list_init (Suspend_sender i)) s)"

text \<open>\<open>pool\<close> is the buffer of the caller; the size is stored in 16 bits.\<close>

definition rt_mb_init :: "nat \<Rightarrow> cstr \<Rightarrow> u32 list \<Rightarrow> u32 \<Rightarrow> u8 \<Rightarrow> kstate \<Rightarrow> (int \<times> kstate) res" where
  "rt_mb_init i name pool len flag s =
     rbind (rt_object_init (O_ipc (Mailbox i)) Class_MailBox name s) (\<lambda>s.
     (let s = upd_object (O_ipc (Mailbox i)) (\<lambda>r. r\<lparr>ob_flag := flag\<rparr>) s;
          s = rt_ipc_object_init (Mailbox i) s;
          s = upd_mb i (\<lambda>m. m\<lparr>mb_msg_pool := pool, mb_size := ucast len\<rparr>) s
      in Ok (RT_EOK, mb_struct_init i s)))"

definition rt_mb_detach :: "nat \<Rightarrow> kstate \<Rightarrow> (int \<times> kstate) res" where
  "rt_mb_detach i s =
     rbind (rt_ipc_list_resume_all (Suspend_thread (Mailbox i)) s) (\<lambda>s.
     rbind (rt_ipc_list_resume_all (Suspend_sender i) s) (\<lambda>s.
     Ok (RT_EOK, rt_object_detach (O_ipc (Mailbox i)) s)))"

text \<open>\<open>malloc\<close> is the block for the object; \<open>pool\<close> the block for the mails, of \<open>mb_size\<close> words.\<close>

definition rt_mb_create ::
    "nat option \<Rightarrow> u32 list option \<Rightarrow> cstr \<Rightarrow> u32 \<Rightarrow> u8 \<Rightarrow> kstate \<Rightarrow> (nat option \<times> kstate) res" where
  "rt_mb_create malloc pool name len flag s =
     rbind (rassert (not_in_interrupt s) s) (\<lambda>s.
     rbind (rt_object_allocate (map_option (O_ipc \<circ> Mailbox) malloc) Class_MailBox name s) (\<lambda>(ob, s).
     case malloc of
       None \<Rightarrow> Ok (None, s)
     | Some i \<Rightarrow>
         (let s = upd_object (O_ipc (Mailbox i)) (\<lambda>r. r\<lparr>ob_flag := flag\<rparr>) s;
              s = rt_ipc_object_init (Mailbox i) s;
              s = upd_mb i (\<lambda>m. m\<lparr>mb_size := ucast len\<rparr>) s
          in case pool of
               None \<Rightarrow> rbind (rt_object_delete (O_ipc (Mailbox i)) s) (\<lambda>s. Ok (None, s))
             | Some msg_pool \<Rightarrow>
                 Ok (Some i, mb_struct_init i (upd_mb i (\<lambda>m. m\<lparr>mb_msg_pool := msg_pool\<rparr>) s)))))"

definition rt_mb_delete :: "nat \<Rightarrow> kstate \<Rightarrow> (int \<times> kstate) res" where
  "rt_mb_delete i s =
     rbind (rassert (not_in_interrupt s) s) (\<lambda>s.
     rbind (rt_ipc_list_resume_all (Suspend_thread (Mailbox i)) s) (\<lambda>s.
     rbind (rt_ipc_list_resume_all (Suspend_sender i) s) (\<lambda>s.
     (let s = kernel_free (K_pool (Mailbox i)) s
      in rbind (rt_object_delete (O_ipc (Mailbox i)) s) (\<lambda>s. Ok (RT_EOK, s))))))"

text \<open>The remaining waiting time of a thread that ran again at the current tick.\<close>

definition remaining_time :: "u32 \<Rightarrow> u32 \<Rightarrow> u32 \<Rightarrow> u32" where
  "remaining_time timeout tick_delta now =
     (if sint timeout > 0
      then (let timeout = timeout - (now - tick_delta) in if sint timeout < 0 then 0 else timeout)
      else timeout)"

text \<open>Storing a mail, after the loop of \<^verbatim>\<open>rt_mb_send_wait\<close>.\<close>

definition mb_put :: "nat \<Rightarrow> u32 \<Rightarrow> kstate \<Rightarrow> (int option \<times> kstate) res" where
  "mb_put i val s =
     (let m = mailbox s i
      in if unat (mb_in_offset m) < length (mb_msg_pool m) then
           (let s = upd_mb i (\<lambda>m. m\<lparr>mb_msg_pool := (mb_msg_pool m)[unat (mb_in_offset m) := val]\<rparr>) s;
                s = upd_mb i (\<lambda>m. m\<lparr>mb_in_offset := mb_in_offset m + 1\<rparr>) s;
                s = (if mb_in_offset (mailbox s i) \<ge> mb_size (mailbox s i)
                     then upd_mb i (\<lambda>m. m\<lparr>mb_in_offset := 0\<rparr>) s else s);
                s = upd_mb i (\<lambda>m. m\<lparr>mb_entry := mb_entry m + 1\<rparr>) s
            in if \<not> rt_list_isempty (Suspend_thread (Mailbox i)) (links s)
               then
                 rbind (rt_ipc_list_resume (Suspend_thread (Mailbox i)) s) (\<lambda>s.
                 rbind (rt_schedule s) (\<lambda>s. Ok (Some RT_EOK, s)))
               else Ok (Some RT_EOK, s))
         else Fault Out_Of_Range)"

text \<open>The loop: one evaluation of its condition, up to the point where the thread is switched away.\<close>

definition mb_send_loop :: "nat \<Rightarrow> u32 \<Rightarrow> u32 \<Rightarrow> thread_id option \<Rightarrow> kstate \<Rightarrow> (int option \<times> kstate) res" where
  "mb_send_loop i val timeout self s =
     (if mb_entry (mailbox s i) = mb_size (mailbox s i) then
        (case self of
           None \<Rightarrow> Fault Null_Pointer
         | Some t \<Rightarrow>
             (let s = upd_thread t (\<lambda>th. th\<lparr>th_error := RT_EOK\<rparr>) s
              in if timeout = 0 then Ok (Some (- RT_EFULL), s)
                 else
                   rbind (rassert (in_thread_context s) s) (\<lambda>s.
                   rbind (rt_ipc_list_suspend (Suspend_sender i) t (ob_flag (object s (O_ipc (Mailbox i)))) s) (\<lambda>s.
                   (let tick_delta = (if sint timeout > 0 then rt_tick s else 0)
                    in rbind (wait_timer t timeout s) (\<lambda>s.
                       block t (C_mb_send i val timeout tick_delta) s))))))
      else mb_put i val s)"

definition rt_mb_send_wait :: "nat \<Rightarrow> u32 \<Rightarrow> u32 \<Rightarrow> kstate \<Rightarrow> (int option \<times> kstate) res" where
  "rt_mb_send_wait i val timeout s =
     (let self = rt_thread_self s
      in if mb_entry (mailbox s i) = mb_size (mailbox s i) \<and> timeout = 0 then Ok (Some (- RT_EFULL), s)
         else mb_send_loop i val timeout self s)"

definition rt_mb_send_wait_resume ::
    "thread_id \<Rightarrow> nat \<Rightarrow> u32 \<Rightarrow> u32 \<Rightarrow> u32 \<Rightarrow> kstate \<Rightarrow> (int option \<times> kstate) res" where
  "rt_mb_send_wait_resume t i val timeout tick_delta s =
     (let s = s\<lparr>cont := (cont s)(t := None)\<rparr>
      in if th_error (thread s t) \<noteq> RT_EOK then Ok (Some (th_error (thread s t)), s)
         else mb_send_loop i val (remaining_time timeout tick_delta (rt_tick s)) (Some t) s)"

definition rt_mb_send :: "nat \<Rightarrow> u32 \<Rightarrow> kstate \<Rightarrow> (int option \<times> kstate) res" where
  "rt_mb_send i val s = rt_mb_send_wait i val 0 s"

definition mb_get :: "nat \<Rightarrow> kstate \<Rightarrow> ((int \<times> u32 option) option \<times> kstate) res" where
  "mb_get i s =
     (let m = mailbox s i
      in if unat (mb_out_offset m) < length (mb_msg_pool m) then
           (let val = mb_msg_pool m ! unat (mb_out_offset m);
                s = upd_mb i (\<lambda>m. m\<lparr>mb_out_offset := mb_out_offset m + 1\<rparr>) s;
                s = (if mb_out_offset (mailbox s i) \<ge> mb_size (mailbox s i)
                     then upd_mb i (\<lambda>m. m\<lparr>mb_out_offset := 0\<rparr>) s else s);
                s = upd_mb i (\<lambda>m. m\<lparr>mb_entry := mb_entry m - 1\<rparr>) s
            in if \<not> rt_list_isempty (Suspend_sender i) (links s)
               then
                 rbind (rt_ipc_list_resume (Suspend_sender i) s) (\<lambda>s.
                 rbind (rt_schedule s) (\<lambda>s. Ok (Some (RT_EOK, Some val), s)))
               else Ok (Some (RT_EOK, Some val), s))
         else Fault Out_Of_Range)"

definition mb_recv_loop ::
    "nat \<Rightarrow> u32 \<Rightarrow> thread_id option \<Rightarrow> kstate \<Rightarrow> ((int \<times> u32 option) option \<times> kstate) res" where
  "mb_recv_loop i timeout self s =
     (if mb_entry (mailbox s i) = 0 then
        (case self of
           None \<Rightarrow> Fault Null_Pointer
         | Some t \<Rightarrow>
             (let s = upd_thread t (\<lambda>th. th\<lparr>th_error := RT_EOK\<rparr>) s
              in if timeout = 0
                 then Ok (Some (- RT_ETIMEOUT, None), upd_thread t (\<lambda>th. th\<lparr>th_error := - RT_ETIMEOUT\<rparr>) s)
                 else
                   rbind (rassert (in_thread_context s) s) (\<lambda>s.
                   rbind (rt_ipc_list_suspend (Suspend_thread (Mailbox i)) t (ob_flag (object s (O_ipc (Mailbox i)))) s) (\<lambda>s.
                   (let tick_delta = (if sint timeout > 0 then rt_tick s else 0)
                    in rbind (wait_timer t timeout s) (\<lambda>s.
                       block t (C_mb_recv i timeout tick_delta) s))))))
      else mb_get i s)"

definition rt_mb_recv :: "nat \<Rightarrow> u32 \<Rightarrow> kstate \<Rightarrow> ((int \<times> u32 option) option \<times> kstate) res" where
  "rt_mb_recv i timeout s =
     (let self = rt_thread_self s
      in if mb_entry (mailbox s i) = 0 \<and> timeout = 0 then Ok (Some (- RT_ETIMEOUT, None), s)
         else mb_recv_loop i timeout self s)"

definition rt_mb_recv_resume ::
    "thread_id \<Rightarrow> nat \<Rightarrow> u32 \<Rightarrow> u32 \<Rightarrow> kstate \<Rightarrow> ((int \<times> u32 option) option \<times> kstate) res" where
  "rt_mb_recv_resume t i timeout tick_delta s =
     (let s = s\<lparr>cont := (cont s)(t := None)\<rparr>
      in if th_error (thread s t) \<noteq> RT_EOK then Ok (Some (th_error (thread s t), None), s)
         else mb_recv_loop i (remaining_time timeout tick_delta (rt_tick s)) (Some t) s)"

fun rt_mb_control :: "nat \<Rightarrow> ipc_cmd \<Rightarrow> kstate \<Rightarrow> (int \<times> kstate) res" where
  "rt_mb_control i (Ipc_reset arg) s =
     rbind (rt_ipc_list_resume_all (Suspend_thread (Mailbox i)) s) (\<lambda>s.
     rbind (rt_ipc_list_resume_all (Suspend_sender i) s) (\<lambda>s.
     (let s = upd_mb i (\<lambda>m. m\<lparr>mb_entry := 0, mb_in_offset := 0, mb_out_offset := 0\<rparr>) s
      in rbind (rt_schedule s) (\<lambda>s. Ok (RT_EOK, s)))))"
| "rt_mb_control i Ipc_other s = Ok (- RT_ERROR, s)"

section \<open>The mailbox as a queue\<close>

definition mb_wf :: "rt_mailbox \<Rightarrow> bool" where
  "mb_wf m \<longleftrightarrow>
     0 < mb_size m \<and> length (mb_msg_pool m) = unat (mb_size m) \<and> mb_entry m \<le> mb_size m \<and>
     mb_out_offset m < mb_size m \<and>
     unat (mb_in_offset m) = (unat (mb_out_offset m) + unat (mb_entry m)) mod unat (mb_size m)"

definition mails :: "rt_mailbox \<Rightarrow> u32 list" where
  "mails m = ring (mb_msg_pool m) (unat (mb_out_offset m)) (unat (mb_entry m))"

text \<open>The offset after the one used, as the code steps it.\<close>

lemma offset_step:
  assumes "k < len"
  shows "unat (if len \<le> k + 1 then 0 else k + 1 :: u16) = (unat k + 1) mod unat len"
proof -
  have lt: "unat k < unat len" using assms by (simp add: word_less_nat_alt)
  moreover have "unat len < 65536" using unsigned_less [of len] by simp
  ultimately have u: "unat (k + 1) = unat k + 1" by (simp add: unat_word_ariths)
  show ?thesis
  proof (cases "len \<le> k + 1")
    case True
    then have "unat k + 1 = unat len" using lt u by (simp add: word_le_nat_alt)
    then show ?thesis using True by simp
  next
    case False
    then have "unat k + 1 < unat len" using u by (simp add: word_le_nat_alt)
    then show ?thesis using False u by simp
  qed
qed

definition mb_stored :: "u32 \<Rightarrow> rt_mailbox \<Rightarrow> rt_mailbox" where
  "mb_stored val m =
     m\<lparr>mb_msg_pool := (mb_msg_pool m)[unat (mb_in_offset m) := val],
       mb_in_offset := (if mb_size m \<le> mb_in_offset m + 1 then 0 else mb_in_offset m + 1),
       mb_entry := mb_entry m + 1\<rparr>"

definition mb_taken :: "rt_mailbox \<Rightarrow> rt_mailbox" where
  "mb_taken m =
     m\<lparr>mb_out_offset := (if mb_size m \<le> mb_out_offset m + 1 then 0 else mb_out_offset m + 1),
       mb_entry := mb_entry m - 1\<rparr>"

lemma mb_wf_nat:
  assumes "mb_wf m"
  shows "unat (mb_out_offset m) < length (mb_msg_pool m)" "unat (mb_in_offset m) < length (mb_msg_pool m)"
    and "unat (mb_entry m) \<le> length (mb_msg_pool m)" "length (mb_msg_pool m) = unat (mb_size m)" "0 < unat (mb_size m)"
proof -
  show len: "length (mb_msg_pool m) = unat (mb_size m)" using assms by (simp add: mb_wf_def)
  show pos: "0 < unat (mb_size m)" using assms by (simp add: mb_wf_def word_less_nat_alt)
  show "unat (mb_out_offset m) < length (mb_msg_pool m)" using assms len by (simp add: mb_wf_def word_less_nat_alt)
  show "unat (mb_entry m) \<le> length (mb_msg_pool m)" using assms len by (simp add: mb_wf_def word_le_nat_alt)
  show "unat (mb_in_offset m) < length (mb_msg_pool m)" using assms len pos by (simp add: mb_wf_def)
qed

lemma mb_stored_ok:
  assumes wf: "mb_wf m" and room: "mb_entry m \<noteq> mb_size m"
  shows "mb_wf (mb_stored val m)" "mails (mb_stored val m) = mails m @ [val]"
proof -
  note n = mb_wf_nat [OF wf]
  have le: "mb_entry m \<le> mb_size m" using wf by (simp add: mb_wf_def)
  then have lt: "unat (mb_entry m) < unat (mb_size m)"
    using room by (simp add: word_le_nat_alt word_unat_eq_iff)
  have e: "unat (mb_entry m + 1) = unat (mb_entry m) + 1"
  proof -
    have "unat (mb_size m) < 65536" using unsigned_less [of "mb_size m"] by simp
    then show ?thesis using lt by (simp add: unat_word_ariths)
  qed
  have io: "mb_in_offset m < mb_size m" using n by (simp add: word_less_nat_alt)
  have in_eq: "unat (mb_in_offset m) = (unat (mb_out_offset m) + unat (mb_entry m)) mod unat (mb_size m)"
    using wf by (simp add: mb_wf_def)
  have "unat (mb_in_offset (mb_stored val m)) = (unat (mb_in_offset m) + 1) mod unat (mb_size m)"
    using offset_step [OF io] by (simp add: mb_stored_def)
  then have step: "unat (mb_in_offset (mb_stored val m)) =
      (unat (mb_out_offset m) + unat (mb_entry m + 1)) mod unat (mb_size m)"
    by (simp add: in_eq e mod_Suc_eq)
  have le': "mb_entry m + 1 \<le> mb_size m" using lt e by (simp add: word_le_nat_alt)
  show "mb_wf (mb_stored val m)"
    using wf step le' unfolding mb_wf_def by (simp add: mb_stored_def)
  have "ring ((mb_msg_pool m)[(unat (mb_out_offset m) + unat (mb_entry m)) mod length (mb_msg_pool m) := val])
      (unat (mb_out_offset m)) (Suc (unat (mb_entry m))) = mails m @ [val]"
    unfolding mails_def by (rule ring_put) (use n lt in simp_all)
  then show "mails (mb_stored val m) = mails m @ [val]"
    by (simp add: mails_def mb_stored_def e in_eq n(4))
qed

lemma mb_taken_ok:
  assumes wf: "mb_wf m" and ne: "mb_entry m \<noteq> 0"
  shows "mb_wf (mb_taken m)" "mails m = mb_msg_pool m ! unat (mb_out_offset m) # mails (mb_taken m)"
proof -
  note n = mb_wf_nat [OF wf]
  have pos: "0 < unat (mb_entry m)" using ne by (simp add: unat_gt_0)
  have e: "unat (mb_entry m - 1) = unat (mb_entry m) - 1" using ne by (rule unat_minus_one)
  have oo: "mb_out_offset m < mb_size m" using wf by (simp add: mb_wf_def)
  have out: "unat (mb_out_offset (mb_taken m)) = (unat (mb_out_offset m) + 1) mod unat (mb_size m)"
    using offset_step [OF oo] by (simp add: mb_taken_def)
  have in_eq: "unat (mb_in_offset m) = (unat (mb_out_offset m) + unat (mb_entry m)) mod unat (mb_size m)"
    using wf by (simp add: mb_wf_def)
  have "((unat (mb_out_offset m) + 1) mod unat (mb_size m) + (unat (mb_entry m) - 1)) mod unat (mb_size m)
      = (unat (mb_out_offset m) + 1 + (unat (mb_entry m) - 1)) mod unat (mb_size m)"
    by (rule mod_add_left_eq)
  also have "unat (mb_out_offset m) + 1 + (unat (mb_entry m) - 1) = unat (mb_out_offset m) + unat (mb_entry m)"
    using pos by simp
  finally have in': "unat (mb_in_offset (mb_taken m)) =
      (unat (mb_out_offset (mb_taken m)) + unat (mb_entry (mb_taken m))) mod unat (mb_size (mb_taken m))"
    unfolding out by (simp add: in_eq e mb_taken_def)
  have "mb_out_offset (mb_taken m) < mb_size m" unfolding word_less_nat_alt out using n(5) by simp
  moreover have "mb_entry (mb_taken m) \<le> mb_size m"
    using n(3,4) by (simp add: mb_taken_def word_le_nat_alt e)
  ultimately show "mb_wf (mb_taken m)"
    using wf in' by (simp add: mb_wf_def mb_taken_def)
  have "mails m = mb_msg_pool m ! unat (mb_out_offset m) #
      ring (mb_msg_pool m) ((unat (mb_out_offset m) + 1) mod length (mb_msg_pool m)) (unat (mb_entry m) - 1)"
    unfolding mails_def by (rule ring_get [OF pos n(1)])
  then show "mails m = mb_msg_pool m ! unat (mb_out_offset m) # mails (mb_taken m)"
    by (simp add: mails_def out e n(4)) (simp add: mb_taken_def e)
qed

section \<open>Sending and receiving\<close>

text \<open>The slots of a mailbox are a first-in first-out buffer.\<close>

definition mb_get_slot :: "rt_mailbox \<Rightarrow> (u32 \<times> rt_mailbox) option" where
  "mb_get_slot m = (if mb_entry m = 0 then None else Some (mb_msg_pool m ! unat (mb_out_offset m), mb_taken m))"

interpretation mbf: fifo mb_wf mails "\<lambda>m. unat (mb_size m)" "\<lambda>m. mb_entry m = mb_size m" mb_stored mb_get_slot
proof
  show "length (mails q) \<le> unat (mb_size q)" "mb_entry q = mb_size q \<longleftrightarrow> length (mails q) = unat (mb_size q)" if "mb_wf q" for q
    using that by (simp_all add: mb_wf_def mails_def word_le_nat_alt word_unat_eq_iff)
  show "mb_wf (mb_stored x q) \<and> mails (mb_stored x q) = mails q @ [x] \<and> unat (mb_size (mb_stored x q)) = unat (mb_size q)"
    if "mb_wf q" "mb_entry q \<noteq> mb_size q" for q x
    using mb_stored_ok [OF that] by (simp add: mb_stored_def)
  have ne: "mails q = [] \<longleftrightarrow> mb_entry q = 0" for q
    by (simp add: mails_def word_unat_eq_iff flip: length_0_conv)
  show "mb_get_slot q = None" if "mails q = []" for q using that ne by (simp add: mb_get_slot_def)
  show "\<exists>q'. mb_get_slot q = Some (x, q') \<and> mb_wf q' \<and> mails q' = xs \<and> unat (mb_size q') = unat (mb_size q)"
    if "mb_wf q" "mails q = x # xs" for q x xs
    using mb_taken_ok [OF that(1)] that(2) ne [of q] by (auto simp: mb_get_slot_def mb_taken_def)
qed

lemma kinv_mb: "kinv s F \<Longrightarrow> kinv (upd_mb i f s) F"
  by (rule kinv_cong) (simp_all add: same_defs)

lemma kgood_mb: "kgood s \<Longrightarrow> kgood (upd_mb i f s)"
  by (rule kgood_cong) simp_all

lemma mb_put_eq:
  assumes "unat (mb_in_offset (mailbox s i)) < length (mb_msg_pool (mailbox s i))"
  shows "mb_put i val s =
    (let s = upd_mb i (mb_stored val) s
     in if \<not> rt_list_isempty (Suspend_thread (Mailbox i)) (links s)
        then rbind (rt_ipc_list_resume (Suspend_thread (Mailbox i)) s) (\<lambda>s.
             rbind (rt_schedule s) (\<lambda>s. Ok (Some RT_EOK, s)))
        else Ok (Some RT_EOK, s))"
  using assms by (simp add: mb_put_def mb_stored_def Let_def)

lemma mb_get_eq:
  assumes "unat (mb_out_offset (mailbox s i)) < length (mb_msg_pool (mailbox s i))"
  shows "mb_get i s =
    (let val = mb_msg_pool (mailbox s i) ! unat (mb_out_offset (mailbox s i)); s = upd_mb i mb_taken s
     in if \<not> rt_list_isempty (Suspend_sender i) (links s)
        then rbind (rt_ipc_list_resume (Suspend_sender i) s) (\<lambda>s.
             rbind (rt_schedule s) (\<lambda>s. Ok (Some (RT_EOK, Some val), s)))
        else Ok (Some (RT_EOK, Some val), s))"
  using assms by (simp add: mb_get_def mb_taken_def Let_def)

lemma mb_put_ok:
  assumes "kinv s F" "kgood s" "mb_wf (mailbox s i)" "waiters F (Suspend_thread (Mailbox i)) ws"
  shows "\<exists>s' F'. mb_put i val s = Ok (Some RT_EOK, s') \<and>
    woken_first (upd_mb i (mb_stored val) s) F (Suspend_thread (Mailbox i)) ws s' F'"
  unfolding mb_put_eq [OF mb_wf_nat(2) [OF assms(3)]] Let_def
  by (rule wake_first_ok [OF kinv_mb [OF assms(1)] kgood_mb [OF assms(2)] wait_head_simps(1) assms(4)])

lemma mb_get_ok:
  assumes "kinv s F" "kgood s" "mb_wf (mailbox s i)" "waiters F (Suspend_sender i) ws"
  shows "\<exists>s' F'. mb_get i s = Ok (Some (RT_EOK, Some (mb_msg_pool (mailbox s i) ! unat (mb_out_offset (mailbox s i)))), s') \<and>
    woken_first (upd_mb i mb_taken s) F (Suspend_sender i) ws s' F'"
  unfolding mb_get_eq [OF mb_wf_nat(1) [OF assms(3)]] Let_def
  by (rule wake_first_ok [OF kinv_mb [OF assms(1)] kgood_mb [OF assms(2)] wait_head_simps(2) assms(4)])

definition mb_flag_ok :: "kstate \<Rightarrow> nat \<Rightarrow> bool" where
  "mb_flag_ok s i \<longleftrightarrow> ob_flag (object s (O_ipc (Mailbox i))) = RT_IPC_FLAG_FIFO \<or>
     ob_flag (object s (O_ipc (Mailbox i))) = RT_IPC_FLAG_PRIO"

lemma mb_send_loop_blocks:
  assumes inv: "kinv s F" and cb: "can_block s t" and full: "mb_entry (mailbox s i) = mb_size (mailbox s i)"
    and time: "timeout \<noteq> 0" "timeout \<noteq> 0x7fffffff" and fl: "mb_flag_ok s i" and ws: "waiters F (Suspend_sender i) ws"
  shows "\<exists>s' F'. mb_send_loop i val timeout (Some t) s = Ok (None, s') \<and>
    blocked_on s F t (Suspend_sender i) (enqueue (ob_flag (object s (O_ipc (Mailbox i)))) s t ws) timeout
      (C_mb_send i val timeout (tick_start timeout s)) s' F'"
proof -
  let ?s = "upd_thread t (\<lambda>th. th\<lparr>th_error := RT_EOK\<rparr>) s"
  have "mb_send_loop i val timeout (Some t) s =
      ipc_block (Suspend_sender i) (ob_flag (object s (O_ipc (Mailbox i)))) t timeout (C_mb_send i val timeout (tick_start timeout s)) ?s"
    unfolding mb_send_loop_def block_loop_eq
    using full time(1) cb by (simp add: can_block_def in_thread_context_def not_in_interrupt_def)
  moreover have "ob_flag (object s (O_ipc (Mailbox i))) = RT_IPC_FLAG_FIFO \<or> ob_flag (object s (O_ipc (Mailbox i))) = RT_IPC_FLAG_PRIO"
    using fl by (simp add: mb_flag_ok_def)
  ultimately show ?thesis
    using ipc_block_blocked [OF kinv_error [OF inv] can_block_error [OF cb] wait_head_simps(2) ws _ time(2)] blocked_on_error
    by (metis enqueue_error)
qed

lemma mb_recv_loop_blocks:
  assumes inv: "kinv s F" and cb: "can_block s t" and empty: "mb_entry (mailbox s i) = 0"
    and time: "timeout \<noteq> 0" "timeout \<noteq> 0x7fffffff" and fl: "mb_flag_ok s i" and ws: "waiters F (Suspend_thread (Mailbox i)) ws"
  shows "\<exists>s' F'. mb_recv_loop i timeout (Some t) s = Ok (None, s') \<and>
    blocked_on s F t (Suspend_thread (Mailbox i)) (enqueue (ob_flag (object s (O_ipc (Mailbox i)))) s t ws) timeout
      (C_mb_recv i timeout (tick_start timeout s)) s' F'"
proof -
  let ?s = "upd_thread t (\<lambda>th. th\<lparr>th_error := RT_EOK\<rparr>) s"
  have "mb_recv_loop i timeout (Some t) s =
      ipc_block (Suspend_thread (Mailbox i)) (ob_flag (object s (O_ipc (Mailbox i)))) t timeout (C_mb_recv i timeout (tick_start timeout s)) ?s"
    unfolding mb_recv_loop_def block_loop_eq
    using empty time(1) cb by (simp add: can_block_def in_thread_context_def not_in_interrupt_def)
  moreover have "ob_flag (object s (O_ipc (Mailbox i))) = RT_IPC_FLAG_FIFO \<or> ob_flag (object s (O_ipc (Mailbox i))) = RT_IPC_FLAG_PRIO"
    using fl by (simp add: mb_flag_ok_def)
  ultimately show ?thesis
    using ipc_block_blocked [OF kinv_error [OF inv] can_block_error [OF cb] wait_head_simps(1) ws _ time(2)] blocked_on_error
    by (metis enqueue_error)
qed

text \<open>The time left after a wait of \<open>d\<close> ticks.\<close>

lemma remaining_time_ok:
  assumes "0 < sint timeout" "d < 2 ^ 31"
  shows "sint (remaining_time timeout start (start + of_nat d)) = max 0 (sint timeout - int d)"
proof -
  define x where "x = timeout - of_nat d"
  have b: "sint timeout < 2 ^ 31" using sint_lt [of timeout] by simp
  have "sint x = sint timeout - int d"
  proof -
    have "signed_take_bit 31 (int d) = int d" using assms(2) by (intro signed_take_bit_int_eq_self) simp_all
    then have "sint x = signed_take_bit 31 (sint timeout - int d)"
      by (simp add: x_def sint_word_ariths signed_of_nat)
    moreover have "- (2 ^ 31) \<le> sint timeout - int d" "sint timeout - int d < 2 ^ 31" using assms b by simp_all
    ultimately show ?thesis by (simp add: signed_take_bit_int_eq_self)
  qed
  then show ?thesis using assms(1) by (auto simp: remaining_time_def x_def [symmetric] Let_def)
qed

section \<open>A mailbox as a service\<close>

text \<open>The calls that do not wait, for any thread, with the kernel around them.\<close>

definition mb_holds :: "nat \<Rightarrow> kstate \<Rightarrow> u32 list \<Rightarrow> nat \<Rightarrow> bool" where
  "mb_holds i s xs c \<longleftrightarrow>
     (\<exists>F. kinv s F) \<and> kgood s \<and> mb_wf (mailbox s i) \<and> mails (mailbox s i) = xs \<and> unat (mb_size (mailbox s i)) = c"

definition mb_sending :: "nat \<Rightarrow> u32 \<Rightarrow> kstate \<Rightarrow> kstate option" where
  "mb_sending i v s = (case rt_mb_send i v s of Ok (Some r, s') \<Rightarrow> if r = RT_EOK then Some s' else None | _ \<Rightarrow> None)"

definition mb_receiving :: "nat \<Rightarrow> kstate \<Rightarrow> (u32 \<times> kstate) option" where
  "mb_receiving i s = (case rt_mb_recv i 0 s of Ok (Some (r, Some v), s') \<Rightarrow> if r = RT_EOK then Some (v, s') else None | _ \<Rightarrow> None)"

lemma mb_holds_woken:
  assumes "woken_first (upd_mb i (\<lambda>_. m) s) F h ws s' F'" "mb_wf m"
  shows "mb_holds i s' (mails m) (unat (mb_size m))"
proof -
  have "mailbox s' i = m" "kinv s' F'" "kgood s'" using assms(1) by (simp_all add: woken_first_def ipc_frame_def)
  then show ?thesis using assms(2) by (auto simp: mb_holds_def)
qed

lemma mb_entry_count:
  assumes "mb_wf m"
  shows "mb_entry m = mb_size m \<longleftrightarrow> length (mails m) = unat (mb_size m)" "mb_entry m = 0 \<longleftrightarrow> mails m = []"
proof -
  have len: "length (mails m) = unat (mb_entry m)" by (simp add: mails_def)
  show "mb_entry m = mb_size m \<longleftrightarrow> length (mails m) = unat (mb_size m)" unfolding len by (rule word_unat_eq_iff)
  show "mb_entry m = 0 \<longleftrightarrow> mails m = []" using len by (metis length_0_conv unat_eq_zero)
qed

interpretation kmb: fifo_service "mb_holds i" "\<lambda>_. True" "mb_sending i" "mb_receiving i" for i
proof
  fix s xs c x
  assume h: "mb_holds i s xs c"
  then obtain F where inv: "kinv s F" "kgood s" and wf: "mb_wf (mailbox s i)" and xs: "mails (mailbox s i) = xs"
    and c: "unat (mb_size (mailbox s i)) = c" by (auto simp: mb_holds_def)
  show "length xs \<le> c" using mb_wf_nat(3,4) [OF wf] xs c by (auto simp: mails_def)
  show "\<exists>s'. mb_sending i x s = Some s' \<and> mb_holds i s' (xs @ [x]) c" if "length xs < c"
  proof -
    have room: "mb_entry (mailbox s i) \<noteq> mb_size (mailbox s i)" using mb_entry_count(1) [OF wf] xs c that by simp
    obtain ws where ws: "waiters F (Suspend_thread (Mailbox i)) ws" by (rule kinv_waiters [OF inv(1)]) auto
    obtain s' F' where s': "mb_put i x s = Ok (Some RT_EOK, s')"
        "woken_first (upd_mb i (mb_stored x) s) F (Suspend_thread (Mailbox i)) ws s' F'"
      using mb_put_ok [OF inv wf ws] by blast
    have "mb_holds i s' (mails (mb_stored x (mailbox s i))) (unat (mb_size (mb_stored x (mailbox s i))))"
      using s'(2) mb_stored_ok(1) [OF wf room] by (intro mb_holds_woken) simp_all
    then show ?thesis
      using s'(1) room mb_stored_ok(2) [OF wf room, of x] xs c
      by (simp add: mb_sending_def rt_mb_send_def rt_mb_send_wait_def mb_send_loop_def mb_stored_def)
  qed
  show "mb_sending i x s = None" if "length xs = c"
    using that mb_entry_count(1) [OF wf] xs c by (simp add: mb_sending_def rt_mb_send_def rt_mb_send_wait_def)
next
  fix s x xs c
  assume h: "mb_holds i s (x # xs) c"
  then obtain F where inv: "kinv s F" "kgood s" and wf: "mb_wf (mailbox s i)" and xs: "mails (mailbox s i) = x # xs"
    and c: "unat (mb_size (mailbox s i)) = c" by (auto simp: mb_holds_def)
  have ne: "mb_entry (mailbox s i) \<noteq> 0" using mb_entry_count(2) [OF wf] xs by simp
  obtain ws where ws: "waiters F (Suspend_sender i) ws" by (rule kinv_waiters [OF inv(1)]) auto
  obtain s' F' where s': "mb_get i s = Ok (Some (RT_EOK, Some x), s')"
      "woken_first (upd_mb i mb_taken s) F (Suspend_sender i) ws s' F'"
    using mb_get_ok [OF inv wf ws] mb_taken_ok(2) [OF wf ne] xs by auto
  have "mb_holds i s' (mails (mb_taken (mailbox s i))) (unat (mb_size (mb_taken (mailbox s i))))"
    using s'(2) mb_taken_ok(1) [OF wf ne] by (intro mb_holds_woken) simp_all
  then show "\<exists>s'. mb_receiving i s = Some (x, s') \<and> mb_holds i s' xs c"
    using s'(1) ne mb_taken_ok(2) [OF wf ne] xs c
    by (simp add: mb_receiving_def rt_mb_recv_def mb_recv_loop_def mb_taken_def)
next
  show "mb_receiving i s = None" if "mb_holds i s [] c" for s c
    using that mb_entry_count(2) [of "mailbox s i"] by (auto simp: mb_holds_def mb_receiving_def rt_mb_recv_def)
qed

end
