(* ===== verification/RT_MsgQueue.thy ===== *)
theory RT_MsgQueue
  imports RT_Mailbox
begin

text \<open>
  Message queues of \<^verbatim>\<open>src/src/ipc.c\<close>. The pool is an array of blocks, each a \<^verbatim>\<open>struct rt_mq_message\<close>
  header and \<^verbatim>\<open>msg_size\<close> bytes; a pointer to a message is the index of its block. The functions copy
  messages with interrupts enabled: every stretch with interrupts disabled is an operation of its
  own on the queue, and the interleaving of several senders and receivers is the interleaving of
  these operations.
\<close>

section \<open>The queue\<close>

text \<open>\<^verbatim>\<open>RT_ALIGN(size, 4)\<close>, stored in 16 bits.\<close>

definition align_size :: "u32 \<Rightarrow> u16" where
  "align_size msg_size = ucast ((msg_size + 3) AND NOT 3)"

fun mq_free_init :: "nat \<Rightarrow> rt_messagequeue \<Rightarrow> rt_messagequeue" where
  "mq_free_init 0 q = q"
| "mq_free_init (Suc temp) q =
     (let q = mq_free_init temp q;
          q = q\<lparr>mq_next := (mq_next q)(temp := mq_msg_queue_free q)\<rparr>
      in q\<lparr>mq_msg_queue_free := Some temp\<rparr>)"

definition mq_struct_init :: "rt_messagequeue \<Rightarrow> rt_messagequeue" where
  "mq_struct_init q =
     (let q = q\<lparr>mq_msg_queue_head := None, mq_msg_queue_tail := None\<rparr>;
          q = q\<lparr>mq_msg_queue_free := None\<rparr>;
          q = mq_free_init (unat (mq_max_msgs q)) q
      in q\<lparr>mq_entry := 0\<rparr>)"

definition mq_take_free :: "rt_messagequeue \<Rightarrow> (nat \<times> rt_messagequeue) option" where
  "mq_take_free q =
     (case mq_msg_queue_free q of
        None \<Rightarrow> None
      | Some msg \<Rightarrow> Some (msg, q\<lparr>mq_msg_queue_free := mq_next q msg\<rparr>))"

definition mq_copy_in :: "nat \<Rightarrow> u8 list \<Rightarrow> rt_messagequeue \<Rightarrow> rt_messagequeue" where
  "mq_copy_in msg buffer q =
     q\<lparr>mq_data := (mq_data q)(msg := buffer @ drop (length buffer) (mq_data q msg))\<rparr>"

definition mq_link_tail :: "nat \<Rightarrow> rt_messagequeue \<Rightarrow> rt_messagequeue" where
  "mq_link_tail msg q =
     (let q = (case mq_msg_queue_tail q of
                 None \<Rightarrow> q
               | Some tail \<Rightarrow> q\<lparr>mq_next := (mq_next q)(tail := Some msg)\<rparr>);
          q = q\<lparr>mq_msg_queue_tail := Some msg\<rparr>;
          q = (if mq_msg_queue_head q = None then q\<lparr>mq_msg_queue_head := Some msg\<rparr> else q)
      in q\<lparr>mq_entry := mq_entry q + 1\<rparr>)"

definition mq_link_head :: "nat \<Rightarrow> rt_messagequeue \<Rightarrow> rt_messagequeue" where
  "mq_link_head msg q =
     (let q = q\<lparr>mq_next := (mq_next q)(msg := mq_msg_queue_head q)\<rparr>;
          q = q\<lparr>mq_msg_queue_head := Some msg\<rparr>;
          q = (if mq_msg_queue_tail q = None then q\<lparr>mq_msg_queue_tail := Some msg\<rparr> else q)
      in q\<lparr>mq_entry := mq_entry q + 1\<rparr>)"

definition mq_unlink_head :: "nat \<Rightarrow> rt_messagequeue \<Rightarrow> rt_messagequeue" where
  "mq_unlink_head msg q =
     (let q = q\<lparr>mq_msg_queue_head := mq_next q msg\<rparr>
      in if mq_msg_queue_tail q = Some msg then q\<lparr>mq_msg_queue_tail := None\<rparr> else q)"

definition mq_give_free :: "nat \<Rightarrow> rt_messagequeue \<Rightarrow> rt_messagequeue" where
  "mq_give_free msg q =
     (let q = q\<lparr>mq_next := (mq_next q)(msg := mq_msg_queue_free q)\<rparr>
      in q\<lparr>mq_msg_queue_free := Some msg\<rparr>)"

partial_function (option) mq_release_all :: "rt_messagequeue \<Rightarrow> rt_messagequeue option" where
  "mq_release_all q =
     (case mq_msg_queue_head q of
        None \<Rightarrow> Some q
      | Some msg \<Rightarrow> mq_release_all (mq_give_free msg (mq_unlink_head msg q)))"

section \<open>Operations\<close>

definition upd_mq :: "nat \<Rightarrow> (rt_messagequeue \<Rightarrow> rt_messagequeue) \<Rightarrow> kstate \<Rightarrow> kstate" where
  [simp]: "upd_mq i f s = s\<lparr>msgqueue := (msgqueue s)(i := f (msgqueue s i))\<rparr>"

text \<open>The bytes of the caller's pool after each header are \<open>pool\<close>; the addition is that of 32-bit sizes.\<close>

definition rt_mq_init :: "nat \<Rightarrow> cstr \<Rightarrow> (nat \<Rightarrow> u8 list) \<Rightarrow> u32 \<Rightarrow> u32 \<Rightarrow> u8 \<Rightarrow> kstate \<Rightarrow> (int \<times> kstate) res" where
  "rt_mq_init i name pool msg_size pool_size flag s =
     rbind (rt_object_init (O_ipc (Msgqueue i)) Class_MessageQueue name s) (\<lambda>s.
     (let s = upd_object (O_ipc (Msgqueue i)) (\<lambda>r. r\<lparr>ob_flag := flag\<rparr>) s;
          s = rt_ipc_object_init (Msgqueue i) s;
          s = upd_mq i (\<lambda>q. q\<lparr>mq_data := pool\<rparr>) s;
          s = upd_mq i (\<lambda>q. q\<lparr>mq_msg_size := align_size msg_size\<rparr>) s;
          s = upd_mq i (\<lambda>q. q\<lparr>mq_max_msgs := ucast (pool_size div (ucast (mq_msg_size q) + 4))\<rparr>) s
      in Ok (RT_EOK, upd_mq i mq_struct_init s)))"

definition rt_mq_detach :: "nat \<Rightarrow> kstate \<Rightarrow> (int \<times> kstate) res" where
  "rt_mq_detach i s =
     rbind (rt_ipc_list_resume_all (Suspend_thread (Msgqueue i)) s) (\<lambda>s.
     Ok (RT_EOK, rt_object_detach (O_ipc (Msgqueue i)) s))"

text \<open>\<open>has_pool\<close> says whether \<^verbatim>\<open>mq->msg_pool\<close> is a block; freeing a null pointer does nothing.\<close>

definition rt_mq_delete :: "bool \<Rightarrow> nat \<Rightarrow> kstate \<Rightarrow> (int \<times> kstate) res" where
  "rt_mq_delete has_pool i s =
     rbind (rassert (not_in_interrupt s) s) (\<lambda>s.
     rbind (rt_ipc_list_resume_all (Suspend_thread (Msgqueue i)) s) (\<lambda>s.
     (let s = (if has_pool then kernel_free (K_pool (Msgqueue i)) s else s)
      in rbind (rt_object_delete (O_ipc (Msgqueue i)) s) (\<lambda>s. Ok (RT_EOK, s)))))"

definition rt_mq_create ::
    "nat option \<Rightarrow> (nat \<Rightarrow> u8 list) option \<Rightarrow> cstr \<Rightarrow> u32 \<Rightarrow> u32 \<Rightarrow> u8 \<Rightarrow> kstate \<Rightarrow> (nat option \<times> kstate) res" where
  "rt_mq_create malloc pool name msg_size max_msgs flag s =
     rbind (rassert (not_in_interrupt s) s) (\<lambda>s.
     rbind (rt_object_allocate (map_option (O_ipc \<circ> Msgqueue) malloc) Class_MessageQueue name s) (\<lambda>(ob, s).
     case malloc of
       None \<Rightarrow> Ok (None, s)
     | Some i \<Rightarrow>
         (let s = upd_object (O_ipc (Msgqueue i)) (\<lambda>r. r\<lparr>ob_flag := flag\<rparr>) s;
              s = rt_ipc_object_init (Msgqueue i) s;
              s = upd_mq i (\<lambda>q. q\<lparr>mq_msg_size := align_size msg_size, mq_max_msgs := ucast max_msgs\<rparr>) s
          in case pool of
               None \<Rightarrow> rbind (rt_mq_delete False i s) (\<lambda>(r, s). Ok (None, s))
             | Some msg_pool \<Rightarrow>
                 (let s = upd_mq i (\<lambda>q. q\<lparr>mq_data := msg_pool\<rparr>) s
                  in Ok (Some i, upd_mq i mq_struct_init s)))))"

text \<open>What \<^verbatim>\<open>rt_mq_send\<close> and \<^verbatim>\<open>rt_mq_urgent\<close> do once the message is linked.\<close>

definition mq_wake :: "nat \<Rightarrow> kstate \<Rightarrow> (int \<times> kstate) res" where
  "mq_wake i s =
     (if \<not> rt_list_isempty (Suspend_thread (Msgqueue i)) (links s)
      then
        rbind (rt_ipc_list_resume (Suspend_thread (Msgqueue i)) s) (\<lambda>s.
        rbind (rt_schedule s) (\<lambda>s. Ok (RT_EOK, s)))
      else Ok (RT_EOK, s))"

text \<open>\<open>buffer\<close> are the \<open>size\<close> bytes of the message.\<close>

definition rt_mq_send :: "nat \<Rightarrow> u8 list \<Rightarrow> kstate \<Rightarrow> (int \<times> kstate) res" where
  "rt_mq_send i buffer s =
     rbind (rassert (length buffer \<noteq> 0) s) (\<lambda>s.
     if length buffer > unat (mq_msg_size (msgqueue s i)) then Ok (- RT_ERROR, s)
     else
       (case mq_take_free (msgqueue s i) of
          None \<Rightarrow> Ok (- RT_EFULL, s)
        | Some (msg, q) \<Rightarrow>
            (let s = upd_mq i (\<lambda>_. q) s;
                 s = upd_mq i (\<lambda>q. q\<lparr>mq_next := (mq_next q)(msg := None)\<rparr>) s;
                 s = upd_mq i (mq_copy_in msg buffer) s;
                 s = upd_mq i (mq_link_tail msg) s
             in mq_wake i s)))"

definition rt_mq_urgent :: "nat \<Rightarrow> u8 list \<Rightarrow> kstate \<Rightarrow> (int \<times> kstate) res" where
  "rt_mq_urgent i buffer s =
     rbind (rassert (length buffer \<noteq> 0) s) (\<lambda>s.
     if length buffer > unat (mq_msg_size (msgqueue s i)) then Ok (- RT_ERROR, s)
     else
       (case mq_take_free (msgqueue s i) of
          None \<Rightarrow> Ok (- RT_EFULL, s)
        | Some (msg, q) \<Rightarrow>
            (let s = upd_mq i (\<lambda>_. q) s;
                 s = upd_mq i (mq_copy_in msg buffer) s;
                 s = upd_mq i (mq_link_head msg) s
             in mq_wake i s)))"

text \<open>The value of a reception is the bytes copied to the caller's buffer of \<open>size\<close> bytes.\<close>

definition mq_get :: "nat \<Rightarrow> u32 \<Rightarrow> kstate \<Rightarrow> ((int \<times> u8 list) option \<times> kstate) res" where
  "mq_get i len s =
     (case mq_msg_queue_head (msgqueue s i) of
        None \<Rightarrow> Fault Null_Pointer
      | Some msg \<Rightarrow>
          (let s = upd_mq i (mq_unlink_head msg) s;
               s = upd_mq i (\<lambda>q. q\<lparr>mq_entry := mq_entry q - 1\<rparr>) s;
               q = msgqueue s i;
               buffer = take (if unat len > unat (mq_msg_size q) then unat (mq_msg_size q) else unat len) (mq_data q msg);
               s = upd_mq i (mq_give_free msg) s
           in Ok (Some (RT_EOK, buffer), s)))"

definition mq_recv_loop ::
    "nat \<Rightarrow> u32 \<Rightarrow> u32 \<Rightarrow> thread_id option \<Rightarrow> kstate \<Rightarrow> ((int \<times> u8 list) option \<times> kstate) res" where
  "mq_recv_loop i len timeout self s =
     (if mq_entry (msgqueue s i) = 0 then
        rbind (rassert (in_thread_context s) s) (\<lambda>s.
        case self of
          None \<Rightarrow> Fault Null_Pointer
        | Some t \<Rightarrow>
            (let s = upd_thread t (\<lambda>th. th\<lparr>th_error := RT_EOK\<rparr>) s
             in if timeout = 0
                then Ok (Some (- RT_ETIMEOUT, []), upd_thread t (\<lambda>th. th\<lparr>th_error := - RT_ETIMEOUT\<rparr>) s)
                else
                  rbind (rt_ipc_list_suspend (Suspend_thread (Msgqueue i)) t (ob_flag (object s (O_ipc (Msgqueue i)))) s) (\<lambda>s.
                  (let tick_delta = (if sint timeout > 0 then rt_tick s else 0)
                   in rbind (wait_timer t timeout s) (\<lambda>s.
                      block t (C_mq_recv i len timeout tick_delta) s)))))
      else mq_get i len s)"

definition rt_mq_recv :: "nat \<Rightarrow> u32 \<Rightarrow> u32 \<Rightarrow> kstate \<Rightarrow> ((int \<times> u8 list) option \<times> kstate) res" where
  "rt_mq_recv i len timeout s =
     rbind (rassert (len \<noteq> 0) s) (\<lambda>s.
     (let self = rt_thread_self s
      in if mq_entry (msgqueue s i) = 0 \<and> timeout = 0 then Ok (Some (- RT_ETIMEOUT, []), s)
         else mq_recv_loop i len timeout self s))"

definition rt_mq_recv_resume ::
    "thread_id \<Rightarrow> nat \<Rightarrow> u32 \<Rightarrow> u32 \<Rightarrow> u32 \<Rightarrow> kstate \<Rightarrow> ((int \<times> u8 list) option \<times> kstate) res" where
  "rt_mq_recv_resume t i len timeout tick_delta s =
     (let s = s\<lparr>cont := (cont s)(t := None)\<rparr>
      in if th_error (thread s t) \<noteq> RT_EOK then Ok (Some (th_error (thread s t), []), s)
         else mq_recv_loop i len (remaining_time timeout tick_delta (rt_tick s)) (Some t) s)"

fun rt_mq_control :: "nat \<Rightarrow> ipc_cmd \<Rightarrow> kstate \<Rightarrow> (int \<times> kstate) res" where
  "rt_mq_control i (Ipc_reset arg) s =
     rbind (rt_ipc_list_resume_all (Suspend_thread (Msgqueue i)) s) (\<lambda>s.
     (case mq_release_all (msgqueue s i) of
        None \<Rightarrow> Fault Diverges
      | Some q \<Rightarrow>
          (let s = upd_mq i (\<lambda>_. q) s;
               s = upd_mq i (\<lambda>q. q\<lparr>mq_entry := 0\<rparr>) s
           in rbind (rt_schedule s) (\<lambda>s. Ok (RT_EOK, s)))))"
| "rt_mq_control i Ipc_other s = Ok (- RT_ERROR, s)"

section \<open>The blocks of the pool\<close>

text \<open>\<open>chain nx p ks\<close>: following \<open>nx\<close> from the pointer \<open>p\<close> visits the blocks \<open>ks\<close> and ends in a null pointer.\<close>

fun chain :: "(nat \<Rightarrow> nat option) \<Rightarrow> nat option \<Rightarrow> nat list \<Rightarrow> bool" where
  "chain nx p [] \<longleftrightarrow> p = None"
| "chain nx p (k # ks) \<longleftrightarrow> p = Some k \<and> chain nx (nx k) ks"

lemma chain_upd [simp]: "k \<notin> set ks \<Longrightarrow> chain (nx(k := v)) p ks = chain nx p ks"
  by (induction ks arbitrary: p) auto

lemma chain_snoc:
  assumes "chain nx p ks" "k \<notin> set ks" "ks \<noteq> []" "distinct ks" "nx k = None"
  shows "chain (nx(last ks := Some k)) p (ks @ [k])"
  using assms
proof (induction ks arbitrary: p)
  case (Cons a ks)
  then show ?case by (cases "ks = []") auto
qed simp

lemma chain_None: "chain nx None ks \<longleftrightarrow> ks = []"
  by (cases ks) auto

text \<open>
  \<open>mq_wf q ms fr busy\<close>: the queue holds the messages \<open>ms\<close> in this order, \<open>fr\<close> is the free list, and \<open>busy\<close>
  are the blocks that senders and receivers are copying; every block is in exactly one of the three.
\<close>

definition mq_shape :: "rt_messagequeue \<Rightarrow> nat list \<Rightarrow> nat list \<Rightarrow> nat set \<Rightarrow> bool" where
  "mq_shape q ms fr busy \<longleftrightarrow>
     chain (mq_next q) (mq_msg_queue_head q) ms \<and> chain (mq_next q) (mq_msg_queue_free q) fr \<and>
     mq_msg_queue_tail q = (if ms = [] then None else Some (last ms)) \<and>
     distinct (ms @ fr) \<and> set ms \<union> set fr \<union> busy = {..<unat (mq_max_msgs q)} \<and>
     busy \<inter> (set ms \<union> set fr) = {} \<and>
     (\<forall>k < unat (mq_max_msgs q). length (mq_data q k) = unat (mq_msg_size q))"

definition mq_wf :: "rt_messagequeue \<Rightarrow> nat list \<Rightarrow> nat list \<Rightarrow> nat set \<Rightarrow> bool" where
  "mq_wf q ms fr busy \<longleftrightarrow> mq_shape q ms fr busy \<and> unat (mq_entry q) = length ms"

lemma mq_wf_le:
  assumes "mq_wf q ms fr busy"
  shows "length ms + length fr + card busy = unat (mq_max_msgs q)"
proof -
  have fin: "finite busy" using assms by (auto simp: mq_wf_def mq_shape_def intro: finite_subset [of _ "{..<unat (mq_max_msgs q)}"])
  have d: "distinct (ms @ fr)" "busy \<inter> (set ms \<union> set fr) = {}" "set ms \<union> set fr \<union> busy = {..<unat (mq_max_msgs q)}"
    using assms by (simp_all add: mq_wf_def mq_shape_def)
  have "card (set (ms @ fr) \<union> busy) = card (set (ms @ fr)) + card busy"
    using d(2) fin by (intro card_Un_disjoint) auto
  moreover have "card (set (ms @ fr)) = length ms + length fr" using distinct_card [OF d(1)] by simp
  moreover have "set (ms @ fr) \<union> busy = {..<unat (mq_max_msgs q)}" using d(3) by auto
  ultimately show ?thesis by simp
qed

lemma mq_wf_busy:
  assumes "mq_wf q ms fr busy" "k \<in> busy"
  shows "k \<notin> set ms" "k \<notin> set fr" "k < unat (mq_max_msgs q)"
  using assms by (auto simp: mq_wf_def mq_shape_def)

lemma mq_take_free_empty: "mq_wf q ms [] busy \<Longrightarrow> mq_take_free q = None"
  by (simp add: mq_wf_def mq_shape_def mq_take_free_def)

lemma mq_take_free_ok:
  assumes "mq_wf q ms (k # fr) busy"
  shows "\<exists>q'. mq_take_free q = Some (k, q') \<and> mq_wf q' ms fr (insert k busy) \<and> mq_data q' = mq_data q \<and>
    mq_msg_size q' = mq_msg_size q \<and> mq_max_msgs q' = mq_max_msgs q \<and> mq_next q' = mq_next q"
  using assms by (auto simp: mq_wf_def mq_shape_def mq_take_free_def)

lemma mq_clear_ok:
  assumes "mq_wf q ms fr busy" "k \<in> busy"
  shows "mq_wf (q\<lparr>mq_next := (mq_next q)(k := v)\<rparr>) ms fr busy"
  using assms mq_wf_busy [OF assms] by (simp add: mq_wf_def mq_shape_def)

lemma mq_copy_in_ok:
  assumes "mq_wf q ms fr busy" "k \<in> busy" "length buffer \<le> unat (mq_msg_size q)"
  shows "mq_wf (mq_copy_in k buffer q) ms fr busy" "take (length buffer) (mq_data (mq_copy_in k buffer q) k) = buffer"
  using assms mq_wf_busy [OF assms(1,2)] by (auto simp: mq_wf_def mq_shape_def mq_copy_in_def)

lemma mq_entry_up:
  assumes "mq_wf q ms fr busy" "k \<in> busy"
  shows "unat (mq_entry q + 1) = Suc (length ms)"
proof -
  have "finite busy" using assms(1) by (auto simp: mq_wf_def mq_shape_def intro: finite_subset [of _ "{..<unat (mq_max_msgs q)}"])
  then have "0 < card busy" using assms(2) by (auto simp: card_gt_0_iff)
  then have "Suc (length ms) \<le> unat (mq_max_msgs q)" using mq_wf_le [OF assms(1)] by simp
  moreover have "unat (mq_max_msgs q) < 65536" using unsigned_less [of "mq_max_msgs q"] by simp
  moreover have "unat (mq_entry q) = length ms" using assms(1) by (simp add: mq_wf_def mq_shape_def)
  ultimately show ?thesis by (simp add: unat_word_ariths)
qed

lemma mq_link_tail_ok:
  assumes wf: "mq_wf q ms fr busy" and k: "k \<in> busy" and nx: "mq_next q k = None"
  shows "mq_wf (mq_link_tail k q) (ms @ [k]) fr (busy - {k})"
proof -
  note b = mq_wf_busy [OF wf k]
  note e = mq_entry_up [OF wf k]
  show ?thesis
  proof (cases "ms = []")
    case True
    then show ?thesis using wf b e nx k by (auto simp: mq_wf_def mq_shape_def mq_link_tail_def)
  next
    case False
    have "last ms \<in> set ms" using False by simp
    then have l: "last ms \<notin> set fr" using wf by (auto simp: mq_wf_def mq_shape_def)
    have h: "mq_msg_queue_head q \<noteq> None" using wf False by (cases ms) (auto simp: mq_wf_def mq_shape_def)
    have "chain ((mq_next q)(last ms := Some k)) (mq_msg_queue_head q) (ms @ [k])"
      using wf b(1) False nx by (intro chain_snoc) (simp_all add: mq_wf_def mq_shape_def)
    then show ?thesis using wf b e l h False k by (auto simp: mq_wf_def mq_shape_def mq_link_tail_def)
  qed
qed

lemma mq_link_head_ok:
  assumes wf: "mq_wf q ms fr busy" and k: "k \<in> busy"
  shows "mq_wf (mq_link_head k q) (k # ms) fr (busy - {k})"
  using wf mq_wf_busy [OF wf k] mq_entry_up [OF wf k] k
  by (cases "ms = []") (auto simp: mq_wf_def mq_shape_def mq_link_head_def)

definition mq_popped :: "nat \<Rightarrow> rt_messagequeue \<Rightarrow> rt_messagequeue" where
  "mq_popped k q = (mq_unlink_head k q)\<lparr>mq_entry := mq_entry (mq_unlink_head k q) - 1\<rparr>"

lemma mq_popped_ok:
  assumes wf: "mq_wf q (k # ms) fr busy"
  shows "mq_wf (mq_popped k q) ms fr (insert k busy)"
proof -
  have "mq_entry q \<noteq> 0" using wf by (auto simp: mq_wf_def mq_shape_def)
  then have "unat (mq_entry q - 1) = length ms" using wf unat_minus_one [of "mq_entry q"] by (simp add: mq_wf_def mq_shape_def)
  then show ?thesis
    using wf by (auto simp: mq_wf_def mq_shape_def mq_popped_def mq_unlink_head_def Let_def)
qed

lemma mq_give_free_ok:
  assumes wf: "mq_wf q ms fr busy" and k: "k \<in> busy"
  shows "mq_wf (mq_give_free k q) ms (k # fr) (busy - {k})"
  using wf mq_wf_busy [OF wf k] k by (auto simp: mq_wf_def mq_shape_def mq_give_free_def)

text \<open>The free list of the queue as a block pool.\<close>

interpretation mqp: block_pool "\<lambda>q fr held. \<exists>ms. mq_wf q ms fr held" mq_take_free mq_give_free
proof
  show "distinct fr \<and> set fr \<inter> held = {} \<and> finite held" if "\<exists>ms. mq_wf q ms fr held" for q fr held
    using that by (auto simp: mq_wf_def mq_shape_def intro: finite_subset [of _ "{..<unat (mq_max_msgs q)}"])
qed (use mq_take_free_empty mq_take_free_ok mq_give_free_ok in blast)+

lemma mq_release_all_ok:
  assumes "mq_shape q ms fr busy"
  shows "\<exists>q' fr'. mq_release_all q = Some q' \<and> mq_shape q' [] fr' busy \<and> (\<forall>j\<in>busy. mq_next q' j = mq_next q j) \<and>
    mq_max_msgs q' = mq_max_msgs q \<and> mq_msg_size q' = mq_msg_size q"
  using assms
proof (induction ms arbitrary: q fr)
  case Nil
  then show ?case by (subst mq_release_all.simps) (auto simp: mq_shape_def)
next
  case (Cons k ms)
  have h: "mq_msg_queue_head q = Some k" using Cons.prems by (simp add: mq_shape_def)
  have "k \<notin> busy" using Cons.prems by (auto simp: mq_shape_def)
  then have f: "\<forall>j\<in>busy. mq_next (mq_give_free k (mq_unlink_head k q)) j = mq_next q j"
      "mq_max_msgs (mq_give_free k (mq_unlink_head k q)) = mq_max_msgs q"
      "mq_msg_size (mq_give_free k (mq_unlink_head k q)) = mq_msg_size q"
    by (auto simp: mq_give_free_def mq_unlink_head_def Let_def)
  have "mq_shape (mq_give_free k (mq_unlink_head k q)) ms (k # fr) busy"
    using Cons.prems by (auto simp: mq_shape_def mq_give_free_def mq_unlink_head_def Let_def)
  from Cons.IH [OF this] h f show ?case by (subst mq_release_all.simps) auto
qed

lemma mq_free_init_frame [simp]:
  "mq_msg_queue_head (mq_free_init n q) = mq_msg_queue_head q" "mq_msg_queue_tail (mq_free_init n q) = mq_msg_queue_tail q"
  "mq_max_msgs (mq_free_init n q) = mq_max_msgs q" "mq_msg_size (mq_free_init n q) = mq_msg_size q"
  "mq_data (mq_free_init n q) = mq_data q"
  by (induction n) (simp_all add: Let_def)

lemma mq_free_init_chain:
  "mq_msg_queue_free q = None \<Longrightarrow> chain (mq_next (mq_free_init n q)) (mq_msg_queue_free (mq_free_init n q)) (rev [0..<n])"
  by (induction n) (auto simp: Let_def)

lemma mq_struct_init_ok:
  assumes "\<forall>k < unat (mq_max_msgs q). length (mq_data q k) = unat (mq_msg_size q)"
  shows "mq_wf (mq_struct_init q) [] (rev [0..<unat (mq_max_msgs q)]) {}"
  using assms mq_free_init_chain [of "q\<lparr>mq_msg_queue_head := None, mq_msg_queue_tail := None, mq_msg_queue_free := None\<rparr>" "unat (mq_max_msgs q)"]
  by (auto simp: mq_struct_init_def mq_wf_def mq_shape_def Let_def)

section \<open>Interleaved senders and receivers\<close>

text \<open>
  Where the owner of a busy block is: it has taken the block and will copy the message (\<open>True\<close> for
  \<^verbatim>\<open>rt_mq_urgent\<close>), it has copied it, or it has unlinked a message and is copying it out.
\<close>

datatype mq_phase = M_taken "u8 list" bool | M_filled bool | M_unlinked

type_synonym mq_sys = "rt_messagequeue \<times> (nat \<rightharpoonup> mq_phase)"

inductive mq_step :: "mq_sys \<Rightarrow> mq_sys \<Rightarrow> bool" where
  take_free: "0 < length buffer \<Longrightarrow> length buffer \<le> unat (mq_msg_size q) \<Longrightarrow> mq_take_free q = Some (k, q') \<Longrightarrow>
    mq_step (q, b) (q', b(k \<mapsto> M_taken buffer urgent))"
| copy_in: "b k = Some (M_taken buffer urgent) \<Longrightarrow>
    mq_step (q, b) (mq_copy_in k buffer (if urgent then q else q\<lparr>mq_next := (mq_next q)(k := None)\<rparr>), b(k \<mapsto> M_filled urgent))"
| link_tail: "b k = Some (M_filled False) \<Longrightarrow> mq_step (q, b) (mq_link_tail k q, b(k := None))"
| link_head: "b k = Some (M_filled True) \<Longrightarrow> mq_step (q, b) (mq_link_head k q, b(k := None))"
| unlink: "mq_entry q \<noteq> 0 \<Longrightarrow> mq_msg_queue_head q = Some k \<Longrightarrow> mq_step (q, b) (mq_popped k q, b(k \<mapsto> M_unlinked))"
| give_free: "b k = Some M_unlinked \<Longrightarrow> mq_step (q, b) (mq_give_free k q, b(k := None))"
| reset: "mq_release_all q = Some q' \<Longrightarrow> mq_step (q, b) (q'\<lparr>mq_entry := 0\<rparr>, b)"

inductive mq_reach :: "rt_messagequeue \<Rightarrow> mq_sys \<Rightarrow> bool" for q0 where
  init: "mq_reach q0 (mq_struct_init q0, \<lambda>_. None)"
| step: "mq_reach q0 x \<Longrightarrow> mq_step x y \<Longrightarrow> mq_reach q0 y"

definition mq_inv :: "mq_sys \<Rightarrow> bool" where
  "mq_inv = (\<lambda>(q, b).
     (\<exists>ms fr. mq_wf q ms fr (dom b)) \<and> (\<forall>k. b k = Some (M_filled False) \<longrightarrow> mq_next q k = None) \<and>
     (\<forall>k buffer u. b k = Some (M_taken buffer u) \<longrightarrow> length buffer \<le> unat (mq_msg_size q)))"

lemma mq_invI:
  assumes "mq_wf q ms fr (dom b)" "\<And>k. b k = Some (M_filled False) \<Longrightarrow> mq_next q k = None"
    and "\<And>k buffer u. b k = Some (M_taken buffer u) \<Longrightarrow> length buffer \<le> unat (mq_msg_size q)"
  shows "mq_inv (q, b)"
  using assms by (auto simp: mq_inv_def)

lemma mq_step_inv:
  assumes "mq_step x y" "mq_inv x"
  shows "mq_inv y \<and> mq_max_msgs (fst y) = mq_max_msgs (fst x) \<and> mq_msg_size (fst y) = mq_msg_size (fst x)"
  using assms
proof (induction rule: mq_step.induct)
  case (take_free buffer q k q' b urgent)
  then obtain ms fr where wf: "mq_wf q ms fr (dom b)" by (auto simp: mq_inv_def)
  obtain k' fr' where fr: "fr = k' # fr'"
    using wf take_free(3) mq_take_free_empty [of q ms "dom b"] by (cases fr) auto
  then have q': "mq_wf q' ms fr' (insert k (dom b))" "k' = k" "mq_msg_size q' = mq_msg_size q"
      "mq_max_msgs q' = mq_max_msgs q" "mq_next q' = mq_next q"
    using mq_take_free_ok [of q ms k' fr' "dom b"] wf take_free(3) by auto
  have "mq_inv (q', b(k \<mapsto> M_taken buffer urgent))"
  proof (rule mq_invI)
    show "mq_wf q' ms fr' (dom (b(k \<mapsto> M_taken buffer urgent)))" using q'(1) by simp
  qed (use take_free(2,4) q' in \<open>auto simp: mq_inv_def split: if_splits\<close>)
  then show ?case using q' by simp
next
  case (copy_in b k buffer urgent q)
  then obtain ms fr where wf: "mq_wf q ms fr (dom b)" by (auto simp: mq_inv_def)
  have k: "k \<in> dom b" "insert k (dom b) = dom b" using copy_in(1) by auto
  have len: "length buffer \<le> unat (mq_msg_size q)" using copy_in by (auto simp: mq_inv_def)
  define q1 where "q1 = (if urgent then q else q\<lparr>mq_next := (mq_next q)(k := None)\<rparr>)"
  have wf1: "mq_wf q1 ms fr (dom b)" using wf mq_clear_ok [OF wf k(1)] by (simp add: q1_def)
  have sz: "mq_msg_size q1 = mq_msg_size q" "mq_max_msgs q1 = mq_max_msgs q" by (simp_all add: q1_def)
  have "mq_inv (mq_copy_in k buffer q1, b(k \<mapsto> M_filled urgent))"
  proof (rule mq_invI)
    show "mq_wf (mq_copy_in k buffer q1) ms fr (dom (b(k \<mapsto> M_filled urgent)))"
      using mq_copy_in_ok(1) [OF wf1 k(1)] len k(2) sz by simp
  qed (use copy_in in \<open>auto simp: mq_inv_def q1_def mq_copy_in_def split: if_splits\<close>)
  then show ?case unfolding q1_def by (simp add: mq_copy_in_def)
next
  case (link_tail b k q)
  then obtain ms fr where wf: "mq_wf q ms fr (dom b)" by (auto simp: mq_inv_def)
  have k: "k \<in> dom b" using link_tail(1) by auto
  have nx: "mq_next q k = None" using link_tail by (auto simp: mq_inv_def)
  have lt: "mq_msg_queue_tail q \<noteq> Some j" if "b j = Some p" for j p
    using wf mq_wf_busy(1) [OF wf, of j] that by (auto simp: mq_wf_def mq_shape_def split: if_splits)
  have "mq_inv (mq_link_tail k q, b(k := None))"
  proof (rule mq_invI)
    show "mq_wf (mq_link_tail k q) (ms @ [k]) fr (dom (b(k := None)))"
      using mq_link_tail_ok [OF wf k nx] by simp
  next
    show "mq_next (mq_link_tail k q) j = None" if "(b(k := None)) j = Some (M_filled False)" for j
      using that link_tail lt [of j] by (auto simp: mq_inv_def mq_link_tail_def Let_def split: if_splits option.splits)
  next
    show "length buffer \<le> unat (mq_msg_size (mq_link_tail k q))" if "(b(k := None)) j = Some (M_taken buffer u)" for j buffer u
      using that link_tail by (simp add: mq_inv_def mq_link_tail_def Let_def split: if_splits option.splits) blast+
  qed
  then show ?case by (simp add: mq_link_tail_def Let_def split: option.splits)
next
  case (link_head b k q)
  then obtain ms fr where wf: "mq_wf q ms fr (dom b)" by (auto simp: mq_inv_def)
  have k: "k \<in> dom b" using link_head(1) by auto
  have "mq_inv (mq_link_head k q, b(k := None))"
  proof (rule mq_invI)
    show "mq_wf (mq_link_head k q) (k # ms) fr (dom (b(k := None)))"
      using mq_link_head_ok [OF wf k] by simp
  qed (use link_head in \<open>auto simp: mq_inv_def mq_link_head_def Let_def split: if_splits\<close>)
  then show ?case by (simp add: mq_link_head_def Let_def)
next
  case (unlink q k b)
  then obtain ms fr where wf: "mq_wf q ms fr (dom b)" by (auto simp: mq_inv_def)
  obtain ms' where ms: "ms = k # ms'" using wf unlink(2) by (cases ms) (auto simp: mq_wf_def mq_shape_def)
  have "mq_inv (mq_popped k q, b(k \<mapsto> M_unlinked))"
  proof (rule mq_invI)
    show "mq_wf (mq_popped k q) ms' fr (dom (b(k \<mapsto> M_unlinked)))"
      using mq_popped_ok [of q k ms' fr "dom b"] wf ms by simp
  qed (use unlink in \<open>auto simp: mq_inv_def mq_popped_def mq_unlink_head_def Let_def split: if_splits\<close>)
  then show ?case by (simp add: mq_popped_def mq_unlink_head_def Let_def)
next
  case (give_free b k q)
  then obtain ms fr where wf: "mq_wf q ms fr (dom b)" by (auto simp: mq_inv_def)
  have k: "k \<in> dom b" using give_free(1) by auto
  have "mq_inv (mq_give_free k q, b(k := None))"
  proof (rule mq_invI)
    show "mq_wf (mq_give_free k q) ms (k # fr) (dom (b(k := None)))"
      using mq_give_free_ok [OF wf k] by simp
  qed (use give_free in \<open>auto simp: mq_inv_def mq_give_free_def split: if_splits\<close>)
  then show ?case by (simp add: mq_give_free_def)
next
  case (reset q q' b)
  then obtain ms fr where wf: "mq_wf q ms fr (dom b)" by (auto simp: mq_inv_def)
  then have "mq_shape q ms fr (dom b)" by (simp add: mq_wf_def)
  from mq_release_all_ok [OF this] reset(1) obtain fr' where
    r: "mq_shape q' [] fr' (dom b)" "\<forall>j\<in>dom b. mq_next q' j = mq_next q j"
      "mq_max_msgs q' = mq_max_msgs q" "mq_msg_size q' = mq_msg_size q" by auto
  have "mq_inv (q'\<lparr>mq_entry := 0\<rparr>, b)"
  proof (rule mq_invI)
    show "mq_wf (q'\<lparr>mq_entry := 0\<rparr>) [] fr' (dom b)" using r(1) by (simp add: mq_wf_def mq_shape_def)
  next
    show "mq_next (q'\<lparr>mq_entry := 0\<rparr>) k = None" if "b k = Some (M_filled False)" for k
      using that reset(2) bspec [OF r(2), of k] domI [of b k] by (simp add: mq_inv_def)
  next
    show "length buffer \<le> unat (mq_msg_size (q'\<lparr>mq_entry := 0\<rparr>))" if "b k = Some (M_taken buffer u)" for k buffer u
      using that reset(2) r(4) by (simp add: mq_inv_def) blast
  qed
  then show ?case using r by simp
qed

lemma mq_reach_inv:
  assumes "mq_reach q0 x" "\<forall>k < unat (mq_max_msgs q0). length (mq_data q0 k) = unat (mq_msg_size q0)"
  shows "mq_inv x \<and> mq_max_msgs (fst x) = mq_max_msgs q0 \<and> mq_msg_size (fst x) = mq_msg_size q0"
  using assms
proof (induction rule: mq_reach.induct)
  case init
  have "mq_inv (mq_struct_init q0, \<lambda>_. None)"
    by (rule mq_invI) (use mq_struct_init_ok [OF init] in simp_all)
  then show ?case by (simp add: mq_struct_init_def Let_def)
next
  case (step x y)
  then show ?case using mq_step_inv [OF step.hyps(2)] by simp
qed


section \<open>Sending and receiving\<close>

lemma kinv_mq: "kinv s F \<Longrightarrow> kinv (upd_mq i f s) F"
  by (rule kinv_cong) (simp_all add: same_defs)

lemma kgood_mq: "kgood s \<Longrightarrow> kgood (upd_mq i f s)"
  by (rule kgood_cong) simp_all

lemma mq_wake_ok:
  assumes "kinv s F" "kgood s" "waiters F (Suspend_thread (Msgqueue i)) ws"
  shows "\<exists>s' F'. mq_wake i (upd_mq i f s) = Ok (RT_EOK, s') \<and>
    woken_first (upd_mq i f s) F (Suspend_thread (Msgqueue i)) ws s' F'"
  unfolding mq_wake_def
  by (rule wake_first_ok [OF kinv_mq [OF assms(1)] kgood_mq [OF assms(2)] wait_head_simps(1) assms(3)])

text \<open>
  \<open>mq_queued q fr k buffer q' ms'\<close>: the message \<open>buffer\<close> was stored in the free block \<open>k\<close>; the queue now
  holds \<open>ms'\<close> and the stored bytes of every other message are what they were.
\<close>

definition mq_queued :: "rt_messagequeue \<Rightarrow> nat list \<Rightarrow> nat \<Rightarrow> u8 list \<Rightarrow> rt_messagequeue \<Rightarrow> nat list \<Rightarrow> bool" where
  "mq_queued q fr k buffer q' ms' \<longleftrightarrow>
     mq_wf q' ms' fr {} \<and> mq_data q' = (mq_data q)(k := buffer @ drop (length buffer) (mq_data q k)) \<and>
     mq_msg_size q' = mq_msg_size q \<and> mq_max_msgs q' = mq_max_msgs q"

lemma mq_send_ok:
  assumes inv: "kinv s F" "kgood s" and ws: "waiters F (Suspend_thread (Msgqueue i)) ws"
    and wf: "mq_wf (msgqueue s i) ms (k # fr) {}" and len: "0 < length buffer" "length buffer \<le> unat (mq_msg_size (msgqueue s i))"
  shows "\<exists>q' s' F'. rt_mq_send i buffer s = Ok (RT_EOK, s') \<and> mq_queued (msgqueue s i) fr k buffer q' (ms @ [k]) \<and>
    woken_first (upd_mq i (\<lambda>_. q') s) F (Suspend_thread (Msgqueue i)) ws s' F'"
proof -
  obtain q1 where q1: "mq_take_free (msgqueue s i) = Some (k, q1)" "mq_wf q1 ms fr {k}" "mq_data q1 = mq_data (msgqueue s i)"
      "mq_msg_size q1 = mq_msg_size (msgqueue s i)" "mq_max_msgs q1 = mq_max_msgs (msgqueue s i)"
    using mq_take_free_ok [OF wf] by auto
  define q2 where "q2 = mq_copy_in k buffer (q1\<lparr>mq_next := (mq_next q1)(k := None)\<rparr>)"
  define q' where "q' = mq_link_tail k q2"
  have "mq_wf q2 ms fr {k}"
    unfolding q2_def by (rule mq_copy_in_ok(1) [OF mq_clear_ok [OF q1(2)]]) (simp_all add: q1 len)
  then have "mq_wf q' (ms @ [k]) fr {}"
    using mq_link_tail_ok [of q2 ms fr "{k}" k] by (simp add: q'_def q2_def mq_copy_in_def)
  moreover have "mq_data q' = mq_data q2" "mq_msg_size q' = mq_msg_size q2" "mq_max_msgs q' = mq_max_msgs q2"
    by (simp_all add: q'_def mq_link_tail_def Let_def split: option.splits)
  ultimately have "mq_queued (msgqueue s i) fr k buffer q' (ms @ [k])"
    using q1 by (simp add: mq_queued_def q2_def mq_copy_in_def)
  moreover have "rt_mq_send i buffer s = mq_wake i (upd_mq i (\<lambda>_. q') s)"
    using len q1(1) by (simp add: rt_mq_send_def q'_def q2_def Let_def)
  ultimately show ?thesis using mq_wake_ok [OF inv ws, of "\<lambda>_. q'"] by auto
qed

lemma mq_urgent_ok:
  assumes inv: "kinv s F" "kgood s" and ws: "waiters F (Suspend_thread (Msgqueue i)) ws"
    and wf: "mq_wf (msgqueue s i) ms (k # fr) {}" and len: "0 < length buffer" "length buffer \<le> unat (mq_msg_size (msgqueue s i))"
  shows "\<exists>q' s' F'. rt_mq_urgent i buffer s = Ok (RT_EOK, s') \<and> mq_queued (msgqueue s i) fr k buffer q' (k # ms) \<and>
    woken_first (upd_mq i (\<lambda>_. q') s) F (Suspend_thread (Msgqueue i)) ws s' F'"
proof -
  obtain q1 where q1: "mq_take_free (msgqueue s i) = Some (k, q1)" "mq_wf q1 ms fr {k}" "mq_data q1 = mq_data (msgqueue s i)"
      "mq_msg_size q1 = mq_msg_size (msgqueue s i)" "mq_max_msgs q1 = mq_max_msgs (msgqueue s i)"
    using mq_take_free_ok [OF wf] by auto
  define q' where "q' = mq_link_head k (mq_copy_in k buffer q1)"
  have "mq_wf (mq_copy_in k buffer q1) ms fr {k}"
    by (rule mq_copy_in_ok(1) [OF q1(2)]) (simp_all add: q1 len)
  then have "mq_wf q' (k # ms) fr {}" using mq_link_head_ok [of _ ms fr "{k}" k] by (simp add: q'_def)
  then have "mq_queued (msgqueue s i) fr k buffer q' (k # ms)"
    using q1 by (simp add: mq_queued_def q'_def mq_link_head_def mq_copy_in_def Let_def)
  moreover have "rt_mq_urgent i buffer s = mq_wake i (upd_mq i (\<lambda>_. q') s)"
    using len q1(1) by (simp add: rt_mq_urgent_def q'_def Let_def)
  ultimately show ?thesis using mq_wake_ok [OF inv ws, of "\<lambda>_. q'"] by auto
qed

lemma mq_send_errors:
  assumes "length buffer > 0"
  shows "length buffer > unat (mq_msg_size (msgqueue s i)) \<Longrightarrow> rt_mq_send i buffer s = Ok (- RT_ERROR, s) \<and> rt_mq_urgent i buffer s = Ok (- RT_ERROR, s)"
    and "length buffer \<le> unat (mq_msg_size (msgqueue s i)) \<Longrightarrow> mq_wf (msgqueue s i) ms [] busy \<Longrightarrow>
      rt_mq_send i buffer s = Ok (- RT_EFULL, s) \<and> rt_mq_urgent i buffer s = Ok (- RT_EFULL, s)"
  using assms mq_take_free_empty [of "msgqueue s i" ms busy] by (simp_all add: rt_mq_send_def rt_mq_urgent_def)

lemma mq_recv_ok:
  assumes wf: "mq_wf (msgqueue s i) (k # ms) fr {}" and len: "len \<noteq> 0"
  shows "\<exists>q'. rt_mq_recv i len timeout s =
      Ok (Some (RT_EOK, take (min (unat len) (unat (mq_msg_size (msgqueue s i)))) (mq_data (msgqueue s i) k)), upd_mq i (\<lambda>_. q') s) \<and>
    mq_wf q' ms (k # fr) {} \<and> mq_data q' = mq_data (msgqueue s i) \<and>
    mq_msg_size q' = mq_msg_size (msgqueue s i) \<and> mq_max_msgs q' = mq_max_msgs (msgqueue s i)"
proof -
  let ?q' = "mq_give_free k (mq_popped k (msgqueue s i))"
  have h: "mq_msg_queue_head (msgqueue s i) = Some k" "mq_entry (msgqueue s i) \<noteq> 0" using wf by (auto simp: mq_wf_def mq_shape_def)
  have "mq_wf ?q' ms (k # fr) {}" using mq_give_free_ok [OF mq_popped_ok [OF wf], of k] by simp
  then show ?thesis using h len
    by (intro exI [of _ ?q'])
      (simp add: rt_mq_recv_def mq_recv_loop_def mq_get_def mq_popped_def mq_give_free_def mq_unlink_head_def Let_def min_def)
qed

definition mq_flag_ok :: "kstate \<Rightarrow> nat \<Rightarrow> bool" where
  "mq_flag_ok s i \<longleftrightarrow> ob_flag (object s (O_ipc (Msgqueue i))) = RT_IPC_FLAG_FIFO \<or>
     ob_flag (object s (O_ipc (Msgqueue i))) = RT_IPC_FLAG_PRIO"

lemma mq_recv_loop_blocks:
  assumes inv: "kinv s F" and cb: "can_block s t" and empty: "mq_entry (msgqueue s i) = 0"
    and time: "timeout \<noteq> 0" "timeout \<noteq> 0x7fffffff" and fl: "mq_flag_ok s i" and ws: "waiters F (Suspend_thread (Msgqueue i)) ws"
  shows "\<exists>s' F'. mq_recv_loop i len timeout (Some t) s = Ok (None, s') \<and>
    blocked_on s F t (Suspend_thread (Msgqueue i)) (enqueue (ob_flag (object s (O_ipc (Msgqueue i)))) s t ws) timeout
      (C_mq_recv i len timeout (tick_start timeout s)) s' F'"
proof -
  let ?s = "upd_thread t (\<lambda>th. th\<lparr>th_error := RT_EOK\<rparr>) s"
  have "mq_recv_loop i len timeout (Some t) s =
      ipc_block (Suspend_thread (Msgqueue i)) (ob_flag (object s (O_ipc (Msgqueue i)))) t timeout (C_mq_recv i len timeout (tick_start timeout s)) ?s"
    unfolding mq_recv_loop_def block_loop_eq
    using empty time(1) cb by (simp add: can_block_def in_thread_context_def not_in_interrupt_def)
  moreover have "ob_flag (object s (O_ipc (Msgqueue i))) = RT_IPC_FLAG_FIFO \<or> ob_flag (object s (O_ipc (Msgqueue i))) = RT_IPC_FLAG_PRIO"
    using fl by (simp add: mq_flag_ok_def)
  ultimately show ?thesis
    using ipc_block_blocked [OF kinv_error [OF inv] can_block_error [OF cb] wait_head_simps(1) ws _ time(2)] blocked_on_error
    by (metis enqueue_error)
qed

section \<open>A message queue as a service\<close>

text \<open>Messages of exactly the size of the queue, sent and received without waiting.\<close>

definition mq_holds :: "nat \<Rightarrow> u16 \<Rightarrow> kstate \<Rightarrow> u8 list list \<Rightarrow> nat \<Rightarrow> bool" where
  "mq_holds i sz s xs c \<longleftrightarrow>
     (\<exists>F. kinv s F) \<and> kgood s \<and> 0 < sz \<and> mq_msg_size (msgqueue s i) = sz \<and> unat (mq_max_msgs (msgqueue s i)) = c \<and>
     (\<exists>ms fr. mq_wf (msgqueue s i) ms fr {} \<and> map (mq_data (msgqueue s i)) ms = xs)"

definition mq_sending :: "nat \<Rightarrow> u8 list \<Rightarrow> kstate \<Rightarrow> kstate option" where
  "mq_sending i x s = (case rt_mq_send i x s of Ok (r, s') \<Rightarrow> if r = RT_EOK then Some s' else None | _ \<Rightarrow> None)"

definition mq_receiving :: "nat \<Rightarrow> u16 \<Rightarrow> kstate \<Rightarrow> (u8 list \<times> kstate) option" where
  "mq_receiving i sz s =
     (case rt_mq_recv i (ucast sz) 0 s of Ok (Some (r, x), s') \<Rightarrow> if r = RT_EOK then Some (x, s') else None | _ \<Rightarrow> None)"

lemma mq_holds_woken:
  assumes "woken_first (upd_mq i (\<lambda>_. q) s) F h ws s' F'" "mq_wf q ms fr {}" "0 < mq_msg_size q"
  shows "mq_holds i (mq_msg_size q) s' (map (mq_data q) ms) (unat (mq_max_msgs q))"
proof -
  have "msgqueue s' i = q" "kinv s' F'" "kgood s'" using assms(1) by (simp_all add: woken_first_def ipc_frame_def)
  then show ?thesis using assms(2,3) by (auto simp: mq_holds_def)
qed

lemma mq_queued_data:
  assumes "mq_wf q ms (k # fr) {}" "mq_queued q fr k x q' (ms @ [k])" "length x = unat (mq_msg_size q)"
  shows "map (mq_data q') (ms @ [k]) = map (mq_data q) ms @ [x]"
proof -
  have k: "k \<notin> set ms" "k < unat (mq_max_msgs q)" "length (mq_data q k) = unat (mq_msg_size q)"
    using assms(1) by (auto simp: mq_wf_def mq_shape_def)
  have "mq_data q' = (mq_data q)(k := x)" using assms(2,3) k(3) by (simp add: mq_queued_def)
  then show ?thesis using k(1) by simp
qed

lemma mq_recv_empty:
  assumes "mq_entry (msgqueue s i) = 0"
  shows "mq_receiving i sz s = None"
  using assms
  by (auto simp: mq_receiving_def rt_mq_recv_def mq_recv_loop_def rassert_def Let_def split: res.splits option.splits)

interpretation kmq: fifo_service "mq_holds i sz" "\<lambda>x. length x = unat sz" "mq_sending i" "mq_receiving i sz" for i sz
proof
  fix s xs c x
  assume h: "mq_holds i sz s xs c"
  then obtain F ms fr where inv: "kinv s F" "kgood s" and wf: "mq_wf (msgqueue s i) ms fr {}"
    and xs: "map (mq_data (msgqueue s i)) ms = xs" and sz: "0 < sz" "mq_msg_size (msgqueue s i) = sz"
    and c: "unat (mq_max_msgs (msgqueue s i)) = c" by (auto simp: mq_holds_def)
  have len: "length xs + length fr = c" using mq_wf_le [OF wf] xs c by auto
  then show "length xs \<le> c" by simp
  have pos: "0 < unat sz" using sz(1) by (simp add: word_less_nat_alt)
  show "\<exists>s'. mq_sending i x s = Some s' \<and> mq_holds i sz s' (xs @ [x]) c" if x: "length x = unat sz" and room: "length xs < c"
  proof -
    obtain k fr' where fr: "fr = k # fr'" using room len by (cases fr) auto
    obtain ws where ws: "waiters F (Suspend_thread (Msgqueue i)) ws" by (rule kinv_waiters [OF inv(1)]) auto
    obtain q' s' F' where s': "rt_mq_send i x s = Ok (RT_EOK, s')" "mq_queued (msgqueue s i) fr' k x q' (ms @ [k])"
        "woken_first (upd_mq i (\<lambda>_. q') s) F (Suspend_thread (Msgqueue i)) ws s' F'"
      using mq_send_ok [OF inv ws wf [unfolded fr], of x] x sz(2) pos by auto
    have q': "mq_wf q' (ms @ [k]) fr' {}" "mq_msg_size q' = sz" "unat (mq_max_msgs q') = c"
      using s'(2) sz(2) c by (auto simp: mq_queued_def)
    have "map (mq_data q') (ms @ [k]) = xs @ [x]"
      using mq_queued_data [OF wf [unfolded fr] s'(2)] x sz(2) xs by simp
    then show ?thesis
      using s'(1) mq_holds_woken [OF s'(3) q'(1)] q'(2,3) sz(1) by (auto simp: mq_sending_def)
  qed
  show "mq_sending i x s = None" if x: "length x = unat sz" and full: "length xs = c"
    using mq_send_errors(2) [of x s i ms "{}"] wf full len x pos sz(2) by (simp add: mq_sending_def)
next
  fix s x xs c
  assume h: "mq_holds i sz s (x # xs) c"
  then obtain F k ms fr where inv: "kinv s F" "kgood s" and wf: "mq_wf (msgqueue s i) (k # ms) fr {}"
    and xs: "mq_data (msgqueue s i) k = x" "map (mq_data (msgqueue s i)) ms = xs"
    and sz: "0 < sz" "mq_msg_size (msgqueue s i) = sz" and c: "unat (mq_max_msgs (msgqueue s i)) = c"
    by (auto simp: mq_holds_def map_eq_Cons_conv)
  have "unat sz < 65536" using unsigned_less [of sz] by simp
  then have ne2: "unat (ucast sz :: u32) = unat sz" by (simp add: unsigned_ucast_eq take_bit_nat_eq_self)
  moreover have "0 < unat sz" using sz(1) by (simp add: word_less_nat_alt)
  ultimately have ne: "(ucast sz :: u32) \<noteq> 0" by auto
  have "length x = unat sz" using wf xs(1) sz(2) by (auto simp: mq_wf_def mq_shape_def)
  then obtain q' where q': "rt_mq_recv i (ucast sz) 0 s = Ok (Some (RT_EOK, x), upd_mq i (\<lambda>_. q') s)"
      "mq_wf q' ms (k # fr) {}" "mq_data q' = mq_data (msgqueue s i)" "mq_msg_size q' = sz" "mq_max_msgs q' = mq_max_msgs (msgqueue s i)"
    using mq_recv_ok [OF wf ne, of 0] ne2 sz(2) xs(1) by auto
  have "mq_holds i sz (upd_mq i (\<lambda>_. q') s) xs c"
    using kinv_mq [OF inv(1), of i "\<lambda>_. q'"] kgood_mq [OF inv(2), of i "\<lambda>_. q'"] q' sz c xs(2) by (auto simp: mq_holds_def)
  then show "\<exists>s'. mq_receiving i sz s = Some (x, s') \<and> mq_holds i sz s' xs c"
    using q'(1) by (auto simp: mq_receiving_def)
next
  fix s c
  assume "mq_holds i sz s [] c"
  then have "mq_entry (msgqueue s i) = 0" by (auto simp: mq_holds_def mq_wf_def unat_eq_zero)
  then show "mq_receiving i sz s = None" by (rule mq_recv_empty)
qed

end
