(* ===== verification/RT_MemPool.thy ===== *)
theory RT_MemPool
  imports RT_MsgQueue RT_Contracts
begin

text \<open>
  \<^verbatim>\<open>src/src/mempool.c\<close>: memory pools.  A block is known by its number; the pointer stored in front of
  it is the next free block, or the pool while the block is handed out.  Reading a pointer of the
  other kind is a fault of the model.  The errno functions of \<^verbatim>\<open>src/src/kservice.c\<close> are here too.
\<close>

section \<open>Errno\<close>

definition rt_get_errno :: "kstate \<Rightarrow> int" where
  "rt_get_errno s =
     (if rt_interrupt_nest s \<noteq> 0 then rt_errno s
      else case rt_thread_self s of None \<Rightarrow> rt_errno s | Some tid \<Rightarrow> th_error (thread s tid))"

definition rt_set_errno :: "int \<Rightarrow> kstate \<Rightarrow> kstate" where
  "rt_set_errno error s =
     (if rt_interrupt_nest s \<noteq> 0 then s\<lparr>rt_errno := error\<rparr>
      else case rt_thread_self s of
             None \<Rightarrow> s\<lparr>rt_errno := error\<rparr>
           | Some tid \<Rightarrow> upd_thread tid (\<lambda>th. th\<lparr>th_error := error\<rparr>) s)"

lemma errno_roundtrip: "rt_get_errno (rt_set_errno e s) = e"
  by (simp add: rt_get_errno_def rt_set_errno_def rt_thread_self_def split: option.splits)

section \<open>Operations\<close>

definition upd_mp :: "nat \<Rightarrow> (rt_mempool \<Rightarrow> rt_mempool) \<Rightarrow> kstate \<Rightarrow> kstate" where
  [simp]: "upd_mp i f s = s\<lparr>mempool := (mempool s)(i := f (mempool s i))\<rparr>"

text \<open>The loop of \<^verbatim>\<open>rt_mp_init\<close> and \<^verbatim>\<open>rt_mp_create\<close>; with no block the last write is below the pool.\<close>

fun mp_link_blocks :: "nat \<Rightarrow> rt_mempool \<Rightarrow> rt_mempool" where
  "mp_link_blocks 0 p = p"
| "mp_link_blocks (Suc offset) p =
     (let p = mp_link_blocks offset p
      in p\<lparr>mp_header := (mp_header p)(offset := Next_block (Some (Suc offset)))\<rparr>)"

definition mp_block_init :: "nat \<Rightarrow> kstate \<Rightarrow> kstate res" where
  "mp_block_init i s =
     (let offset = unat (mp_block_total_count (mempool s i));
          s = upd_mp i (mp_link_blocks offset) s
      in if offset = 0 then Fault Out_Of_Range
         else
           (let s = upd_mp i (\<lambda>p. p\<lparr>mp_header := (mp_header p)(offset - 1 := Next_block None)\<rparr>) s
            in Ok (upd_mp i (\<lambda>p. p\<lparr>mp_block_list := Some 0\<rparr>) s)))"

definition rt_mp_init :: "nat \<Rightarrow> cstr \<Rightarrow> u32 \<Rightarrow> u32 \<Rightarrow> kstate \<Rightarrow> (int \<times> kstate) res" where
  "rt_mp_init i name len block_size s =
     rbind (rt_object_init (O_ipc (Mempool i)) Class_MemPool name s) (\<lambda>s.
     (let s = upd_mp i (\<lambda>p. p\<lparr>mp_size := len AND NOT 3\<rparr>) s;
          block_size = (block_size + 3) AND NOT 3;
          s = upd_mp i (\<lambda>p. p\<lparr>mp_block_size := block_size\<rparr>) s;
          s = upd_mp i (\<lambda>p. p\<lparr>mp_block_total_count := mp_size p div (mp_block_size p + 4)\<rparr>) s;
          s = upd_mp i (\<lambda>p. p\<lparr>mp_block_free_count := mp_block_total_count p\<rparr>) s;
          s = upd_links (rt_list_init (Suspend_thread (Mempool i))) s;
          s = upd_mp i (\<lambda>p. p\<lparr>mp_suspend_thread_count := 0\<rparr>) s
      in rbind (mp_block_init i s) (\<lambda>s. Ok (RT_EOK, s))))"

text \<open>Waking every waiter, the loop of \<^verbatim>\<open>rt_mp_detach\<close> and \<^verbatim>\<open>rt_mp_delete\<close>.\<close>

partial_function (option) mp_resume_all_loop :: "nat \<Rightarrow> kstate \<Rightarrow> kstate res option" where
  "mp_resume_all_loop i s =
     (if rt_list_isempty (Suspend_thread (Mempool i)) (links s) then Some (Ok s)
      else
        (case thread_entry (lnext (links s) (Suspend_thread (Mempool i))) of
           Fault f \<Rightarrow> Some (Fault f)
         | Ok t \<Rightarrow>
             (let s = upd_thread t (\<lambda>th. th\<lparr>th_error := - RT_ERROR\<rparr>) s;
                  s = snd (rt_thread_resume t s);
                  s = upd_mp i (\<lambda>p. p\<lparr>mp_suspend_thread_count := mp_suspend_thread_count p - 1\<rparr>) s
              in mp_resume_all_loop i s)))"

definition rt_mp_detach :: "nat \<Rightarrow> kstate \<Rightarrow> (int \<times> kstate) res" where
  "rt_mp_detach i s =
     rbind (loop_res (mp_resume_all_loop i s)) (\<lambda>s. Ok (RT_EOK, rt_object_detach (O_ipc (Mempool i)) s))"

definition rt_mp_delete :: "nat \<Rightarrow> kstate \<Rightarrow> (int \<times> kstate) res" where
  "rt_mp_delete i s =
     rbind (rassert (not_in_interrupt s) s) (\<lambda>s.
     rbind (loop_res (mp_resume_all_loop i s)) (\<lambda>s.
     (let s = kernel_free (K_pool (Mempool i)) s
      in rbind (rt_object_delete (O_ipc (Mempool i)) s) (\<lambda>s. Ok (RT_EOK, s)))))"

text \<open>\<open>malloc\<close> and \<open>room\<close> are the results of the two allocations.\<close>

definition rt_mp_create ::
    "nat option \<Rightarrow> bool \<Rightarrow> cstr \<Rightarrow> u32 \<Rightarrow> u32 \<Rightarrow> kstate \<Rightarrow> (nat option \<times> kstate) res" where
  "rt_mp_create malloc room name block_count block_size s =
     rbind (rassert (not_in_interrupt s) s) (\<lambda>s.
     rbind (rt_object_allocate (map_option (O_ipc \<circ> Mempool) malloc) Class_MemPool name s) (\<lambda>(ob, s).
     case malloc of
       None \<Rightarrow> Ok (None, s)
     | Some i \<Rightarrow>
         (let block_size = (block_size + 3) AND NOT 3;
              s = upd_mp i (\<lambda>p. p\<lparr>mp_block_size := block_size\<rparr>) s;
              s = upd_mp i (\<lambda>p. p\<lparr>mp_size := (block_size + 4) * block_count\<rparr>) s
          in if \<not> room then rbind (rt_object_delete (O_ipc (Mempool i)) s) (\<lambda>s. Ok (None, s))
             else
               (let s = upd_mp i (\<lambda>p. p\<lparr>mp_block_total_count := block_count\<rparr>) s;
                    s = upd_mp i (\<lambda>p. p\<lparr>mp_block_free_count := mp_block_total_count p\<rparr>) s;
                    s = upd_links (rt_list_init (Suspend_thread (Mempool i))) s;
                    s = upd_mp i (\<lambda>p. p\<lparr>mp_suspend_thread_count := 0\<rparr>) s
                in rbind (mp_block_init i s) (\<lambda>s. Ok (Some i, s))))))"

text \<open>Taking the first free block, and putting a block back in front of the list.\<close>

definition mp_take :: "nat \<Rightarrow> rt_mempool \<Rightarrow> (nat \<times> rt_mempool) res" where
  "mp_take i p =
     (let p = p\<lparr>mp_block_free_count := mp_block_free_count p - 1\<rparr>
      in case mp_block_list p of
           None \<Rightarrow> Fault Assert_Failed
         | Some k \<Rightarrow>
             (case mp_header p k of
                Owner_pool m \<Rightarrow> Fault Bad_Entry
              | Next_block nx \<Rightarrow>
                  (let p = p\<lparr>mp_block_list := nx\<rparr>
                   in Ok (k, p\<lparr>mp_header := (mp_header p)(k := Owner_pool i)\<rparr>))))"

definition mp_put :: "nat \<Rightarrow> rt_mempool \<Rightarrow> rt_mempool" where
  "mp_put k p =
     (let p = p\<lparr>mp_block_free_count := mp_block_free_count p + 1\<rparr>;
          p = p\<lparr>mp_header := (mp_header p)(k := Next_block (mp_block_list p))\<rparr>
      in p\<lparr>mp_block_list := Some k\<rparr>)"

text \<open>
  The value of \<^verbatim>\<open>rt_mp_alloc\<close> is \<open>Some (Some k)\<close> for a block, \<open>Some None\<close> for a null pointer, and \<open>None\<close>
  when the caller has switched away.
\<close>

definition mp_alloc_loop :: "nat \<Rightarrow> u32 \<Rightarrow> thread_id option \<Rightarrow> kstate \<Rightarrow> (nat option option \<times> kstate) res" where
  "mp_alloc_loop i time self s =
     (if mp_block_free_count (mempool s i) = 0 then
        (if time = 0 then Ok (Some None, rt_set_errno (- RT_ETIMEOUT) s)
         else
           rbind (rassert (not_in_interrupt s) s) (\<lambda>s.
           case self of
             None \<Rightarrow> Fault Null_Pointer
           | Some t \<Rightarrow>
               (let s = upd_thread t (\<lambda>th. th\<lparr>th_error := RT_EOK\<rparr>) s;
                    s = snd (rt_thread_suspend t s);
                    s = upd_links (rt_list_insert_after (Suspend_thread (Mempool i)) (Tlist t)) s;
                    s = upd_mp i (\<lambda>p. p\<lparr>mp_suspend_thread_count := mp_suspend_thread_count p + 1\<rparr>) s;
                    before_sleep = (if sint time > 0 then rt_tick s else 0)
                in rbind (wait_timer t time s) (\<lambda>s. block t (C_mp_alloc i time before_sleep) s))))
      else
        rbind (mp_take i (mempool s i)) (\<lambda>(k, p). Ok (Some (Some k), upd_mp i (\<lambda>_. p) s)))"

definition rt_mp_alloc :: "nat \<Rightarrow> u32 \<Rightarrow> kstate \<Rightarrow> (nat option option \<times> kstate) res" where
  "rt_mp_alloc i time s = mp_alloc_loop i time (rt_thread_self s) s"

definition rt_mp_alloc_resume ::
    "thread_id \<Rightarrow> nat \<Rightarrow> u32 \<Rightarrow> u32 \<Rightarrow> kstate \<Rightarrow> (nat option option \<times> kstate) res" where
  "rt_mp_alloc_resume t i time before_sleep s =
     (let s = s\<lparr>cont := (cont s)(t := None)\<rparr>
      in if th_error (thread s t) \<noteq> RT_EOK then Ok (Some None, s)
         else mp_alloc_loop i (remaining_time time before_sleep (rt_tick s)) (Some t) s)"

text \<open>\<open>i\<close> is the pool the block lies in: its header must still point to it.\<close>

definition rt_mp_free :: "nat \<Rightarrow> nat \<Rightarrow> kstate \<Rightarrow> kstate res" where
  "rt_mp_free i k s =
     (if mp_header (mempool s i) k \<noteq> Owner_pool i then Fault Bad_Entry
      else
        (let s = upd_mp i (mp_put k) s
         in if mp_suspend_thread_count (mempool s i) > 0 then
              rbind (thread_entry (lnext (links s) (Suspend_thread (Mempool i)))) (\<lambda>t.
              (let s = upd_thread t (\<lambda>th. th\<lparr>th_error := RT_EOK\<rparr>) s;
                   s = snd (rt_thread_resume t s);
                   s = upd_mp i (\<lambda>p. p\<lparr>mp_suspend_thread_count := mp_suspend_thread_count p - 1\<rparr>) s
               in rt_schedule s))
            else Ok s))"

section \<open>The free list\<close>

fun mp_chain :: "(nat \<Rightarrow> mp_header) \<Rightarrow> nat option \<Rightarrow> nat list \<Rightarrow> bool" where
  "mp_chain hs p [] \<longleftrightarrow> p = None"
| "mp_chain hs p (k # ks) \<longleftrightarrow> p = Some k \<and> (\<exists>nx. hs k = Next_block nx \<and> mp_chain hs nx ks)"

lemma mp_chain_upd [simp]: "k \<notin> set ks \<Longrightarrow> mp_chain (hs(k := v)) p ks = mp_chain hs p ks"
  by (induction ks arbitrary: p) auto

text \<open>
  \<open>mp_wf i p fr held\<close>: the free list of pool \<open>i\<close> is \<open>fr\<close>, the blocks \<open>held\<close> are handed out and point back to
  the pool, every block is one or the other, and the counter is right.
\<close>

definition mp_wf :: "nat \<Rightarrow> rt_mempool \<Rightarrow> nat list \<Rightarrow> nat set \<Rightarrow> bool" where
  "mp_wf i p fr held \<longleftrightarrow>
     mp_chain (mp_header p) (mp_block_list p) fr \<and> distinct fr \<and> set fr \<inter> held = {} \<and>
     set fr \<union> held = {..<unat (mp_block_total_count p)} \<and> (\<forall>k\<in>held. mp_header p k = Owner_pool i) \<and>
     unat (mp_block_free_count p) = length fr"

lemma mp_wf_card:
  assumes "mp_wf i p fr held"
  shows "finite held" "length fr + card held = unat (mp_block_total_count p)"
proof -
  show fin: "finite held"
    using assms by (auto simp: mp_wf_def intro: finite_subset [of _ "{..<unat (mp_block_total_count p)}"])
  have "card (set fr \<union> held) = card (set fr) + card held"
    using assms fin by (intro card_Un_disjoint) (auto simp: mp_wf_def)
  then show "length fr + card held = unat (mp_block_total_count p)"
    using assms distinct_card [of fr] by (simp add: mp_wf_def)
qed

lemma mp_free_count_zero: "mp_wf i p fr held \<Longrightarrow> mp_block_free_count p = 0 \<longleftrightarrow> fr = []"
  by (auto simp: mp_wf_def word_unat_eq_iff)

lemma mp_take_ok:
  assumes wf: "mp_wf i p (k # fr) held"
  shows "\<exists>p'. mp_take i p = Ok (k, p') \<and> mp_wf i p' fr (insert k held) \<and>
    mp_suspend_thread_count p' = mp_suspend_thread_count p"
proof -
  have "mp_block_free_count p \<noteq> 0" using wf by (auto simp: mp_wf_def)
  then have "unat (mp_block_free_count p - 1) = length fr"
    using wf unat_minus_one [of "mp_block_free_count p"] by (simp add: mp_wf_def)
  then show ?thesis using wf by (auto simp: mp_wf_def mp_take_def Let_def)
qed

lemma mp_put_ok:
  assumes wf: "mp_wf i p fr held" and k: "k \<in> held"
  shows "mp_wf i (mp_put k p) (k # fr) (held - {k})"
proof -
  have "card held > 0" using mp_wf_card(1) [OF wf] k by (auto simp: card_gt_0_iff)
  then have "length fr < unat (mp_block_total_count p)" using mp_wf_card(2) [OF wf] by simp
  moreover have "unat (mp_block_total_count p) < 2 ^ 32" using unsigned_less [of "mp_block_total_count p"] by simp
  ultimately have "unat (mp_block_free_count p) + 1 < 2 ^ 32" using wf by (simp add: mp_wf_def)
  then have "unat (mp_block_free_count p + 1) = Suc (length fr)"
    using wf by (simp add: mp_wf_def unat_word_ariths)
  moreover have "k \<notin> set fr" "k < unat (mp_block_total_count p)" using wf k by (auto simp: mp_wf_def)
  ultimately show ?thesis using wf k by (auto simp: mp_wf_def mp_put_def Let_def)
qed

text \<open>The free list as a block pool: \<open>mp_take_opt\<close> is \<^verbatim>\<open>rt_mp_alloc\<close> without waiting.\<close>

definition mp_take_opt :: "nat \<Rightarrow> rt_mempool \<Rightarrow> (nat \<times> rt_mempool) option" where
  "mp_take_opt i p =
     (if mp_block_free_count p = 0 then None else case mp_take i p of Ok r \<Rightarrow> Some r | Fault _ \<Rightarrow> None)"

interpretation mpp: block_pool "mp_wf i" "mp_take_opt i" mp_put for i
proof
  show "distinct fr \<and> set fr \<inter> held = {} \<and> finite held" if "mp_wf i q fr held" for q fr held
    using that mp_wf_card(1) [OF that] by (simp add: mp_wf_def)
  show "mp_take_opt i q = None" if "mp_wf i q [] held" for q held
    using mp_free_count_zero [OF that] by (simp add: mp_take_opt_def)
  show "\<exists>q'. mp_take_opt i q = Some (k, q') \<and> mp_wf i q' fr (insert k held)" if "mp_wf i q (k # fr) held" for q k fr held
    using mp_free_count_zero [OF that] mp_take_ok [OF that] by (auto simp: mp_take_opt_def)
  show "mp_wf i (mp_put k q) (k # fr) (held - {k})" if "mp_wf i q fr held" "k \<in> held" for q fr held k
    by (rule mp_put_ok [OF that])
qed

text \<open>A new pool: the blocks in order, all free.\<close>

lemma mp_link_blocks_frame [simp]:
  "mp_block_total_count (mp_link_blocks n p) = mp_block_total_count p"
  "mp_block_free_count (mp_link_blocks n p) = mp_block_free_count p"
  "mp_suspend_thread_count (mp_link_blocks n p) = mp_suspend_thread_count p"
  by (induction n) (simp_all add: Let_def)

lemma mp_link_blocks_header: "k < n \<Longrightarrow> mp_header (mp_link_blocks n p) k = Next_block (Some (Suc k))"
  by (induction n) (auto simp: Let_def less_Suc_eq)

lemma mp_chain_upt:
  assumes "\<And>j. j < n \<Longrightarrow> hs j = Next_block (if Suc j = n then None else Some (Suc j))" "k < n"
  shows "mp_chain hs (Some k) [k..<n]"
  using assms(2)
proof (induction "n - k" arbitrary: k)
  case (Suc d)
  show ?case
  proof (cases "Suc k = n")
    case True
    then show ?thesis using assms(1) [of k] by (simp add: upt_rec)
  next
    case False
    then have "mp_chain hs (Some (Suc k)) [Suc k..<n]" using Suc by simp
    then show ?thesis using Suc.prems False assms(1) [of k] by (subst upt_rec) simp
  qed
qed simp

lemma mp_block_init_ok:
  assumes "mp_block_total_count (mempool s i) \<noteq> 0" "mp_block_free_count (mempool s i) = mp_block_total_count (mempool s i)"
  shows "\<exists>p. mp_block_init i s = Ok (upd_mp i (\<lambda>_. p) s) \<and> mp_wf i p [0..<unat (mp_block_total_count (mempool s i))] {} \<and>
    mp_suspend_thread_count p = mp_suspend_thread_count (mempool s i)"
proof -
  define n where "n = unat (mp_block_total_count (mempool s i))"
  define q where "q = mp_link_blocks n (mempool s i)"
  define p where "p = q\<lparr>mp_header := (mp_header q)(n - 1 := Next_block None), mp_block_list := Some 0\<rparr>"
  have n: "0 < n" using assms(1) by (simp add: n_def word_unat_eq_iff)
  have "mp_block_init i s = Ok (upd_mp i (\<lambda>_. p) s)"
    using n by (simp add: mp_block_init_def n_def [symmetric] p_def q_def Let_def)
  moreover have "mp_chain (mp_header p) (Some 0) [0..<n]"
    by (rule mp_chain_upt) (use n in \<open>auto simp: p_def q_def mp_link_blocks_header\<close>)
  then have "mp_wf i p [0..<n] {}"
    using assms(2) by (auto simp: mp_wf_def p_def q_def n_def)
  ultimately show ?thesis by (auto simp: n_def p_def q_def)
qed

section \<open>Allocating and freeing\<close>

lemma kinv_mp: "kinv s F \<Longrightarrow> kinv (upd_mp i f s) F"
  by (rule kinv_cong) (simp_all add: same_defs)

lemma kgood_mp: "kgood s \<Longrightarrow> kgood (upd_mp i f s)"
  by (rule kgood_cong) simp_all

lemma suspend_mp: "rt_thread_suspend t (upd_mp i f s) = (fst (rt_thread_suspend t s), upd_mp i f (snd (rt_thread_suspend t s)))"
  by (simp add: rt_thread_suspend_def rt_timer_stop_def rt_schedule_remove_thread_def Let_def)

lemma resume_mp: "rt_thread_resume t (upd_mp i f s) = (fst (rt_thread_resume t s), upd_mp i f (snd (rt_thread_resume t s)))"
  by (simp add: rt_thread_resume_def rt_timer_stop_def rt_schedule_insert_thread_def Let_def)

lemma resume_mempool [simp]: "mempool (snd (rt_thread_resume t s)) = mempool s"
  using ipc_frame_resume [of s t] by (simp add: ipc_frame_def)

lemma thread_mp: "upd_thread t g (upd_mp i f s) = upd_mp i f (upd_thread t g s)"
  by simp

abbreviation mp_wait :: "nat \<Rightarrow> node" where
  "mp_wait i \<equiv> Suspend_thread (Mempool i)"

abbreviation mp_counted :: "(u32 \<Rightarrow> u32) \<Rightarrow> rt_mempool \<Rightarrow> rt_mempool" where
  "mp_counted f p \<equiv> p\<lparr>mp_suspend_thread_count := f (mp_suspend_thread_count p)\<rparr>"

lemma mp_alloc_now:
  assumes wf: "mp_wf i (mempool s i) (k # fr) held"
  shows "\<exists>p. rt_mp_alloc i time s = Ok (Some (Some k), upd_mp i (\<lambda>_. p) s) \<and> mp_wf i p fr (insert k held) \<and>
    mp_suspend_thread_count p = mp_suspend_thread_count (mempool s i)"
  using mp_take_ok [OF wf] mp_free_count_zero [OF wf] by (auto simp: rt_mp_alloc_def mp_alloc_loop_def)

lemma mp_alloc_blocks:
  assumes inv: "kinv s F" and cb: "can_block s t" and empty: "mp_block_free_count (mempool s i) = 0"
    and time: "time \<noteq> 0" "time \<noteq> 0x7fffffff" and ws: "waiters F (mp_wait i) ws"
  shows "\<exists>s' F'. mp_alloc_loop i time (Some t) s = Ok (None, s') \<and>
    blocked_on (upd_mp i (mp_counted (\<lambda>c. c + 1)) s) F t (mp_wait i) (t # ws) time (C_mp_alloc i time (tick_start time s)) s' F'"
proof -
  define s0 where "s0 = upd_thread t (\<lambda>th. th\<lparr>th_error := RT_EOK\<rparr>) (upd_mp i (mp_counted (\<lambda>c. c + 1)) s)"
  define s1 where "s1 = upd_links (rt_list_insert_after (mp_wait i) (Tlist t)) (snd (rt_thread_suspend t s0))"
  have inv0: "kinv s0 F" unfolding s0_def by (rule kinv_error [OF kinv_mp [OF inv]])
  have cb0: "can_block s0 t"
    using can_block_error [OF cb, of RT_EOK] kgood_mp [of "upd_thread t (\<lambda>th. th\<lparr>th_error := RT_EOK\<rparr>) s" i]
    unfolding s0_def thread_mp by (simp add: can_block_def)
  have rdy0: "ready s0 t" using cb0 by (simp add: can_block_def)
  note w = suspend_front_ok [OF inv0 rdy0 wait_head_simps(1) ws, folded s1_def]
  have eq: "s1 = (snd (rt_thread_suspend t s0))\<lparr>links := links s1\<rparr>" by (simp add: s1_def)
  obtain s' F' where s': "rbind (wait_timer t time s1) (block t (C_mp_alloc i time (tick_start time s))) = Ok (None :: nat option option, s')"
      "blocked_on s0 F t (mp_wait i) (t # ws) time (C_mp_alloc i time (tick_start time s)) s' F'"
    using wait_block_blocked [OF inv0 cb0 wait_head_simps(1) time(2) w(2,1) eq] by blast
  have s1: "s1 = upd_mp i (mp_counted (\<lambda>c. c + 1)) (upd_links (rt_list_insert_after (mp_wait i) (Tlist t))
      (snd (rt_thread_suspend t (upd_thread t (\<lambda>th. th\<lparr>th_error := RT_EOK\<rparr>) s))))"
    unfolding s1_def s0_def thread_mp suspend_mp by simp
  have tick: "rt_tick s1 = rt_tick s" by (simp add: s1 suspend_frame)
  have "mp_alloc_loop i time (Some t) s = rbind (wait_timer t time s1) (block t (C_mp_alloc i time (tick_start time s)))"
    using empty time(1) cb tick unfolding s1
    by (simp add: mp_alloc_loop_def can_block_def not_in_interrupt_def Let_def)
  with s'(1) have "mp_alloc_loop i time (Some t) s = Ok (None, s')" by (rule trans [rotated])
  with blocked_on_error [OF s'(2) [unfolded s0_def]] show ?thesis by blast
qed

lemma mp_free_ok:
  assumes inv: "kinv s F" and good: "kgood s" and ws: "waiters F (mp_wait i) ws"
    and wf: "mp_wf i (mempool s i) fr held" and k: "k \<in> held"
    and count: "unat (mp_suspend_thread_count (mempool s i)) = length ws"
  shows "\<exists>s' F' p. rt_mp_free i k s = Ok s' \<and> mp_wf i p (k # fr) (held - {k}) \<and>
    unat (mp_suspend_thread_count p) = length (tl ws) \<and>
    woken_first (case ws of [] \<Rightarrow> upd_mp i (\<lambda>_. p) s | t # us \<Rightarrow> upd_thread t (\<lambda>th. th\<lparr>th_error := RT_EOK\<rparr>) (upd_mp i (\<lambda>_. p) s))
      F (mp_wait i) ws s' F'"
proof (cases ws)
  case Nil
  let ?p = "mp_put k (mempool s i)"
  have c: "mp_suspend_thread_count (mempool s i) = 0" using count Nil by (simp add: word_unat_eq_iff)
  have "rt_mp_free i k s = Ok (upd_mp i (\<lambda>_. ?p) s)"
    using wf k c by (simp add: rt_mp_free_def mp_wf_def mp_put_def Let_def)
  moreover have "woken_first (upd_mp i (\<lambda>_. ?p) s) F (mp_wait i) [] (upd_mp i (\<lambda>_. ?p) s) F"
    using kinv_mp [OF inv, of i "\<lambda>_. ?p"] kgood_mp [OF good, of i "\<lambda>_. ?p"] ws Nil by (simp add: woken_first_def)
  ultimately show ?thesis
    using mp_put_ok [OF wf k] Nil c
    by (intro exI [of _ "upd_mp i (\<lambda>_. ?p) s"] exI [of _ F] exI [of _ ?p]) (simp add: mp_put_def Let_def)
next
  case (Cons t us)
  define p where "p = mp_counted (\<lambda>c. c - 1) (mp_put k (mempool s i))"
  define s0 where "s0 = upd_thread t (\<lambda>th. th\<lparr>th_error := RT_EOK\<rparr>) (upd_mp i (\<lambda>_. p) s)"
  have c: "mp_suspend_thread_count (mempool s i) \<noteq> 0" using count Cons by auto
  have inv0: "kinv s0 F" unfolding s0_def by (rule kinv_error [OF kinv_mp [OF inv]])
  have good0: "kgood s0" by (rule kgood_cong [OF kgood_mp [OF good, of i "\<lambda>_. p"]]) (simp_all add: s0_def)
  have nx: "lnext (links s) (mp_wait i) = Tlist t"
    using rl.nxt_head [OF kinv_wf [OF inv], of "mp_wait i"] ws Cons by simp
  obtain s1 s' F' where w: "rt_ipc_list_resume (mp_wait i) s0 = Ok s1" "rt_schedule s1 = Ok s'" "woken s0 F t (mp_wait i) us s' F'"
    using ipc_wake_woken [OF inv0 good0 wait_head_simps(1)] ws Cons by blast
  have "s1 = snd (rt_thread_resume t s0)"
    using w(1) nx by (simp add: rt_ipc_list_resume_def s0_def case_prod_beta)
  also have "\<dots> = upd_mp i (mp_counted (\<lambda>c. c - 1)) (snd (rt_thread_resume t (upd_thread t (\<lambda>th. th\<lparr>th_error := RT_EOK\<rparr>) (upd_mp i (mp_put k) s))))"
    unfolding s0_def thread_mp resume_mp by (simp add: p_def)
  finally have "rt_mp_free i k s = Ok s'"
    using wf k c w(2) nx word_gt_0 [of "mp_suspend_thread_count (mempool s i)"]
    by (simp add: rt_mp_free_def mp_wf_def mp_put_def Let_def)
  moreover have "mp_wf i p (k # fr) (held - {k})"
    using mp_put_ok [OF wf k] by (simp add: p_def mp_wf_def)
  moreover have "unat (mp_suspend_thread_count p) = length us"
    using count Cons c unat_minus_one [of "mp_suspend_thread_count (mempool s i)"] by (simp add: p_def mp_put_def Let_def)
  moreover have "woken_first s0 F (mp_wait i) ws s' F'" using w(3) Cons by (simp add: woken_first_def woken_def)
  ultimately show ?thesis unfolding s0_def using Cons by (intro exI [of _ s'] exI [of _ F'] exI [of _ p]) simp
qed

text \<open>
  A waiter that times out leaves the list but stays counted: with the list empty and the counter
  positive, freeing a block takes the list head for a thread.
\<close>

lemma mp_free_stale_count:
  assumes inv: "kinv s F" and ws: "F (mp_wait i) = []" and own: "mp_header (mempool s i) k = Owner_pool i"
    and count: "mp_suspend_thread_count (mempool s i) \<noteq> 0"
  shows "rt_mp_free i k s = Fault Bad_Entry"
proof -
  have "lnext (links s) (mp_wait i) = mp_wait i"
    using rl.nxt_head [OF kinv_wf [OF inv], of "mp_wait i"] ws by simp
  then show ?thesis
    using own count word_gt_0 [of "mp_suspend_thread_count (mempool s i)"] by (simp add: rt_mp_free_def mp_put_def Let_def)
qed

lemma timeout_mempool:
  assumes "rt_thread_timeout t s = Ok s'"
  shows "mempool s' = mempool s"
proof -
  have "th_state (thread s t) = RT_THREAD_SUSPEND" using assms by (auto simp: rt_thread_timeout_def split: if_splits)
  then have "rt_schedule (rt_schedule_insert_thread t
      ((upd_thread t (\<lambda>th. th\<lparr>th_error := - RT_ETIMEOUT\<rparr>) s)\<lparr>links := rt_list_remove (Tlist t) (links s)\<rparr>)) = Ok s'"
    using assms by (simp add: rt_thread_timeout_def Let_def)
  from ipc_frame_schedule [OF this] show ?thesis
    by (simp add: ipc_frame_def rt_schedule_insert_thread_def Let_def)
qed

lemma mp_timeout_stale:
  assumes inv: "kinv s F" and good: "kgood s" and ws: "waiters F (mp_wait i) [t]"
    and off: "detached F (Row (Thread_timer t) 0)" and own: "mp_header (mempool s i) k = Owner_pool i"
    and count: "mp_suspend_thread_count (mempool s i) \<noteq> 0"
  shows "\<exists>s'. rt_thread_timeout t s = Ok s' \<and> ready s' t \<and> rt_mp_free i k s' = Fault Bad_Entry"
proof -
  have sus: "suspended s t" using kinv_node [OF inv, of "Tlist t" "mp_wait i"] ws by auto
  obtain s' where s': "rt_thread_timeout t s = Ok s'" "kinv s' (make_ready s t F)" "ready s' t"
    by (rule timeout_ok [OF inv good sus off]) blast
  have "make_ready s t F (mp_wait i) = []" using make_ready_wait [OF inv wait_head_simps(1), of "Mempool i" t "[]"] ws by simp
  from mp_free_stale_count [OF s'(2) this] own count timeout_mempool [OF s'(1)] have "rt_mp_free i k s' = Fault Bad_Entry" by simp
  with s' show ?thesis by blast
qed

text \<open>Deleting a pool wakes every waiter with an error.\<close>

lemma mp_resume_all_ok:
  assumes "kinv s F" "waiters F (mp_wait i) ws"
  shows "\<exists>s' F'. mp_resume_all_loop i s = Some (Ok s') \<and> kinv s' F' \<and> F' (mp_wait i) = [] \<and>
    (\<forall>t \<in> set ws. ready s' t \<and> th_error (thread s' t) = - RT_ERROR) \<and>
    (\<forall>t. t \<notin> set ws \<longrightarrow> thread s' t = thread s t) \<and>
    mp_suspend_thread_count (mempool s' i) = mp_suspend_thread_count (mempool s i) - of_nat (length ws)"
  using assms
proof (induction ws arbitrary: s F)
  case Nil
  then have "rt_list_isempty (mp_wait i) (links s)"
    using rl.isempty_iff [OF kinv_wf [OF Nil.prems(1)], of "mp_wait i"] by simp
  then have "mp_resume_all_loop i s = Some (Ok s)" by (subst mp_resume_all_loop.simps) simp
  then show ?case using Nil.prems by (intro exI [of _ s] exI [of _ F]) simp
next
  case (Cons t ws)
  note inv = Cons.prems(1)
  define s1 where "s1 = upd_thread t (\<lambda>th. th\<lparr>th_error := - RT_ERROR\<rparr>) s"
  define s2 where "s2 = snd (rt_thread_resume t s1)"
  define s3 where "s3 = upd_mp i (mp_counted (\<lambda>c. c - 1)) s2"
  have inv1: "kinv s1 F" unfolding s1_def by (rule kinv_error [OF inv])
  note r = ipc_list_resume_ok [OF inv1 wait_head_simps(1) Cons.prems(2), folded s2_def]
  have sus: "suspended s1 t" using kinv_node [OF inv1, of "Tlist t" "mp_wait i"] Cons.prems(2) by auto
  have dist: "t \<notin> set ws"
    using lists_wf_distinct [OF kinv_wf [OF inv], of "mp_wait i"] Cons.prems(2) by (auto simp: distinct_map)
  have nx: "\<not> rt_list_isempty (mp_wait i) (links s)" "lnext (links s) (mp_wait i) = Tlist t"
    using rl.isempty_iff [OF kinv_wf [OF inv], of "mp_wait i"] rl.nxt_head [OF kinv_wf [OF inv], of "mp_wait i"] Cons.prems(2)
    by simp_all
  have inv3: "kinv s3 (make_ready s1 t F)" unfolding s3_def by (rule kinv_mp [OF r(2)])
  from Cons.IH [OF inv3 r(3)] obtain s' F' where IH: "mp_resume_all_loop i s3 = Some (Ok s')" "kinv s' F'" "F' (mp_wait i) = []"
      "\<forall>t \<in> set ws. ready s' t \<and> th_error (thread s' t) = - RT_ERROR" "\<forall>t. t \<notin> set ws \<longrightarrow> thread s' t = thread s3 t"
      "mp_suspend_thread_count (mempool s' i) = mp_suspend_thread_count (mempool s3 i) - of_nat (length ws)"
    by blast
  have "mp_resume_all_loop i s = mp_resume_all_loop i s3"
    using nx by (subst mp_resume_all_loop.simps) (simp add: s3_def s2_def s1_def)
  moreover have th3: "thread s3 = (thread s1)(t := (thread s1 t)\<lparr>th_stat := RT_THREAD_READY OR (th_stat (thread s1 t) AND NOT RT_THREAD_STAT_MASK)\<rparr>)"
    using resume_fields(1) [OF sus] by (simp add: s3_def s2_def)
  moreover have "mp_suspend_thread_count (mempool s3 i) = mp_suspend_thread_count (mempool s i) - 1"
    by (simp add: s3_def s2_def s1_def)
  ultimately show ?case
    using IH dist ready_stat by (intro exI [of _ s'] exI [of _ F']) (simp add: s1_def)
qed

section \<open>Every pool that is reached\<close>

text \<open>
  A pool from its initialisation on, and the blocks that callers hold: \<^verbatim>\<open>rt_mp_alloc\<close> with any waiting time, which may block, the
  rest of a call that blocked, \<^verbatim>\<open>rt_mp_free\<close> of a block that is held, and in between whatever the kernel does that is not a call on this
  pool, such as a tick that lets a waiter time out.
\<close>

definition mp_got :: "nat option option \<Rightarrow> nat set" where
  "mp_got r = (case r of Some (Some k) \<Rightarrow> {k} | _ \<Rightarrow> {})"

inductive mp_reach :: "nat \<Rightarrow> kstate \<Rightarrow> nat set \<Rightarrow> bool" for i where
  init: "rt_mp_init i name len block_size s0 = Ok (r, s) \<Longrightarrow> mp_reach i s {}"
| create: "rt_mp_create (Some i) room name block_count block_size s0 = Ok (Some i, s) \<Longrightarrow> mp_reach i s {}"
| alloc: "mp_reach i s held \<Longrightarrow> rt_mp_alloc i time s = Ok (r, s') \<Longrightarrow> mp_reach i s' (mp_got r \<union> held)"
| resume: "mp_reach i s held \<Longrightarrow> rt_mp_alloc_resume t i time before_sleep s = Ok (r, s') \<Longrightarrow> mp_reach i s' (mp_got r \<union> held)"
| free: "mp_reach i s held \<Longrightarrow> k \<in> held \<Longrightarrow> rt_mp_free i k s = Ok s' \<Longrightarrow> mp_reach i s' (held - {k})"
| other: "mp_reach i s held \<Longrightarrow> mempool s' i = mempool s i \<Longrightarrow> mp_reach i s' held"

lemma mp_wf_counted [simp]: "mp_wf i (p\<lparr>mp_suspend_thread_count := c\<rparr>) fr held = mp_wf i p fr held"
  by (simp add: mp_wf_def)

lemma schedule_mempool: "rt_schedule s = Ok s' \<Longrightarrow> mempool s' = mempool s"
  by (drule ipc_frame_schedule) (simp add: ipc_frame_def)

lemma suspend_mempool: "mempool (snd (rt_thread_suspend t s)) = mempool s"
  using ipc_frame_suspend [of s t] by (simp add: ipc_frame_def)

lemma timer_start_mempool:
  assumes "rt_timer_start tm s = Ok (r, s')"
  shows "mempool s' = mempool s"
proof -
  obtain s1 where s1: "timer_start_insert tm s = Ok s1" using assms unfolding rt_timer_start_def rbind_eq_Ok by blast
  then have m: "mempool s1 = mempool s" using timer_start_insert_frame [OF s1] by (simp add: ipc_frame_def)
  consider "s' = s1" | "rt_schedule (snd (rt_thread_resume timer_thread s1)) = Ok s'"
    using assms s1 unfolding rt_timer_start_def by (simp add: case_prod_beta split: if_splits)
  then show ?thesis using m by cases (auto dest: schedule_mempool)
qed

lemma wait_timer_mempool:
  assumes "wait_timer t time s = Ok s'"
  shows "mempool s' = mempool s"
proof (cases "sint time > 0")
  case True
  then obtain r where "rt_timer_start (Thread_timer t) (snd (rt_timer_control (Thread_timer t) (Timer_set_time time) s)) = Ok (r, s')"
    using assms unfolding wait_timer_def by (auto simp: case_prod_beta)
  from timer_start_mempool [OF this] show ?thesis by simp
next
  case False
  then show ?thesis using assms by (simp add: wait_timer_def)
qed

lemma errno_mempool: "mempool (rt_set_errno e s) = mempool s"
  by (simp add: rt_set_errno_def split: option.split)

lemma mp_alloc_loop_wf:
  assumes wf: "mp_wf i (mempool s i) fr held" and ok: "mp_alloc_loop i time self s = Ok (r, s')"
  shows "\<exists>fr'. mp_wf i (mempool s' i) fr' (mp_got r \<union> held) \<and> mp_block_total_count (mempool s' i) = mp_block_total_count (mempool s i)"
proof (cases fr)
  case Nil
  then have z: "mp_block_free_count (mempool s i) = 0" using mp_free_count_zero [OF wf] by simp
  show ?thesis
  proof (cases "time = 0")
    case True
    then show ?thesis using ok z wf by (auto simp: mp_alloc_loop_def mp_got_def errno_mempool)
  next
    case False
    define s1 where "s1 t = upd_mp i (\<lambda>p. p\<lparr>mp_suspend_thread_count := mp_suspend_thread_count p + 1\<rparr>)
      (upd_links (rt_list_insert_after (Suspend_thread (Mempool i)) (Tlist t))
        (snd (rt_thread_suspend t (upd_thread t (\<lambda>th. th\<lparr>th_error := RT_EOK\<rparr>) s))))" for t
    obtain t where t: "self = Some t" "rbind (wait_timer t time (s1 t)) (\<lambda>s. block t (C_mp_alloc i time (if sint time > 0 then rt_tick (s1 t) else 0)) s) = Ok (r, s')"
      using ok z False by (cases self) (auto simp: mp_alloc_loop_def rassert_def Let_def s1_def split: if_splits)
    then obtain s2 where s2: "wait_timer t time (s1 t) = Ok s2"
        "block t (C_mp_alloc i time (if sint time > 0 then rt_tick (s1 t) else 0)) s2 = Ok (r, s')"
      by (cases "wait_timer t time (s1 t)") auto
    then have "r = None" "mempool s' = mempool s2"
      by (auto simp: block_def dest!: schedule_mempool split: res.splits)
    moreover have "mempool s2 = mempool (s1 t)" by (rule wait_timer_mempool [OF s2(1)])
    moreover have "mempool (s1 t) i = (mempool s i)\<lparr>mp_suspend_thread_count := mp_suspend_thread_count (mempool s i) + 1\<rparr>"
      by (simp add: s1_def suspend_mempool)
    ultimately show ?thesis using wf by (intro exI [of _ fr]) (simp add: mp_got_def)
  qed
next
  case (Cons k ks)
  then have z: "mp_block_free_count (mempool s i) \<noteq> 0" using mp_free_count_zero [OF wf] by simp
  obtain p where p: "mp_take i (mempool s i) = Ok (k, p)" "mp_wf i p ks (insert k held)" using mp_take_ok wf Cons by blast
  have "mp_block_total_count p = mp_block_total_count (mempool s i)"
    using p(1) by (auto simp: mp_take_def Let_def split: option.splits mp_header.splits)
  then show ?thesis using ok z p by (auto simp: mp_alloc_loop_def mp_got_def)
qed

lemma mp_free_wf:
  assumes wf: "mp_wf i (mempool s i) fr held" and k: "k \<in> held" and ok: "rt_mp_free i k s = Ok s'"
  shows "mp_wf i (mempool s' i) (k # fr) (held - {k}) \<and> mp_block_total_count (mempool s' i) = mp_block_total_count (mempool s i)"
proof -
  define s1 where "s1 = upd_mp i (mp_put k) s"
  have "mempool s1 i = mp_put k (mempool s i)" by (simp add: s1_def)
  then have "mp_wf i (mempool s1 i) (k # fr) (held - {k}) \<and> mp_block_total_count (mempool s1 i) = mp_block_total_count (mempool s i)"
    using mp_put_ok [OF wf k] by (simp add: mp_put_def Let_def)
  moreover have "\<exists>c. mempool s' i = (mempool s1 i)\<lparr>mp_suspend_thread_count := c\<rparr>"
  proof (cases "mp_suspend_thread_count (mempool s1 i) > 0")
    case True
    then obtain t where "rt_schedule (upd_mp i (\<lambda>p. p\<lparr>mp_suspend_thread_count := mp_suspend_thread_count p - 1\<rparr>)
        (snd (rt_thread_resume t (upd_thread t (\<lambda>th. th\<lparr>th_error := RT_EOK\<rparr>) s1)))) = Ok s'"
      using ok unfolding rt_mp_free_def Let_def s1_def [symmetric]
      by (cases "thread_entry (lnext (links s1) (Suspend_thread (Mempool i)))") (auto split: if_splits)
    from schedule_mempool [OF this] show ?thesis
      by (intro exI [of _ "mp_suspend_thread_count (mempool s1 i) - 1"]) simp
  next
    case False
    then have "s' = s1" using ok unfolding rt_mp_free_def Let_def s1_def [symmetric] by (auto split: if_splits)
    then show ?thesis by (intro exI [of _ "mp_suspend_thread_count (mempool s1 i)"]) simp
  qed
  ultimately show ?thesis by auto
qed

lemma mp_block_init_wf:
  assumes "mp_block_init i u = Ok s" "mp_block_free_count (mempool u i) = mp_block_total_count (mempool u i)"
  shows "\<exists>fr. mp_wf i (mempool s i) fr {}"
proof -
  have "mp_block_total_count (mempool u i) \<noteq> 0" using assms(1) by (auto simp: mp_block_init_def Let_def split: if_splits)
  then show ?thesis using mp_block_init_ok [OF _ assms(2)] assms(1) by auto
qed

lemma mp_reach_wf: "mp_reach i s held \<Longrightarrow> \<exists>fr. mp_wf i (mempool s i) fr held"
proof (induction rule: mp_reach.induct)
  case (init name len block_size s0 r s)
  show ?case
    using init by (auto simp: rt_mp_init_def Let_def intro: mp_block_init_wf)
next
  case (create room name block_count block_size s0 s)
  show ?case
    using create by (auto simp: rt_mp_create_def Let_def rassert_def intro: mp_block_init_wf split: if_splits)
next
  case (alloc s held time r s')
  then show ?case using mp_alloc_loop_wf by (fastforce simp: rt_mp_alloc_def)
next
  case (resume s held t time before_sleep r s')
  then obtain fr where fr: "mp_wf i (mempool s i) fr held" by blast
  then have fr': "mp_wf i (mempool (s\<lparr>cont := (cont s)(t := None)\<rparr>) i) fr held" by simp
  show ?case
  proof (cases "th_error (thread s t) \<noteq> RT_EOK")
    case True
    then show ?thesis using resume.hyps(2) fr by (auto simp: rt_mp_alloc_resume_def Let_def mp_got_def)
  next
    case False
    then show ?thesis using resume.hyps(2) mp_alloc_loop_wf [OF fr'] by (auto simp: rt_mp_alloc_resume_def Let_def)
  qed
next
  case (free s held k s')
  then show ?case using mp_free_wf by blast
qed simp

section \<open>A pool as a service\<close>

text \<open>
  The pool in the kernel as long as its waiting threads are counted right, which ends when a waiter times out: blocks
  taken without waiting, and blocks given back, which wakes a waiter.
\<close>

definition mp_service :: "nat \<Rightarrow> kstate \<Rightarrow> nat list \<Rightarrow> nat set \<Rightarrow> bool" where
  "mp_service i s fr held \<longleftrightarrow>
     (\<exists>F ws. kinv s F \<and> kgood s \<and> waiters F (mp_wait i) ws \<and> mp_wf i (mempool s i) fr held \<and>
        unat (mp_suspend_thread_count (mempool s i)) = length ws)"

definition mp_taking :: "nat \<Rightarrow> kstate \<Rightarrow> (nat \<times> kstate) option" where
  "mp_taking i s = (case rt_mp_alloc i 0 s of Ok (Some (Some k), s') \<Rightarrow> Some (k, s') | _ \<Rightarrow> None)"

definition mp_giving :: "nat \<Rightarrow> nat \<Rightarrow> kstate \<Rightarrow> kstate" where
  "mp_giving i k s = (case rt_mp_free i k s of Ok s' \<Rightarrow> s' | Fault f \<Rightarrow> s)"

interpretation kmp: block_pool "mp_service i" "mp_taking i" "mp_giving i" for i
proof
  fix s fr held
  assume h: "mp_service i s fr held"
  then obtain F ws where inv: "kinv s F" "kgood s" and ws: "waiters F (mp_wait i) ws"
    and wf: "mp_wf i (mempool s i) fr held" and cnt: "unat (mp_suspend_thread_count (mempool s i)) = length ws"
    by (auto simp: mp_service_def)
  show "distinct fr \<and> set fr \<inter> held = {} \<and> finite held" using mpp.disjoint [OF wf] .
  show "mp_service i (mp_giving i k s) (k # fr) (held - {k})" if k: "k \<in> held" for k
  proof -
    obtain s' F' p where s': "rt_mp_free i k s = Ok s'" "mp_wf i p (k # fr) (held - {k})"
        "unat (mp_suspend_thread_count p) = length (tl ws)"
        "woken_first (case ws of [] \<Rightarrow> upd_mp i (\<lambda>_. p) s | t # us \<Rightarrow> upd_thread t (\<lambda>th. th\<lparr>th_error := RT_EOK\<rparr>) (upd_mp i (\<lambda>_. p) s))
          F (mp_wait i) ws s' F'"
      using mp_free_ok [OF inv ws wf k cnt] by blast
    have "mempool s' i = p" "kinv s' F'" "kgood s'" "waiters F' (mp_wait i) (tl ws)"
      using s'(4) by (cases ws; simp add: woken_first_def ipc_frame_def)+
    then show ?thesis
      unfolding mp_service_def using s'(1-3) by (intro exI [of _ F'] exI [of _ "tl ws"]) (simp add: mp_giving_def)
  qed
next
  show "mp_taking i s = None" if "mp_service i s [] held" for s held
    using that mp_free_count_zero [of i "mempool s i" "[]" held]
    by (auto simp: mp_service_def mp_taking_def rt_mp_alloc_def mp_alloc_loop_def)
next
  fix s k fr held
  assume h: "mp_service i s (k # fr) held"
  then obtain F ws where inv: "kinv s F" "kgood s" and ws: "waiters F (mp_wait i) ws"
    and wf: "mp_wf i (mempool s i) (k # fr) held" and cnt: "unat (mp_suspend_thread_count (mempool s i)) = length ws"
    by (auto simp: mp_service_def)
  obtain p where p: "rt_mp_alloc i 0 s = Ok (Some (Some k), upd_mp i (\<lambda>_. p) s)" "mp_wf i p fr (insert k held)"
      "mp_suspend_thread_count p = mp_suspend_thread_count (mempool s i)"
    using mp_alloc_now [OF wf, of 0] by blast
  have "mp_service i (upd_mp i (\<lambda>_. p) s) fr (insert k held)"
    unfolding mp_service_def using kinv_mp [OF inv(1), of i "\<lambda>_. p"] kgood_mp [OF inv(2), of i "\<lambda>_. p"] ws p(2,3) cnt
    by (intro exI [of _ F] exI [of _ ws]) simp
  then show "\<exists>s'. mp_taking i s = Some (k, s') \<and> mp_service i s' fr (insert k held)"
    using p(1) by (auto simp: mp_taking_def)
qed

end
