(* ===== verification/RT_Example.thy ===== *)
theory RT_Example
  imports RT_Mutex RT_Event RT_MemPool
begin

text \<open>
  Concrete kernel states, on which the hypotheses of the theorems hold together: an idle thread and
  a running thread of priority 10, both ready, and a thread of priority 20 that waits, or sleeps, or
  is simply suspended.
\<close>

definition ex_thread :: "u8 \<Rightarrow> u8 \<Rightarrow> rt_thread" where
  "ex_thread stat prio = set_priority_attr
     \<lparr>th_sp = 0x1080, th_entry = 0x100, th_parameter = 0, th_stack_addr = 0x1000, th_stack_size = 0x100,
      th_error = 0, th_stat = stat, th_current_priority = prio, th_init_priority = prio, th_number = 0,
      th_high_mask = 0, th_number_mask = 0, th_event_set = 0, th_event_info = 0, th_init_tick = 10,
      th_remaining_tick = 10, th_cleanup = None, th_user_data = 0\<rparr>"

definition ex_base :: kstate where
  "ex_base =
     \<lparr>links = links_fresh, mem = (\<lambda>_. 0x23),
      object = (\<lambda>ob. \<lparr>ob_name = (\<lambda>_. 0), ob_type = 0, ob_flag = 0\<rparr>),
      thread = (\<lambda>t. if t = 1 then ex_thread 2 255 else if t = 2 then ex_thread 2 10
                else if t = 3 then ex_thread 2 20 else ex_thread 0 5),
      timer = (\<lambda>tm. case tm of
         Thread_timer t \<Rightarrow> \<lparr>tm_timeout_func = Rt_thread_timeout, tm_parameter = P_thread t, tm_init_tick = 5, tm_timeout_tick = 0\<rparr>
       | Timer i \<Rightarrow> \<lparr>tm_timeout_func = User_timeout 0, tm_parameter = P_null, tm_init_tick = 5, tm_timeout_tick = 0\<rparr>),
      sem = (\<lambda>_. \<lparr>sem_value = 0\<rparr>),
      mutex = (\<lambda>_. \<lparr>mx_value = 1, mx_original_priority = 0xff, mx_hold = 0, mx_owner = None\<rparr>),
      event = (\<lambda>_. \<lparr>ev_set = 0\<rparr>),
      mailbox = (\<lambda>_. \<lparr>mb_msg_pool = [0, 0, 0, 0], mb_size = 4, mb_entry = 0, mb_in_offset = 0, mb_out_offset = 0\<rparr>),
      msgqueue = (\<lambda>_. \<lparr>mq_msg_size = 4, mq_max_msgs = 0, mq_entry = 0, mq_msg_queue_head = None,
        mq_msg_queue_tail = None, mq_msg_queue_free = None, mq_next = (\<lambda>_. None), mq_data = (\<lambda>_. [0, 0, 0, 0])\<rparr>),
      mempool = (\<lambda>_. \<lparr>mp_size = 0, mp_block_size = 4, mp_block_list = None, mp_block_total_count = 0,
        mp_block_free_count = 0, mp_suspend_thread_count = 0, mp_header = (\<lambda>_. Next_block None)\<rparr>),
      rt_scheduler_lock_nest = 0, rt_current_thread = Some 2, rt_current_priority = 10,
      rt_thread_ready_priority_group = 0, rt_thread_ready_table = (\<lambda>_. 0), rt_interrupt_nest = 0,
      rt_tick = 0, random_nr = 0, rt_errno = 0, kfreed = [], cont = (\<lambda>_. None)\<rparr>"

definition ex_run :: kstate where
  "ex_run = rt_schedule_insert_thread 2 (rt_schedule_insert_thread 1 ex_base)"

definition ex_lists :: "node \<Rightarrow> node list" where
  "ex_lists = (\<lambda>_. [])(Priority_table 255 := [Tlist 1], Priority_table 10 := [Tlist 2])"

text \<open>The waiting thread is the one suspended on the list \<open>h\<close>.\<close>

definition ex_wait :: "node \<Rightarrow> kstate" where
  "ex_wait h = ex_run\<lparr>links := rt_list_insert_before h (Tlist 3) (links ex_run)\<rparr>"

lemma ex_attr: "attr_ok (ex_thread stat prio)"
  unfolding ex_thread_def by (rule attr_ok_set)

lemma ex_thread_simps [simp]:
  "th_stat (ex_thread stat prio) = stat" "th_current_priority (ex_thread stat prio) = prio"
  "th_init_priority (ex_thread stat prio) = prio"
  "th_sp (ex_thread stat prio) = 0x1080" "th_stack_addr (ex_thread stat prio) = 0x1000"
  "th_stack_size (ex_thread stat prio) = 0x100" "th_error (ex_thread stat prio) = 0"
  "th_cleanup (ex_thread stat prio) = None" "th_event_set (ex_thread stat prio) = 0"
  "th_event_info (ex_thread stat prio) = 0" "th_init_tick (ex_thread stat prio) = 10"
  "th_remaining_tick (ex_thread stat prio) = 10"
  by (simp_all add: ex_thread_def set_priority_attr_def Let_def)

lemma kinv_ex_base: "kinv ex_base (\<lambda>_. [])"
proof (rule kinvI)
  show "lists_wf heads (links ex_base) (\<lambda>_. [])" by (simp add: ex_base_def lists_wf_fresh)
  show "ready_bits ex_base (\<lambda>_. [])" by (simp add: ready_bits_def ex_base_def)
  show "Tlist t \<in> set []" if "ready ex_base t" for t
    using that by (auto simp: ex_base_def split: if_splits)
  show "attr_ok (thread ex_base t) \<and> thread_timer_ok ex_base t" for t
    by (simp add: ex_base_def ex_attr thread_timer_ok_def)
qed simp

lemma kinv_ex_run: "kinv ex_run ex_lists"
proof -
  let ?s1 = "rt_schedule_insert_thread 1 ex_base"
  have s1: "kinv ?s1 ((\<lambda>_. [])(Priority_table 255 := [Tlist 1]))"
    using kinv_insert_thread [OF kinv_ex_base, of 1] by (simp add: ex_base_def)
  have "kinv ex_run (((\<lambda>_. [])(Priority_table 255 := [Tlist 1]))(Priority_table 10 := [Tlist 2]))"
    using kinv_insert_thread [OF s1, of 2] unfolding ex_run_def by (simp add: ex_base_def)
  then show ?thesis by (simp add: ex_lists_def)
qed

lemma ex_run_thread [simp]:
  "thread ex_run = (\<lambda>t. if t = 1 then (ex_thread 2 255)\<lparr>th_stat := 1\<rparr> else if t = 2 then (ex_thread 2 10)\<lparr>th_stat := 1\<rparr>
     else if t = 3 then ex_thread 2 20 else ex_thread 0 5)"
  by (auto simp: ex_run_def ex_base_def fun_eq_iff)

lemma ex_run_simps [simp]:
  "timer ex_run = timer ex_base" "object ex_run = object ex_base" "mem ex_run = mem ex_base"
  "sem ex_run = sem ex_base" "mutex ex_run = mutex ex_base" "event ex_run = event ex_base"
  "mailbox ex_run = mailbox ex_base" "msgqueue ex_run = msgqueue ex_base" "mempool ex_run = mempool ex_base"
  "rt_tick ex_run = 0" "rt_current_thread ex_run = Some 2" "rt_scheduler_lock_nest ex_run = 0"
  "rt_interrupt_nest ex_run = 0" "cont ex_run = (\<lambda>_. None)"
  by (simp_all add: ex_run_def ex_base_def rt_schedule_insert_thread_def Let_def)

lemma ex_run_kgood: "kgood ex_run"
  by (simp add: kgood_def all_stacks_def stack_ok_def Let_def) (simp add: ex_base_def)

lemma ex_run_can_block: "can_block ex_run 2"
  using ex_run_kgood by (simp add: can_block_def) (intro exI [of _ "1::nat"], simp)

lemma kinv_ex_wait: "wait_head h \<Longrightarrow> kinv (ex_wait h) (ex_lists(h := [Tlist 3]))"
  using kinv_wait [OF kinv_ex_run, of 3 h "[]" "[]"]
  by (auto simp: ex_wait_def ex_lists_def wait_head_def)

lemma ex_wait_simps [simp]:
  "thread (ex_wait h) = thread ex_run"
  "timer (ex_wait h) = timer ex_base" "object (ex_wait h) = object ex_base" "mem (ex_wait h) = mem ex_base"
  "sem (ex_wait h) = sem ex_base" "mutex (ex_wait h) = mutex ex_base" "event (ex_wait h) = event ex_base"
  "mailbox (ex_wait h) = mailbox ex_base" "msgqueue (ex_wait h) = msgqueue ex_base" "mempool (ex_wait h) = mempool ex_base"
  "rt_tick (ex_wait h) = 0" "rt_current_thread (ex_wait h) = Some 2" "rt_scheduler_lock_nest (ex_wait h) = 0"
  "rt_interrupt_nest (ex_wait h) = 0" "cont (ex_wait h) = (\<lambda>_. None)"
  by (simp_all add: ex_wait_def)

lemma ex_wait_kgood: "kgood (ex_wait h)"
  by (rule kgood_cong [OF ex_run_kgood]) simp_all

lemma ex_wait_can_block: "can_block (ex_wait h) 2"
  using ex_wait_kgood by (simp add: can_block_def) (intro exI [of _ "1::nat"], simp)

lemmas ex_objects = ex_base_def

text \<open>Before the scheduler is started.\<close>

definition ex_boot :: kstate where
  "ex_boot = ex_base\<lparr>rt_current_thread := None\<rparr>"

lemma kinv_ex_boot: "kinv ex_boot (\<lambda>_. [])"
  unfolding ex_boot_def by (rule kinv_cong [OF kinv_ex_base]) (simp_all add: same_defs)

lemma ex_boot_current [simp]: "rt_current_thread ex_boot = None"
  by (simp add: ex_boot_def)

section \<open>Two threads of the same priority\<close>

definition ex_peer_base :: kstate where
  "ex_peer_base = ex_run\<lparr>thread := (thread ex_run)(3 := ex_thread 2 10)\<rparr>"

definition ex_peers :: kstate where
  "ex_peers = rt_schedule_insert_thread 3 ex_peer_base"

definition ex_peer_lists :: "node \<Rightarrow> node list" where
  "ex_peer_lists = ex_lists(Priority_table 10 := [Tlist 2, Tlist 3])"

lemma kinv_ex_peers: "kinv ex_peers ex_peer_lists"
proof -
  have "kinv ex_peer_base ex_lists"
    unfolding ex_peer_base_def by (rule kinv_not_queued [OF kinv_ex_run]) (simp_all add: ex_attr)
  then show ?thesis
    using kinv_insert_thread [of ex_peer_base ex_lists 3] by (simp add: ex_peers_def ex_peer_base_def ex_peer_lists_def ex_lists_def)
qed

lemma ex_peers_kgood: "kgood ex_peers"
  by (simp add: kgood_def all_stacks_def stack_ok_def Let_def ex_peers_def ex_peer_base_def) (simp add: ex_base_def)

lemma ex_peers_simps [simp]:
  "rt_current_thread ex_peers = Some 2" "rt_scheduler_lock_nest ex_peers = 0"
  "thread ex_peers = (thread ex_run)(3 := (ex_thread 2 10)\<lparr>th_stat := 1\<rparr>)"
  by (simp_all add: ex_peers_def ex_peer_base_def)

lemma ex_peers_top: "top_thread ex_peers 2"
  by (simp add: top_thread_def)

section \<open>A mutex in use\<close>

definition ex_mutex :: "thread_id \<Rightarrow> rt_mutex" where
  "ex_mutex w = \<lparr>mx_value = 0, mx_original_priority = 30, mx_hold = 1, mx_owner = Some w\<rparr>"

definition ex_owned :: "thread_id \<Rightarrow> kstate" where
  "ex_owned w = upd_mutex 0 (\<lambda>_. ex_mutex w) ex_run"

definition ex_contended :: "thread_id \<Rightarrow> kstate" where
  "ex_contended w = upd_mutex 0 (\<lambda>_. ex_mutex w) (ex_wait (Suspend_thread (Mutex 0)))"

lemma kinv_ex_owned: "kinv (ex_owned w) ex_lists"
  unfolding ex_owned_def by (rule kinv_mutex [OF kinv_ex_run])

lemma kinv_ex_contended: "kinv (ex_contended w) (ex_lists(Suspend_thread (Mutex 0) := [Tlist 3]))"
  unfolding ex_contended_def by (intro kinv_mutex kinv_ex_wait) simp

lemma ex_contended_kgood: "kgood (ex_contended w)"
  unfolding ex_contended_def by (rule kgood_mutex [OF ex_wait_kgood])

lemma ex_owned_simps [simp]:
  "thread (ex_owned w) = thread ex_run" "object (ex_owned w) = object ex_base" "rt_tick (ex_owned w) = 0"
  "rt_current_thread (ex_owned w) = Some 2" "rt_scheduler_lock_nest (ex_owned w) = 0" "rt_interrupt_nest (ex_owned w) = 0"
  "mx_value (mutex (ex_owned w) 0) = 0" "mx_owner (mutex (ex_owned w) 0) = Some w"
  "thread (ex_contended w) = thread ex_run" "rt_current_thread (ex_contended w) = Some 2" "rt_interrupt_nest (ex_contended w) = 0"
  "mutex (ex_contended w) 0 = ex_mutex w"
  by (simp_all add: ex_owned_def ex_contended_def ex_mutex_def)

lemma ex_mutex_simps [simp]:
  "mx_value (ex_mutex w) = 0" "mx_owner (ex_mutex w) = Some w" "mx_hold (ex_mutex w) = 1" "mx_original_priority (ex_mutex w) = 30"
  by (simp_all add: ex_mutex_def)

lemma ex_owned_can_block: "can_block (ex_owned w) 2"
  using kgood_mutex [OF ex_run_kgood, of 0 "\<lambda>_. ex_mutex w"]
  by (simp add: can_block_def ex_owned_def) (intro exI [of _ "1::nat"], simp)

section \<open>A thread waiting for an event\<close>

definition ex_event :: kstate where
  "ex_event = upd_thread 3 (\<lambda>th. th\<lparr>th_event_set := 1, th_event_info := 6\<rparr>) (ex_wait (Suspend_thread (Event 0)))"

lemma kinv_ex_event: "kinv ex_event (ex_lists(Suspend_thread (Event 0) := [Tlist 3]))"
  unfolding ex_event_def by (rule kinv_cong [OF kinv_ex_wait]) (simp_all add: same_defs)

lemma ex_event_kgood: "kgood ex_event"
  unfolding ex_event_def by (rule kgood_cong [OF ex_wait_kgood]) simp_all

section \<open>Message queues and pools\<close>

definition ex_mq :: rt_messagequeue where
  "ex_mq = \<lparr>mq_msg_size = 2, mq_max_msgs = 2, mq_entry = 0, mq_msg_queue_head = None,
     mq_msg_queue_tail = None, mq_msg_queue_free = None, mq_next = (\<lambda>_. None), mq_data = (\<lambda>_. [0, 0])\<rparr>"

definition ex_queue :: kstate where
  "ex_queue = upd_mq 0 (\<lambda>_. mq_struct_init ex_mq) ex_run"

lemma mq_wf_ex_mq: "mq_wf (mq_struct_init ex_mq) [] [1, 0] {}"
  using mq_struct_init_ok [of ex_mq] by (simp add: ex_mq_def upt_rec)

lemma ex_mq_sizes [simp]:
  "mq_msg_size (mq_struct_init ex_mq) = 2" "mq_max_msgs (mq_struct_init ex_mq) = 2" "mq_data (mq_struct_init ex_mq) = (\<lambda>_. [0, 0])"
  by (simp_all add: mq_struct_init_def ex_mq_def Let_def)

lemma kinv_ex_queue: "kinv ex_queue ex_lists" "kgood ex_queue"
  unfolding ex_queue_def by (rule kinv_mq [OF kinv_ex_run], rule kgood_mq [OF ex_run_kgood])

lemma ex_queue_mq [simp]: "msgqueue ex_queue 0 = mq_struct_init ex_mq"
  by (simp add: ex_queue_def)

definition ex_mp :: rt_mempool where
  "ex_mp = \<lparr>mp_size = 16, mp_block_size = 4, mp_block_list = Some 0, mp_block_total_count = 2,
     mp_block_free_count = 2, mp_suspend_thread_count = 0,
     mp_header = (\<lambda>k. if k = 0 then Next_block (Some 1) else Next_block None)\<rparr>"

definition ex_pool :: kstate where
  "ex_pool = upd_mp 0 (\<lambda>_. ex_mp) ex_run"

lemma mp_wf_ex_mp: "mp_wf 0 ex_mp [0, 1] {}"
proof -
  have "{..<2 :: nat} = {0, 1}" by auto
  then show ?thesis by (simp add: mp_wf_def ex_mp_def)
qed

lemma ex_pool_service: "mp_service 0 ex_pool [0, 1] {}"
  unfolding mp_service_def ex_pool_def
  using kinv_mp [OF kinv_ex_run, of 0 "\<lambda>_. ex_mp"] kgood_mp [OF ex_run_kgood, of 0 "\<lambda>_. ex_mp"]
    mp_wf_ex_mp
  by (intro exI [of _ ex_lists] exI [of _ "[]"]) (simp add: ex_lists_def, simp add: ex_mp_def)

text \<open>A pool with its only block taken and a thread waiting for it.\<close>

definition ex_dry :: kstate where
  "ex_dry = upd_mp 0 (\<lambda>_. ex_mp\<lparr>mp_block_list := None, mp_block_total_count := 1, mp_block_free_count := 0,
     mp_suspend_thread_count := 1, mp_header := \<lambda>_. Owner_pool 0\<rparr>) (ex_wait (mp_wait 0))"

lemma kinv_ex_dry: "kinv ex_dry (ex_lists(mp_wait 0 := [Tlist 3]))" "kgood ex_dry"
  unfolding ex_dry_def by (rule kinv_mp [OF kinv_ex_wait], simp, rule kgood_mp [OF ex_wait_kgood])

section \<open>A closed thread\<close>

definition ex_closed_base :: kstate where
  "ex_closed_base = ex_run\<lparr>thread := (thread ex_run)(3 := ex_thread RT_THREAD_CLOSE 20)\<rparr>"

definition ex_closed :: kstate where
  "ex_closed = ex_closed_base\<lparr>links := rt_list_insert_after Thread_defunct (Tlist 3) (links ex_closed_base)\<rparr>"

definition ex_closed_lists :: "node \<Rightarrow> node list" where
  "ex_closed_lists = ex_lists(Thread_defunct := [Tlist 3])"

lemma kinv_ex_closed: "kinv ex_closed ex_closed_lists"
proof -
  have "kinv ex_closed_base ex_lists"
    unfolding ex_closed_base_def
    by (rule kinv_unlisted [OF kinv_ex_run]) (auto simp: ex_lists_def ex_attr thread_timer_ok_def ex_base_def)
  then show ?thesis
    using kinv_defunct [of ex_closed_base ex_lists 3]
    by (simp add: ex_closed_def ex_closed_base_def ex_closed_lists_def ex_lists_def)
qed

lemma ex_closed_simps [simp]:
  "thread ex_closed = (thread ex_run)(3 := ex_thread RT_THREAD_CLOSE 20)" "object ex_closed = object ex_base"
  "mem ex_closed = mem ex_base" "timer ex_closed = timer ex_base" "rt_current_thread ex_closed = Some 2"
  "rt_interrupt_nest ex_closed = 0" "rt_scheduler_lock_nest ex_closed = 0"
  by (simp_all add: ex_closed_def ex_closed_base_def)

lemma ex_closed_kgood: "kgood ex_closed"
  by (simp add: kgood_def all_stacks_def stack_ok_def Let_def) (simp add: ex_base_def)

lemma ex_base_object [simp]: "object ex_base ob = \<lparr>ob_name = (\<lambda>_. 0), ob_type = 0, ob_flag = 0\<rparr>"
  by (simp add: ex_base_def)

section \<open>A sleeping thread\<close>

text \<open>Timeout functions that do nothing.\<close>

lemma quiet_Ok: "quiet (\<lambda>k p. Ok)"
  by (auto simp: quiet_def timers_same_def stays_ready_def)

lemma settled_ex_run: "settled ex_run ex_lists []"
  using kinv_ex_run ex_run_kgood by (simp add: settled_def ex_lists_def swin_def periods_ok_def)

lemma timers_ok_ex_run: "timers_ok ex_run ex_lists []"
  using settled_ex_run by (simp add: settled_iff)

lemma ex_run_can_sleep: "can_sleep ex_run 2"
  by (simp add: can_sleep_def) (intro exI [of _ "1::nat"], simp)

text \<open>The running thread has gone to sleep for one tick.\<close>

definition ex_asleep :: kstate where
  "ex_asleep = (case rt_thread_sleep 1 ex_run of Ok s \<Rightarrow> s | Fault f \<Rightarrow> ex_run)"

lemma ex_asleep_settled:
  obtains F ts u where "settled ex_asleep F ts" "Thread_timer 2 \<in> set ts" "due ex_asleep ts (Thread_timer 2)" "ready ex_asleep u"
proof -
  obtain s' F ts v where s': "rt_thread_sleep 1 ex_run = Ok s'" "settled s' F ts" "Thread_timer 2 \<in> set ts"
      "tm_timeout_tick (timer s' (Thread_timer 2)) = rt_tick ex_run + 1" "rt_tick s' = rt_tick ex_run" "top_thread s' v"
    using sleep_settled [OF settled_ex_run ex_run_can_sleep, of 1] by auto
  have "ex_asleep = s'" using s'(1) by (simp add: ex_asleep_def)
  then show ?thesis using that [of F ts v] s' by (simp add: due_def top_thread_def)
qed

end
