(* ===== verification/RT_Props_Kernel.thy ===== *)
theory RT_Props_Kernel
  imports RT_Example
begin

text \<open>
  What the scheduler, the timers, the clock tick and the threads promise together. Each theorem is
  followed by an instance on a concrete kernel state.
\<close>

section \<open>The scheduler\<close>

text \<open>
  C1. With the scheduler unlocked, \<^verbatim>\<open>rt_schedule\<close> never faults and gives the processor to the thread at
  the front of the ready ring of the numerically smallest priority that has a ready thread; no ready
  thread is more urgent. Every list of the kernel and every other field of the state stays as it was.
\<close>

theorem schedule_runs_most_urgent:
  assumes "kinv s F" "kgood s" "rt_scheduler_lock_nest s = 0" "ready s u"
  shows "\<exists>t p s'. rt_schedule s = Ok s' \<and> rt_current_thread s' = Some t \<and> next_thread F t p \<and>
    top_thread s t \<and> kinv s' F \<and>
    s' = s\<lparr>rt_current_priority := rt_current_priority s', rt_current_thread := Some t\<rparr>"
proof -
  obtain c where c: "rt_current_thread s = Some c" and st: "stacks_ok s"
    using assms(2) stacks_ok_all by (auto simp: kgood_def)
  obtain t p where t: "next_thread F t p" "top_thread s t" "rt_schedule s =
      Ok (if t = c then s else s\<lparr>rt_current_priority := th_current_priority (thread s t), rt_current_thread := Some t\<rparr>)"
    by (rule kinv_schedule_ok [OF assms(1,3) c assms(4) st])
  obtain s' where s': "rt_schedule s = Ok s'" using t(3) by blast
  have "rt_current_thread s' = Some t" using s' t(3) c by (auto split: if_splits)
  then show ?thesis
    using t(1,2) s' kinv_schedule [OF assms(1) s'] by (intro exI [of _ t] exI [of _ p] exI [of _ s']) simp
qed

theorem schedule_runs_most_urgent_witness:
  "\<exists>t p s'. rt_schedule ex_run = Ok s' \<and> rt_current_thread s' = Some t \<and> next_thread ex_lists t p \<and>
    top_thread ex_run t \<and> kinv s' ex_lists \<and>
    s' = ex_run\<lparr>rt_current_priority := rt_current_priority s', rt_current_thread := Some t\<rparr>"
  by (rule schedule_runs_most_urgent [where u = 1, OF kinv_ex_run ex_run_kgood]) simp_all

text \<open>
  C2. \<^verbatim>\<open>__rt_ffs\<close>, the table lookup the scheduler uses on its bitmaps, returns one more than the index
  of the lowest set bit, and 0 exactly for 0.
\<close>

theorem ffs_lowest_bit:
  "rt_ffs val = (if val = 0 then 0 else Suc (LEAST i. bit val i))"
proof (cases "val = 0")
  case False
  have "lowest_set val (rt_ffs val - 1)" by (rule rt_ffs_lowest(2) [OF False])
  then have "(LEAST i. bit val i) = rt_ffs val - 1"
    by (intro Least_equality) (auto simp: lowest_set_def not_less [symmetric])
  then show ?thesis using False rt_ffs_lowest(1) [OF False] by simp
qed (simp add: rt_ffs_def)

section \<open>The clock tick and the timers\<close>

text \<open>
  C3. A clock tick always ends, whatever timers expire. It advances the tick by one, fires exactly the
  timers whose deadline it reaches, keeps the periodic ones of them in the list with a later deadline,
  and leaves no expired timer behind; a thread whose timer was due is ready with the error
  \<^verbatim>\<open>-RT_ETIMEOUT\<close>. The timeout functions of the application are any functions that keep the kernel
  consistent and leave the timers and the ready threads alone, and periods are positive and less than
  half the tick range.
\<close>

theorem tick_fires_due_timers:
  assumes "settled s F ts" "quiet env" "ready s u"
  shows "\<exists>s' F' ts'. rt_tick_increase env s = Ok s' \<and> settled s' F' ts' \<and> ticked s ts s' ts'"
  by (rule tick_ok [OF assms])

theorem tick_fires_due_timers_witness:
  "\<exists>F ts s' F' ts'. Thread_timer 2 \<in> set ts \<and> due ex_asleep ts (Thread_timer 2) \<and>
     rt_tick_increase (\<lambda>k p. Ok) ex_asleep = Ok s' \<and> settled s' F' ts' \<and> ticked ex_asleep ts s' ts'"
proof -
  obtain F ts u where "settled ex_asleep F ts" "Thread_timer 2 \<in> set ts" "due ex_asleep ts (Thread_timer 2)" "ready ex_asleep u"
    by (rule ex_asleep_settled)
  then show ?thesis using tick_fires_due_timers [OF _ quiet_Ok] by blast
qed

text \<open>
  C4. A thread that sleeps \<open>n\<close> ticks with \<^verbatim>\<open>rt_thread_sleep\<close>, for \<open>n\<close> positive and less than half the tick
  range, is off the processor for the next \<open>n - 1\<close> ticks, and the \<open>n\<close>-th tick makes it ready again.
\<close>

theorem sleep_wakes_on_time:
  assumes "settled s F ts" "can_sleep s t" "quiet env" "0 < n" "n < 0x7fffffff"
  shows "\<exists>s1. rt_thread_sleep (of_nat n) s = Ok s1 \<and>
    (\<forall>k < n. \<exists>s2. ticks env k s1 = Ok s2 \<and> suspended s2 t) \<and>
    (\<exists>s2. ticks env n s1 = Ok s2 \<and> ready s2 t \<and> fst (rt_thread_sleep_resume t s2) = RT_EOK)"
  using sleep_wakes [OF assms] by (auto simp: rt_thread_sleep_resume_def Let_def)

theorem sleep_wakes_on_time_witness:
  "\<exists>s1. rt_thread_sleep (of_nat 3) ex_run = Ok s1 \<and>
    (\<forall>k < 3. \<exists>s2. ticks (\<lambda>k p. Ok) k s1 = Ok s2 \<and> suspended s2 2) \<and>
    (\<exists>s2. ticks (\<lambda>k p. Ok) 3 s1 = Ok s2 \<and> ready s2 2 \<and> fst (rt_thread_sleep_resume 2 s2) = RT_EOK)"
  by (rule sleep_wakes_on_time [OF settled_ex_run ex_run_can_sleep quiet_Ok]) simp_all

text \<open>
  C5. \<^verbatim>\<open>rt_timer_start\<close> on a hard timer puts it into the timer list at its deadline, the current tick plus
  its period, and keeps the list sorted by the time left, also where deadlines wrap around the tick range.
\<close>

theorem timer_start_keeps_order:
  assumes "kinv s F" "timer_nodes F (Timer_list 0) ts" "swin s ts"
    and "\<not> bit (ob_flag (object s (O_timer tm))) 2" "tm_init_tick (timer s tm) < RT_TICK_HALF"
    and "\<And>t. tm = Thread_timer t \<Longrightarrow> suspended s t"
  shows "\<exists>s' F' ts'. rt_timer_start tm s = Ok (- RT_EOK, s') \<and> kinv s' F' \<and> timer_nodes F' (Timer_list 0) ts' \<and>
    swin s' ts' \<and> set ts' = insert tm (set ts) \<and>
    tm_timeout_tick (timer s' tm) = rt_tick s + tm_init_tick (timer s tm)"
proof -
  let ?d = "rt_tick s + tm_init_tick (timer s tm)"
  let ?us = "insert_by (\<lambda>t. later ?d (tm_timeout_tick (timer s t))) tm (remove1 tm ts)"
  have soft: "ob_flag (object s (O_timer tm)) AND RT_TIMER_FLAG_SOFT_TIMER = 0"
    using assms(4) flag_bit_2 [of "ob_flag (object s (O_timer tm))"] by blast
  then have tl: "timer_list_of tm s = Timer_list" by (simp add: timer_list_of_def)
  obtain s' where s': "timer_start_insert tm s = Ok s'"
      "kinv s' ((drop_timer tm F)(Timer_list 0 := map (\<lambda>t. Row t 0) ?us))" (is "kinv s' ?F")
    and eq: "s' = s\<lparr>links := links s', random_nr := random_nr s + 1,
            timer := (timer s)(tm := (timer s tm)\<lparr>tm_timeout_tick := ?d\<rparr>),
            object := (object s)(O_timer tm := (object s (O_timer tm))\<lparr>ob_flag :=
               (ob_flag (object s (O_timer tm)) AND NOT 1) OR 1\<rparr>)\<rparr>"
    by (rule kinv_timer_start_insert [OF assms(1,5,6), of ts]) (use assms(2) tl in auto)
  have f: "timer s' = (timer s)(tm := (timer s tm)\<lparr>tm_timeout_tick := ?d\<rparr>)" "rt_tick s' = rt_tick s"
      "object s' = (object s)(O_timer tm := (object s (O_timer tm))\<lparr>ob_flag := (ob_flag (object s (O_timer tm)) AND NOT 1) OR 1\<rparr>)"
    by (subst eq, simp)+
  have "distinct ts" using lists_wf_distinct [OF kinv_wf [OF assms(1)], of "Timer_list 0"] assms(2) by (simp add: distinct_map)
  then have nin: "tm \<notin> set (remove1 tm ts)" by simp
  have "sorted (map (deadline s (rt_tick s - 1)) (remove1 tm ts))"
    using assms(3) by (simp add: swin_def sorted_map_remove1)
  then have "swin s (remove1 tm ts)" using assms(3) notin_set_remove1 by (fastforce simp: swin_def)
  then have "swin s' ?us" by (rule swin_restart [OF _ assms(5) nin f(2,1)])
  moreover have "rt_timer_start tm s = Ok (- RT_EOK, s')"
    using s'(1) assms(4) f(3) by (simp add: rt_timer_start_def flag_bits)
  moreover have "set ?us = insert tm (set ts)" using \<open>distinct ts\<close> by auto
  ultimately show ?thesis
    using s'(2) f(1) by (intro exI [of _ s'] exI [of _ ?F] exI [of _ ?us]) simp
qed

theorem timer_start_keeps_order_witness:
  "\<exists>s' F' ts'. rt_timer_start (Timer 4) ex_run = Ok (- RT_EOK, s') \<and> kinv s' F' \<and> timer_nodes F' (Timer_list 0) ts' \<and>
    swin s' ts' \<and> set ts' = insert (Timer 4) (set []) \<and>
    tm_timeout_tick (timer s' (Timer 4)) = rt_tick ex_run + tm_init_tick (timer ex_run (Timer 4))"
  by (rule timer_start_keeps_order [OF kinv_ex_run]) (simp_all add: ex_lists_def swin_def ex_base_def)

section \<open>Threads\<close>

text \<open>
  C6. \<^verbatim>\<open>rt_thread_yield\<close> called by a ready thread moves it to the end of the ready ring of its priority and
  runs the thread that is then at the front of the most urgent ring; no thread gains or loses its turn.
\<close>

theorem yield_rotates:
  assumes "kinv s F" "kgood s" "rt_scheduler_lock_nest s = 0" "rt_current_thread s = Some t" "top_thread s t"
    and "F (ready_head s t) = Tlist t # Tlist u # q"
  shows "\<exists>s'. rt_thread_yield s = Ok (RT_EOK, s') \<and> rt_current_thread s' = Some u \<and>
    kinv s' (F(ready_head s t := Tlist u # q @ [Tlist t]))"
proof -
  let ?h = "ready_head s t" and ?F = "F(ready_head s t := Tlist u # q @ [Tlist t])"
  have rdy: "ready s t" using assms(5) by (simp add: top_thread_def)
  define s1 where "s1 = s\<lparr>links := rt_list_insert_before ?h (Tlist t) (rt_list_remove (Tlist t) (links s))\<rparr>"
  have "lnext (links s) (Tlist t) \<noteq> lprev (links s) (Tlist t)"
    using ring_two_neighbours [OF kinv_wf [OF assms(1)], of "Tlist t" ?h] assms(6) by simp
  then have eq: "rt_thread_yield s = rbind (rt_schedule s1) (\<lambda>s. Ok (RT_EOK, s))"
    using assms(4) rdy by (simp add: rt_thread_yield_def s1_def)
  have inv1: "kinv s1 ?F" using kinv_rotate [OF assms(1) rdy] assms(6) by (simp add: s1_def)
  have st1: "stacks_ok s1" using stacks_ok_all assms(2) by (simp add: s1_def kgood_def stacks_ok_def stack_ok_def)
  obtain v p where v: "next_thread ?F v p" "rt_schedule s1 = Ok (if v = t then s1
      else s1\<lparr>rt_current_priority := th_current_priority (thread s1 v), rt_current_thread := Some v\<rparr>)"
    by (rule kinv_schedule_ok [OF inv1 _ _ _ st1, of t t]) (use assms(3,4) rdy in \<open>simp_all add: s1_def\<close>)
  have p: "p = unat (th_current_priority (thread s t))"
  proof -
    have top: "top_thread s1 v" "p = unat (th_current_priority (thread s1 v))" using next_thread_top [OF inv1 v(1)] by blast+
    then have "th_current_priority (thread s v) = th_current_priority (thread s t)"
      using assms(5) by (intro order.antisym) (simp_all add: top_thread_def s1_def)
    then show ?thesis using top(2) by (simp add: s1_def)
  qed
  then have vu: "v = u" using v(1) by (simp add: next_thread_def)
  have "t \<noteq> u" using lists_wf_distinct [OF kinv_wf [OF assms(1)], of ?h] assms(6) by auto
  then have s': "rt_schedule s1 = Ok (s1\<lparr>rt_current_priority := th_current_priority (thread s1 u), rt_current_thread := Some u\<rparr>)"
    using v(2) vu by simp
  show ?thesis using eq s' kinv_schedule(1) [OF inv1 s'] by simp
qed

theorem yield_rotates_witness:
  "\<exists>s'. rt_thread_yield ex_peers = Ok (RT_EOK, s') \<and> rt_current_thread s' = Some 3 \<and>
    kinv s' (ex_peer_lists(Priority_table 10 := Tlist 3 # [] @ [Tlist 2]))"
  using yield_rotates [OF kinv_ex_peers ex_peers_kgood _ _ ex_peers_top, of 3 "[]"] by (simp add: ex_peer_lists_def)

text \<open>
  C7. \<^verbatim>\<open>rt_thread_control\<close> with \<^verbatim>\<open>RT_THREAD_CTRL_CHANGE_PRIORITY\<close> never fails: a ready thread goes to the
  end of the ready ring of the new priority, the bitmaps of the scheduler follow, and no other thread,
  timer or waiting list changes.
\<close>

theorem change_priority_requeues:
  assumes "kinv s F"
  shows "\<exists>s'. rt_thread_control t (Change_priority p) s = Ok (RT_EOK, s') \<and>
    kinv s' (if ready s t then requeue t p F else F) \<and> th_current_priority (thread s' t) = p \<and>
    th_state (thread s' t) = th_state (thread s t) \<and> (\<forall>u. u \<noteq> t \<longrightarrow> thread s' u = thread s u) \<and>
    timer s' = timer s \<and> ipc_frame s s'"
  by (rule change_priority_ok [OF assms, of t p]) blast

theorem change_priority_requeues_witness:
  "\<exists>s'. rt_thread_control 2 (Change_priority 255) ex_run = Ok (RT_EOK, s') \<and>
    kinv s' (if ready ex_run 2 then requeue 2 255 ex_lists else ex_lists) \<and> th_current_priority (thread s' 2) = 255 \<and>
    th_state (thread s' 2) = th_state (thread ex_run 2) \<and> (\<forall>u. u \<noteq> 2 \<longrightarrow> thread s' u = thread ex_run u) \<and>
    timer s' = timer ex_run \<and> ipc_frame ex_run s'"
  by (rule change_priority_requeues [OF kinv_ex_run])

text \<open>
  C8. A thread set up with \<^verbatim>\<open>rt_thread_init\<close> on a stack of at least 76 bytes and started with
  \<^verbatim>\<open>rt_thread_startup\<close> from a context that is not scheduling yet is ready, at the end of the ready ring of its
  priority. The 68 bytes from its stack pointer on lie inside its stack, above the guard byte the scheduler checks, and end at a
  multiple of 8; they hold the frame that starts the entry function with its parameter and returns to the exit function. No
  byte outside the stack has changed.
\<close>

theorem thread_starts:
  assumes "kinv s F" "fresh_thread F t" "start \<noteq> 0" "76 \<le> unat len" "unat start + unat len < 2 ^ 32"
    and "rt_current_thread s = None"
  shows "\<exists>s1 s2 F2 sp. rt_thread_init texit t name entry parameter start len prio tick s = Ok (RT_EOK, s1) \<and>
    rt_thread_startup t s1 = Ok (RT_EOK, s2) \<and> kinv s2 F2 \<and> ready s2 t \<and> stack_ok s2 t \<and>
    th_current_priority (thread s2 t) = prio \<and>
    F2 (Priority_table (unat prio)) = F (Priority_table (unat prio)) @ [Tlist t] \<and>
    th_sp (thread s2 t) = sp \<and> unat start < unat sp \<and> unat sp + 68 \<le> unat start + unat len \<and> (unat sp + 68) mod 8 = 0 \<and>
    first_frame entry parameter texit sp (mem s2) \<and> (\<forall>x. unat len \<le> unat (x - start) \<longrightarrow> mem s2 x = mem s x)"
proof -
  obtain s1 where s1: "rt_thread_init texit t name entry parameter start len prio tick s = Ok (RT_EOK, s1)"
      "kinv s1 (F(Object_list Class_Thread := Obj_node (O_thread t) # F (Object_list Class_Thread),
        Object_list Class_Timer := Obj_node (O_timer (Thread_timer t)) # F (Object_list Class_Timer)))" (is "kinv s1 ?F1")
      "thread_timer_ok s1 t" "th_stat (thread s1 t) = RT_THREAD_INIT" "th_init_priority (thread s1 t) = prio" "stack_ok s1 t"
      "(th_sp (thread s1 t), mem s1) = rt_hw_stack_init entry parameter (start + len - 4) texit (rt_memset start 0x23 (unat len) (mem s))"
    using rt_thread_init_ok [OF assms(1-3), of texit name entry parameter len prio tick] assms(4,5) by blast
  have c1: "rt_current_thread s1 = None" using thread_init_current [OF s1(1)] assms(6) by simp
  obtain s2 where s2: "rt_thread_startup t s1 = Ok (RT_EOK, s2)" "ready s2 t" "mem s2 = mem s1"
      "th_current_priority (thread s2 t) = prio" "th_sp (thread s2 t) = th_sp (thread s1 t)"
      "th_stack_addr (thread s2 t) = th_stack_addr (thread s1 t)" "th_stack_size (thread s2 t) = th_stack_size (thread s1 t)"
    by (rule startup_unscheduled [OF s1(4) c1]) (use s1(5) in blast)
  have "kinv s2 (?F1(Priority_table (unat prio) := ?F1 (Priority_table (unat prio)) @ [Tlist t]))"
    using kinv_startup(1) [OF s1(2,3) s2(1)] s1(5) by simp
  moreover have "stack_ok s2 t" using s1(6) s2(3,5-7) by (simp add: stack_ok_def Let_def)
  moreover note f = stack_init_ok(4-7) [OF assms(4,5), where entry = entry and parameter = parameter and texit = texit and m = "mem s",
      folded s1(7)] stack_init_frame [of entry parameter texit "start + len - 4" "rt_memset start 0x23 (unat len) (mem s)", folded s1(7)]
  ultimately show ?thesis
    using s1(1) s2 by (intro exI [of _ s1] exI [of _ s2] exI [of _ "?F1(Priority_table (unat prio) := ?F1 (Priority_table (unat prio)) @ [Tlist t])"]
      exI [of _ "th_sp (thread s1 t)"]) simp
qed

theorem thread_starts_witness:
  "\<exists>s1 s2 F2 sp. rt_thread_init 0x200 1 (cstr_of [97]) 0x100 5 0x1000 0x100 7 20 ex_boot = Ok (RT_EOK, s1) \<and>
    rt_thread_startup 1 s1 = Ok (RT_EOK, s2) \<and> kinv s2 F2 \<and> ready s2 1 \<and> stack_ok s2 1 \<and>
    th_current_priority (thread s2 1) = 7 \<and>
    F2 (Priority_table (unat (7 :: u8))) = [] @ [Tlist 1] \<and>
    th_sp (thread s2 1) = sp \<and> unat (0x1000 :: u32) < unat sp \<and> unat sp + 68 \<le> unat (0x1000 :: u32) + unat (0x100 :: u32) \<and>
    (unat sp + 68) mod 8 = 0 \<and>
    first_frame 0x100 5 0x200 sp (mem s2) \<and> (\<forall>x. unat (0x100 :: u32) \<le> unat (x - 0x1000) \<longrightarrow> mem s2 x = mem ex_boot x)"
  by (rule thread_starts [OF kinv_ex_boot]) (simp_all add: fresh_thread_def)

text \<open>
  C9. \<^verbatim>\<open>rt_thread_delete\<close> on a thread that was started closes it for good: it is on no ready ring and
  no waiting list, its timer is in no timer list, and it is the first of the defunct threads.
\<close>

theorem thread_delete_unlinks:
  assumes "kinv s F" "th_state (thread s t) \<noteq> RT_THREAD_INIT"
  shows "\<exists>s' F'. rt_thread_delete t s = (RT_EOK, s') \<and> kinv s' F' \<and> th_state (thread s' t) = RT_THREAD_CLOSE \<and>
    (\<forall>h. h \<noteq> Thread_defunct \<longrightarrow> Tlist t \<notin> set (F' h)) \<and> detached F' (Row (Thread_timer t) 0) \<and>
    hd (F' Thread_defunct) = Tlist t"
proof -
  let ?F = "(close_lists t F)(Thread_defunct := Tlist t # close_lists t F Thread_defunct)"
  have inv': "kinv (snd (rt_thread_delete t s)) ?F"
    by (rule kinv_thread_delete [OF assms(1) kinv_timer [OF assms]]) (simp add: assms(2))
  have "th_state (thread (snd (rt_thread_delete t s)) t) = RT_THREAD_CLOSE" "fst (rt_thread_delete t s) = RT_EOK"
    by (simp_all add: rt_thread_delete_def case_prod_beta Let_def)
  then show ?thesis
    using inv' close_lists_detached [OF assms(1), of t]
    by (intro exI [of _ "snd (rt_thread_delete t s)"] exI [of _ ?F]) (auto simp: prod_eq_iff)
qed

theorem thread_delete_unlinks_witness:
  "\<exists>s' F'. rt_thread_delete 2 ex_run = (RT_EOK, s') \<and> kinv s' F' \<and> th_state (thread s' 2) = RT_THREAD_CLOSE \<and>
    (\<forall>h. h \<noteq> Thread_defunct \<longrightarrow> Tlist 2 \<notin> set (F' h)) \<and> detached F' (Row (Thread_timer 2) 0) \<and>
    hd (F' Thread_defunct) = Tlist 2"
  by (rule thread_delete_unlinks [OF kinv_ex_run]) simp

text \<open>
  C10. Two steps of the idle thread reclaim the first defunct thread when it was created dynamically and
  has no cleanup function: it leaves the defunct list, its stack and then its control block are given
  back, exactly once each, and the kernel stays consistent.
\<close>

theorem idle_reclaims:
  assumes "kinv s F" "kgood s" "ready s u" "rt_interrupt_nest s = 0" "rt_scheduler_lock_nest s = 0"
    and "F Thread_defunct = Tlist t # q" "\<not> rt_object_is_systemobject (O_thread t) s" "th_cleanup (thread s t) = None"
  shows "\<exists>s1 s2. idle_step cleanup IP_top s = Ok (IP_free t, s1) \<and> idle_step cleanup (IP_free t) s1 = Ok (IP_top, s2) \<and>
    kinv s2 (drop_obj (O_thread t) (F(Thread_defunct := q))) \<and>
    kfreed s2 = kfreed s @ [K_stack t, K_object (O_thread t)]"
proof -
  obtain s1 where s1: "idle_step cleanup IP_top s = Ok (IP_free t, s1)" "kinv s1 (F(Thread_defunct := q))"
      "object s1 = object s" "kfreed s1 = kfreed s"
    by (rule idle_unlinks [OF assms, of cleanup]) blast
  have "\<not> rt_object_is_systemobject (O_thread t) s1" using assms(7) s1(3) by (simp add: rt_object_is_systemobject_def)
  then show ?thesis using idle_frees [OF s1(2), of t cleanup] s1(1,4) by metis
qed

theorem idle_reclaims_witness:
  "\<exists>s1 s2. idle_step (\<lambda>k t. Ok) IP_top ex_closed = Ok (IP_free 3, s1) \<and> idle_step (\<lambda>k t. Ok) (IP_free 3) s1 = Ok (IP_top, s2) \<and>
    kinv s2 (drop_obj (O_thread 3) (ex_closed_lists(Thread_defunct := []))) \<and>
    kfreed s2 = kfreed ex_closed @ [K_stack 3, K_object (O_thread 3)]"
  by (rule idle_reclaims [OF kinv_ex_closed ex_closed_kgood, where u = 1])
    (simp_all add: ex_closed_lists_def rt_object_is_systemobject_def)

end
