(* ===== verification/RT_Props_IPC.thy ===== *)
theory RT_Props_IPC
  imports RT_Example
begin

text \<open>
  What the synchronisation objects promise: semaphores, mutexes, events, mailboxes, message queues and
  memory pools. Each theorem is followed by an instance on a concrete kernel state.
\<close>

section \<open>Semaphores\<close>

text \<open>
  C11. \<^verbatim>\<open>rt_sem_take\<close> with a waiting time refines the counting semaphore: a positive counter is
  decremented and the call returns at once; otherwise the caller joins the queue, in order of arrival
  or of priority as the semaphore was created, and does not return yet.
\<close>

theorem sem_take_refinement:
  assumes "kinv s F" "can_block s t" "sem_flag_ok s i" "sem_abs s F i a" "time \<noteq> 0" "time \<noteq> 0x7fffffff"
  shows "\<exists>r s' F'. rt_sem_take i time s = Ok (r, s') \<and> kinv s' F' \<and> kgood s' \<and>
    sem_abs s' F' i (asem_take (enqueue (ob_flag (object s (O_ipc (Sem i)))) s t) a) \<and>
    (r = Some RT_EOK \<longleftrightarrow> 0 < fst a) \<and> (r = None \<longleftrightarrow> fst a = 0)"
  by (rule sem_take_refines [OF assms])

theorem sem_take_refinement_witness:
  "\<exists>r s' F'. rt_sem_take 0 7 (ex_wait (Suspend_thread (Sem 0))) = Ok (r, s') \<and> kinv s' F' \<and> kgood s' \<and>
    sem_abs s' F' 0 (asem_take (enqueue 0 (ex_wait (Suspend_thread (Sem 0))) 2) (0, [3])) \<and>
    (r = Some RT_EOK \<longleftrightarrow> 0 < fst (0 :: nat, [3 :: nat])) \<and> (r = None \<longleftrightarrow> fst (0 :: nat, [3 :: nat]) = 0)"
proof -
  have "sem_abs (ex_wait (Suspend_thread (Sem 0))) (ex_lists(Suspend_thread (Sem 0) := [Tlist 3])) 0 (0, [3])"
    by (simp add: sem_abs_def ex_base_def)
  moreover have "sem_flag_ok (ex_wait (Suspend_thread (Sem 0))) 0" by (simp add: sem_flag_ok_def ex_base_def)
  moreover have "ob_flag (object (ex_wait (Suspend_thread (Sem 0))) (O_ipc (Sem 0))) = 0" by (simp add: ex_base_def)
  ultimately show ?thesis
    using sem_take_refinement [OF kinv_ex_wait [of "Suspend_thread (Sem 0)"] ex_wait_can_block, of 0 "(0, [3])" 7] by simp
qed

text \<open>
  C12. \<^verbatim>\<open>rt_sem_release\<close> refines the counting semaphore: the first thread of the queue is made ready and
  the counter stays, or with an empty queue the counter is incremented, as long as it is below 65535.
\<close>

theorem sem_release_refinement:
  assumes "kinv s F" "kgood s" "sem_abs s F i a" "fst a < 0xffff"
  shows "\<exists>s' F'. rt_sem_release i s = Ok (RT_EOK, s') \<and> kinv s' F' \<and> kgood s' \<and>
    sem_abs s' F' i (asem_release a) \<and> (\<forall>t q. snd a = t # q \<longrightarrow> ready s' t)"
  by (rule sem_release_refines [OF assms])

theorem sem_release_refinement_witness:
  "\<exists>s' F'. rt_sem_release 0 (ex_wait (Suspend_thread (Sem 0))) = Ok (RT_EOK, s') \<and> kinv s' F' \<and> kgood s' \<and>
    sem_abs s' F' 0 (asem_release (0, [3])) \<and> (\<forall>t q. snd (0 :: nat, [3 :: nat]) = t # q \<longrightarrow> ready s' t)"
proof -
  have "sem_abs (ex_wait (Suspend_thread (Sem 0))) (ex_lists(Suspend_thread (Sem 0) := [Tlist 3])) 0 (0, [3])"
    by (simp add: sem_abs_def ex_base_def)
  then show ?thesis
    by (intro sem_release_refinement [OF kinv_ex_wait [of "Suspend_thread (Sem 0)"] ex_wait_kgood]) simp_all
qed

text \<open>
  C13. A thread that takes an empty semaphore with a time limit of \<open>n\<close> ticks and is not woken stays
  suspended for \<open>n - 1\<close> ticks; the \<open>n\<close>-th makes it ready and takes it off the queue of the semaphore, and
  the call returns \<^verbatim>\<open>-RT_ETIMEOUT\<close>.
\<close>

theorem sem_take_times_out:
  assumes "kinv s F" "can_block s t" "sem_flag_ok s i" "sem_value (sem s i) = 0" "timers_ok s F ts" "quiet env"
    and "0 < n" "n < 0x7fffffff"
  shows "\<exists>s1. rt_sem_take i (of_nat n) s = Ok (None, s1) \<and>
    (\<forall>k < n. \<exists>s2. ticks env k s1 = Ok s2 \<and> suspended s2 t) \<and>
    (\<exists>s2 F2. ticks env n s1 = Ok s2 \<and> kinv s2 F2 \<and> ready s2 t \<and> Tlist t \<notin> set (F2 (Suspend_thread (Sem i))) \<and>
       fst (rt_sem_take_resume t i s2) = - RT_ETIMEOUT)"
proof -
  obtain ws where ws: "waiters F (Suspend_thread (Sem i)) ws" by (rule kinv_waiters [OF assms(1)]) auto
  obtain s1 F1 where s1: "rt_sem_take i (of_nat n) s = Ok (None, s1)" "blocked_on s F t (Suspend_thread (Sem i))
      (enqueue (ob_flag (object s (O_ipc (Sem i)))) s t ws) (of_nat n) (C_sem_take i) s1 F1"
    using sem_take_blocks [OF assms(1,2,4,3) wait_ticks [OF assms(7,8)] ws] by blast
  show ?thesis
    using s1(1) blocked_times_out [OF s1(2) assms(5-8)] by (auto simp: rt_sem_take_resume_def Let_def)
qed

theorem sem_take_times_out_witness:
  "\<exists>s1. rt_sem_take 0 (of_nat 3) ex_run = Ok (None, s1) \<and>
    (\<forall>k < 3. \<exists>s2. ticks (\<lambda>k p. Ok) k s1 = Ok s2 \<and> suspended s2 2) \<and>
    (\<exists>s2 F2. ticks (\<lambda>k p. Ok) 3 s1 = Ok s2 \<and> kinv s2 F2 \<and> ready s2 2 \<and> Tlist 2 \<notin> set (F2 (Suspend_thread (Sem 0))) \<and>
       fst (rt_sem_take_resume 2 0 s2) = - RT_ETIMEOUT)"
  by (rule sem_take_times_out [OF kinv_ex_run ex_run_can_block _ _ timers_ok_ex_run quiet_Ok])
    (simp_all add: sem_flag_ok_def ex_base_def)

text \<open>
  C14. \<^verbatim>\<open>rt_sem_detach\<close> leaves no thread waiting for ever: every waiter becomes ready, its call returns
  \<^verbatim>\<open>-RT_ERROR\<close>, and no other thread changes.
\<close>

theorem sem_detach_wakes_all:
  assumes "kinv s F" "waiters F (Suspend_thread (Sem i)) ws"
  shows "\<exists>s' F'. rt_sem_detach i s = Ok (RT_EOK, s') \<and> kinv s' F' \<and> F' (Suspend_thread (Sem i)) = [] \<and>
    (\<forall>t \<in> set ws. ready s' t \<and> fst (rt_sem_take_resume t i s') = - RT_ERROR) \<and>
    (\<forall>t. t \<notin> set ws \<longrightarrow> thread s' t = thread s t)"
proof -
  obtain s1 F1 where s1: "rt_ipc_list_resume_all (Suspend_thread (Sem i)) s = Ok s1" "kinv s1 F1" "F1 (Suspend_thread (Sem i)) = []"
      "\<forall>t \<in> set ws. ready s1 t \<and> th_error (thread s1 t) = - RT_ERROR" "\<forall>t. t \<notin> set ws \<longrightarrow> thread s1 t = thread s t"
    using ipc_resume_all_ok [OF assms(1) _ assms(2)] by auto
  have "thread (rt_object_detach (O_ipc (Sem i)) s1) = thread s1" by (simp add: rt_object_detach_def)
  then show ?thesis
    using s1 kinv_object_detach [OF s1(2), of "O_ipc (Sem i)"]
    by (intro exI [of _ "rt_object_detach (O_ipc (Sem i)) s1"] exI [of _ "drop_obj (O_ipc (Sem i)) F1"])
      (simp add: rt_sem_detach_def rt_sem_take_resume_def Let_def drop_obj_def)
qed

theorem sem_detach_wakes_all_witness:
  "\<exists>s' F'. rt_sem_detach 0 (ex_wait (Suspend_thread (Sem 0))) = Ok (RT_EOK, s') \<and> kinv s' F' \<and> F' (Suspend_thread (Sem 0)) = [] \<and>
    (\<forall>t \<in> set [3]. ready s' t \<and> fst (rt_sem_take_resume t 0 s') = - RT_ERROR) \<and>
    (\<forall>t. t \<notin> set [3] \<longrightarrow> thread s' t = thread (ex_wait (Suspend_thread (Sem 0))) t)"
  by (rule sem_detach_wakes_all [OF kinv_ex_wait]) simp_all

section \<open>Mutexes\<close>

text \<open>
  C15. Taking a mutex that another thread owns lends that thread the priority of the caller when it is the
  more urgent of the two; the caller joins the queue of the mutex and does not return yet, and its timer
  is armed when it waits with a limit.
\<close>

theorem mutex_take_inherits:
  assumes "kinv s F" "can_block s t" "mx_value (mutex s i) = 0" "mx_owner (mutex s i) = Some w" "w \<noteq> t" "mutex_flag_ok s i"
    and "time \<noteq> 0" "time \<noteq> 0x7fffffff"
  shows "\<exists>s' F'. rt_mutex_take i time s = Ok (None, s') \<and> kinv s' F' \<and> kgood s' \<and> suspended s' t \<and>
    Tlist t \<in> set (F' (Suspend_thread (Mutex i))) \<and> cont s' t = Some (C_mutex_take i time) \<and>
    th_current_priority (thread s' w) = min (th_current_priority (thread s w)) (th_current_priority (thread s t)) \<and>
    mutex s' i = mutex s i \<and>
    (sint time > 0 \<longrightarrow> Row (Thread_timer t) 0 \<in> set (F' (Timer_list 0)) \<and>
       tm_timeout_tick (timer s' (Thread_timer t)) = rt_tick s + time)"
proof -
  let ?s = "upd_thread t (\<lambda>th. th\<lparr>th_error := RT_EOK\<rparr>) s"
  obtain ws where ws: "waiters F (Suspend_thread (Mutex i)) ws" by (rule kinv_waiters [OF assms(1)]) auto
  have eq: "rt_mutex_take i time s = mutex_again i time t ?s"
    by (rule mutex_take_again) (use assms(2,4,5) in \<open>simp_all add: can_block_def\<close>)
  obtain s1 F1 s' F' where s': "mutex_again i time t ?s = Ok (None, s')"
      "blocked_on s1 F1 t (Suspend_thread (Mutex i)) (enqueue (ob_flag (object s (O_ipc (Mutex i)))) s1 t ws)
        time (C_mutex_take i time) s' F'"
      "ipc_frame ?s s1" "th_current_priority (thread s1 w) = min (th_current_priority (thread s w)) (th_current_priority (thread s t))"
    using mutex_again_blocks [OF kinv_error [OF assms(1)] can_block_error [OF assms(2)], where i = i and w = w and time = time and ws = ws] assms ws
    by (simp add: mutex_flag_ok_def) blast
  then show ?thesis
    using eq assms(5) by (intro exI [of _ s'] exI [of _ F']) (auto simp: blocked_on_def ipc_frame_def)
qed

theorem mutex_take_inherits_witness:
  "\<exists>s' F'. rt_mutex_take 0 7 (ex_owned 3) = Ok (None, s') \<and> kinv s' F' \<and> kgood s' \<and> suspended s' 2 \<and>
    Tlist 2 \<in> set (F' (Suspend_thread (Mutex 0))) \<and> cont s' 2 = Some (C_mutex_take 0 7) \<and>
    th_current_priority (thread s' 3) = min (th_current_priority (thread (ex_owned 3) 3)) (th_current_priority (thread (ex_owned 3) 2)) \<and>
    mutex s' 0 = mutex (ex_owned 3) 0 \<and>
    (sint (7 :: u32) > 0 \<longrightarrow> Row (Thread_timer 2) 0 \<in> set (F' (Timer_list 0)) \<and>
       tm_timeout_tick (timer s' (Thread_timer 2)) = rt_tick (ex_owned 3) + 7)"
  by (rule mutex_take_inherits [OF kinv_ex_owned ex_owned_can_block]) (simp_all add: mutex_flag_ok_def)

text \<open>
  C16. The last release of a mutex by its owner gives the owner back the priority recorded when it took the
  mutex. With no waiter the mutex is free; otherwise the first waiter owns it, held once, and is ready,
  so that the mutex is never free while a thread waits for it.
\<close>

theorem mutex_release_hands_over:
  assumes "kinv s F" "kgood s" "rt_current_thread s = Some t" "ready s t" "rt_interrupt_nest s = 0"
    and "mx_owner (mutex s i) = Some t" "mx_hold (mutex s i) = 1" "mx_value (mutex s i) = 0"
    and "waiters F (Suspend_thread (Mutex i)) ws"
  shows "\<exists>s' F'. rt_mutex_release i s = Ok (RT_EOK, s') \<and> kinv s' F' \<and> kgood s' \<and> mutex_inv s' F' i \<and>
    th_current_priority (thread s' t) = mx_original_priority (mutex s i) \<and>
    waiters F' (Suspend_thread (Mutex i)) (tl ws) \<and>
    (case ws of [] \<Rightarrow> mx_owner (mutex s' i) = None
     | u # us \<Rightarrow> mx_owner (mutex s' i) = Some u \<and> mx_hold (mutex s' i) = 1 \<and> ready s' u)"
  using mutex_release_last [OF assms] by (cases ws) (fastforce simp: mutex_inv_def Let_def)+

theorem mutex_release_hands_over_witness:
  "\<exists>s' F'. rt_mutex_release 0 (ex_contended 2) = Ok (RT_EOK, s') \<and> kinv s' F' \<and> kgood s' \<and> mutex_inv s' F' 0 \<and>
    th_current_priority (thread s' 2) = mx_original_priority (mutex (ex_contended 2) 0) \<and>
    waiters F' (Suspend_thread (Mutex 0)) (tl [3]) \<and>
    (case [3] of [] \<Rightarrow> mx_owner (mutex s' 0) = None
     | u # us \<Rightarrow> mx_owner (mutex s' 0) = Some u \<and> mx_hold (mutex s' 0) = 1 \<and> ready s' u)"
  by (rule mutex_release_hands_over [OF kinv_ex_contended ex_contended_kgood]) simp_all

section \<open>Events\<close>

text \<open>
  C17. \<^verbatim>\<open>rt_event_send\<close> delivers the new events to the waiting threads in the order of the queue, each one seeing
  what the ones before it left: a thread whose condition holds becomes ready with the events it received,
  and clears them if it asked to. Afterwards no thread waits whose condition holds.
\<close>

theorem event_send_delivers:
  assumes "kinv s F" "kgood s" "waiters F (Suspend_thread (Event i)) ws" "evs \<noteq> 0"
    and "event_deliver s i evs ws = (E, served, rest)"
  shows "\<exists>s' F'. rt_event_send i evs s = Ok (RT_EOK, s') \<and> event_sent s F i [] served rest E s' F' \<and> event_inv s' F' i"
proof -
  have "distinct (map Tlist ws)" using lists_wf_distinct [OF kinv_wf [OF assms(1)]] assms(3) by metis
  then have "distinct ws" by (simp add: distinct_map)
  then show ?thesis using event_send_ok [OF assms] event_send_inv [OF assms(5)] by blast
qed

theorem event_send_delivers_witness:
  "\<exists>s' F'. rt_event_send 0 3 ex_event = Ok (RT_EOK, s') \<and>
    event_sent ex_event (ex_lists(Suspend_thread (Event 0) := [Tlist 3])) 0 [] [(3, 1)] [] 2 s' F' \<and> event_inv s' F' 0"
  by (rule event_send_delivers [OF kinv_ex_event ex_event_kgood, where ws = "[3]"])
    (simp_all add: ex_event_def ex_base_def satisfied_def received_def)

end
