(* ===== verification/RT_Props_Queues.thy ===== *)
theory RT_Props_Queues
  imports RT_Example
begin

text \<open>
  What mailboxes, message queues and memory pools promise, through the contracts of
  \<^verbatim>\<open>RT_Contracts\<close> that they keep.
\<close>

section \<open>Mailboxes\<close>

text \<open>
  C18. Mails sent with \<^verbatim>\<open>rt_mb_send\<close> come out of \<^verbatim>\<open>rt_mb_recv\<close> in the order they were sent, none lost and none
  invented, whichever threads make the calls and whoever waits. A run of calls succeeds exactly when no
  send finds the mailbox full and no receive finds it empty.
\<close>

theorem mailbox_fifo:
  assumes "mb_holds i s xs c"
  shows "if fifo_fits (length xs) c ops
    then \<exists>ys s' zs. service_run (mb_sending i) (mb_receiving i) ops s = Some (ys, s') \<and> mb_holds i s' zs c \<and>
      xs @ fifo_puts ops = ys @ zs
    else service_run (mb_sending i) (mb_receiving i) ops s = None"
  using kmb.service_law [OF assms, of ops] kmb.service_stops [OF assms, of ops] by simp

theorem mailbox_fifo_witness:
  "\<exists>ys s' zs. service_run (mb_sending 0) (mb_receiving 0) [Put 7, Put 8, Get, Get] ex_run = Some (ys, s') \<and>
     mb_holds 0 s' zs 4 \<and> [] @ [7, 8] = ys @ zs"
proof -
  have "mb_holds 0 ex_run [] 4"
    using kinv_ex_run ex_run_kgood by (auto simp: mb_holds_def mb_wf_def mails_def ex_base_def)
  from mailbox_fifo [OF this, of "[Put 7, Put 8, Get, Get]"] show ?thesis by simp
qed

section \<open>Message queues\<close>

text \<open>
  C19. Whatever the interleaving of senders, urgent senders, receivers and resets, between any two of the critical
  sections that \<^verbatim>\<open>rt_mq_send\<close>, \<^verbatim>\<open>rt_mq_urgent\<close>, \<^verbatim>\<open>rt_mq_recv\<close> and \<^verbatim>\<open>rt_mq_control\<close> consist of, each block of the pool is in
  exactly one place: queued, free, or in the hands of one caller; and the entry count is the number of
  queued messages.
\<close>

theorem mq_interleavings:
  assumes "mq_reach q0 (q, b)" "\<forall>k < unat (mq_max_msgs q0). length (mq_data q0 k) = unat (mq_msg_size q0)"
  shows "\<exists>ms fr. mq_wf q ms fr (dom b) \<and> unat (mq_entry q) = length ms \<and>
    length ms + length fr + card (dom b) = unat (mq_max_msgs q0)"
proof -
  have inv: "mq_inv (q, b)" "mq_max_msgs q = mq_max_msgs q0" using mq_reach_inv [OF assms] by simp_all
  then obtain ms fr where wf: "mq_wf q ms fr (dom b)" by (auto simp: mq_inv_def)
  then show ?thesis using mq_wf_le [OF wf] inv(2) by (auto simp: mq_wf_def)
qed

theorem mq_interleavings_witness:
  "\<exists>q b. mq_reach ex_mq (q, b) \<and> b 1 = Some (M_filled False) \<and>
    (\<exists>ms fr. mq_wf q ms fr (dom b) \<and> unat (mq_entry q) = length ms \<and>
      length ms + length fr + card (dom b) = unat (mq_max_msgs ex_mq))"
proof -
  obtain q1 where q1: "mq_take_free (mq_struct_init ex_mq) = Some (1, q1)" using mq_take_free_ok [OF mq_wf_ex_mq] by blast
  have "mq_reach ex_mq (q1, Map.empty(1 \<mapsto> M_taken [5] False))"
    by (rule mq_reach.step [OF mq_reach.init mq_step.take_free [OF _ _ q1]]) simp_all
  then have r: "mq_reach ex_mq (mq_copy_in 1 [5] (q1\<lparr>mq_next := (mq_next q1)(1 := None)\<rparr>), (Map.empty(1 \<mapsto> M_taken [5] False))(1 \<mapsto> M_filled False))"
    using mq_reach.step mq_step.copy_in [of "Map.empty(1 \<mapsto> M_taken [5] False)" 1 "[5]" False q1] by fastforce
  then show ?thesis using mq_interleavings [OF r] by (fastforce simp: ex_mq_def)
qed

text \<open>
  C20. Messages of the size of the queue come out of \<^verbatim>\<open>rt_mq_recv\<close> byte for byte and in the order \<^verbatim>\<open>rt_mq_send\<close> took them,
  none lost; a run of calls succeeds exactly when no send finds the queue full and no receive finds it
  empty.
\<close>

theorem message_queue_fifo:
  assumes "mq_holds i sz s xs c" "\<forall>x \<in> set (fifo_puts ops). length x = unat sz"
  shows "if fifo_fits (length xs) c ops
    then \<exists>ys s' zs. service_run (mq_sending i) (mq_receiving i sz) ops s = Some (ys, s') \<and> mq_holds i sz s' zs c \<and>
      xs @ fifo_puts ops = ys @ zs
    else service_run (mq_sending i) (mq_receiving i sz) ops s = None"
  using kmq.service_law [OF assms] kmq.service_stops [OF assms] by simp

theorem message_queue_fifo_witness:
  "\<exists>ys s' zs. service_run (mq_sending 0) (mq_receiving 0 2) [Put [1, 2], Put [3, 4], Get] ex_queue = Some (ys, s') \<and>
     mq_holds 0 2 s' zs 2 \<and> [] @ [[1, 2], [3, 4]] = ys @ zs"
proof -
  have "mq_holds 0 2 ex_queue [] 2"
    using kinv_ex_queue mq_wf_ex_mq by (auto simp: mq_holds_def)
  from message_queue_fifo [OF this, of "[Put [1, 2], Put [3, 4], Get]"] show ?thesis by simp
qed

text \<open>
  C21. A message sent with \<^verbatim>\<open>rt_mq_urgent\<close> is the next one received, byte for byte, and the messages that were queued
  before stay queued in their order.
\<close>

theorem urgent_is_next:
  assumes "kinv s F" "kgood s" "mq_wf (msgqueue s i) ms (k # fr) {}"
    and "0 < length buffer" "length buffer \<le> unat (mq_msg_size (msgqueue s i))"
  shows "\<exists>s1 s2. rt_mq_urgent i buffer s = Ok (RT_EOK, s1) \<and>
    rt_mq_recv i (of_nat (length buffer)) 0 s1 = Ok (Some (RT_EOK, buffer), s2) \<and>
    mq_wf (msgqueue s2 i) ms (k # fr) {} \<and> (\<forall>m \<in> set ms. mq_data (msgqueue s2 i) m = mq_data (msgqueue s i) m)"
proof -
  obtain ws where ws: "waiters F (Suspend_thread (Msgqueue i)) ws" by (rule kinv_waiters [OF assms(1)]) auto
  obtain q' s1 F1 where s1: "rt_mq_urgent i buffer s = Ok (RT_EOK, s1)" "mq_queued (msgqueue s i) fr k buffer q' (k # ms)"
      "woken_first (upd_mq i (\<lambda>_. q') s) F (Suspend_thread (Msgqueue i)) ws s1 F1"
    using mq_urgent_ok [OF assms(1,2) ws assms(3-5)] by blast
  have q1: "msgqueue s1 i = q'" using s1(3) by (simp add: woken_first_def ipc_frame_def)
  have q': "mq_wf q' (k # ms) fr {}" "mq_data q' = (mq_data (msgqueue s i))(k := buffer @ drop (length buffer) (mq_data (msgqueue s i) k))"
      "mq_msg_size q' = mq_msg_size (msgqueue s i)" using s1(2) by (simp_all add: mq_queued_def)
  have "unat (mq_msg_size (msgqueue s i)) < 65536" using unsigned_less [of "mq_msg_size (msgqueue s i)"] by simp
  then have un: "unat (of_nat (length buffer) :: u32) = length buffer"
    using assms(5) by (simp add: unat_of_nat take_bit_nat_eq_self)
  then have ne: "(of_nat (length buffer) :: u32) \<noteq> 0" using assms(4) by auto
  obtain q2 where q2: "rt_mq_recv i (of_nat (length buffer)) 0 s1 = Ok (Some (RT_EOK, buffer), upd_mq i (\<lambda>_. q2) s1)"
      "mq_wf q2 ms (k # fr) {}" "mq_data q2 = mq_data q'"
    using mq_recv_ok [of s1 i k ms fr, OF _ ne, of 0] q1 q' un assms(5) by auto
  have "k \<notin> set ms" using q'(1) by (auto simp: mq_wf_def mq_shape_def)
  then show ?thesis using s1(1) q2 q'(2) by auto
qed

theorem urgent_is_next_witness:
  "\<exists>s1 s2. rt_mq_urgent 0 [9] ex_queue = Ok (RT_EOK, s1) \<and>
    rt_mq_recv 0 (of_nat (length [9 :: u8])) 0 s1 = Ok (Some (RT_EOK, [9]), s2) \<and>
    mq_wf (msgqueue s2 0) [] [1, 0] {} \<and> (\<forall>m \<in> set []. mq_data (msgqueue s2 0) m = mq_data (msgqueue ex_queue 0) m)"
  by (rule urgent_is_next [OF kinv_ex_queue]) (use mq_wf_ex_mq in simp_all)

section \<open>Memory pools\<close>

text \<open>
  C22. Whatever the order of \<^verbatim>\<open>rt_mp_alloc\<close> with any waiting time, of the completion of calls that had to wait, of \<^verbatim>\<open>rt_mp_free\<close>, and of
  anything else in the kernel, waiters that time out included: the free list and the blocks handed out partition the blocks of the
  pool, the count of free blocks is right, and as long as it is not zero \<^verbatim>\<open>rt_mp_alloc\<close> returns a block that nobody holds. (The
  sequence ends at an \<^verbatim>\<open>rt_mp_free\<close> that faults, as it does when all the threads it counts as waiting have timed out.)
\<close>

theorem pool_conserves_blocks:
  assumes "mp_reach i s held"
  shows "\<exists>fr. mp_chain (mp_header (mempool s i)) (mp_block_list (mempool s i)) fr \<and> distinct fr \<and> set fr \<inter> held = {} \<and>
    set fr \<union> held = {..<unat (mp_block_total_count (mempool s i))} \<and>
    unat (mp_block_free_count (mempool s i)) = length fr \<and> (\<forall>k \<in> held. mp_header (mempool s i) k = Owner_pool i) \<and>
    (fr \<noteq> [] \<longrightarrow> (\<forall>time. \<exists>s'. rt_mp_alloc i time s = Ok (Some (Some (hd fr)), s') \<and> mp_reach i s' (insert (hd fr) held)))"
proof -
  obtain fr where fr: "mp_wf i (mempool s i) fr held" using mp_reach_wf [OF assms] by blast
  have "\<exists>s'. rt_mp_alloc i time s = Ok (Some (Some (hd fr)), s') \<and> mp_reach i s' (insert (hd fr) held)" if "fr \<noteq> []" for time
  proof -
    obtain p where p: "rt_mp_alloc i time s = Ok (Some (Some (hd fr)), upd_mp i (\<lambda>_. p) s)"
      using mp_alloc_now [of i s "hd fr" "tl fr" held time] fr \<open>fr \<noteq> []\<close> by auto
    from mp_reach.alloc [OF assms p] have "mp_reach i (upd_mp i (\<lambda>_. p) s) (insert (hd fr) held)" by (simp add: mp_got_def)
    with p show ?thesis by blast
  qed
  then show ?thesis using fr unfolding mp_wf_def by (intro exI [of _ fr]) blast
qed

theorem pool_conserves_blocks_witness:
  "\<exists>s s' fr. rt_mp_init 0 (cstr_of [97]) 24 4 ex_run = Ok (RT_EOK, s) \<and> rt_mp_alloc 0 5 s = Ok (Some (Some 0), s') \<and>
    mp_reach 0 s' {0} \<and> distinct fr \<and> set fr = {1, 2 :: nat} \<and> unat (mp_block_free_count (mempool s' 0)) = length fr"
proof -
  obtain s where s: "rt_mp_init 0 (cstr_of [97]) 24 4 ex_run = Ok (RT_EOK, s)" "mp_block_list (mempool s 0) = Some 0"
      "mp_block_total_count (mempool s 0) = 3" "mp_block_free_count (mempool s 0) = 3"
  proof -
    obtain x where "rt_object_init (O_ipc (Mempool 0)) Class_MemPool (cstr_of [97]) ex_run = Ok x"
      using rt_object_init_Ok [of Class_MemPool] by blast
    then show ?thesis using that by (simp add: rt_mp_init_def mp_block_init_def Let_def)
  qed
  obtain fr s' where fr: "mp_chain (mp_header (mempool s 0)) (Some 0) fr" "rt_mp_alloc 0 5 s = Ok (Some (Some (hd fr)), s')"
      "mp_reach 0 s' (insert (hd fr) {})"
    using pool_conserves_blocks [OF mp_reach.init [OF s(1)]] s(2) by (metis mp_chain.simps(1) option.distinct(1))
  have hd: "hd fr = 0" using fr(1) by (cases fr) auto
  then have reach: "mp_reach 0 s' {0}" using fr(3) by simp
  have total: "unat (mp_block_total_count (mempool s' 0)) = 3"
    using fr(2) s(3,4) by (auto simp: rt_mp_alloc_def mp_alloc_loop_def mp_take_def Let_def split: if_splits option.splits mp_header.splits)
  obtain gr where gr: "distinct gr" "set gr \<inter> {0} = {}" "set gr \<union> {0} = {..<unat (mp_block_total_count (mempool s' 0))}"
      "unat (mp_block_free_count (mempool s' 0)) = length gr"
    using pool_conserves_blocks [OF reach] by blast
  have "set gr = {..<3} - {0}" using gr(2,3) unfolding total by blast
  also have "\<dots> = {1, 2}" by auto
  finally show ?thesis using s(1) fr(2) reach gr(1,4) unfolding hd by blast
qed

end
