(* ===== verification/RT_Heap.thy ===== *)
theory RT_Heap
  imports RT_Memory
begin

text \<open>
  \<^verbatim>\<open>src/src/mem.c\<close>: the system heap.  A \<^verbatim>\<open>struct heap_mem\<close> is known by its offset from \<^verbatim>\<open>heap_ptr\<close>; the
  pointers \<^verbatim>\<open>heap_end\<close> and \<^verbatim>\<open>lfree\<close> are kept as offsets too, and what the callers see are addresses.
  The headers are a store of their own beside the bytes of the memory: that headers do not overlap is
  part of the invariant below.  \<open>nest\<close> is \<^verbatim>\<open>rt_interrupt_nest\<close>; what runs between taking and
  releasing \<^verbatim>\<open>heap_sem\<close>, a binary semaphore, is one step here.  A null pointer is \<open>None\<close>.
\<close>

section \<open>The heap\<close>

record heap_mem =
  hm_magic :: u16
  hm_used :: u16
  hm_next :: u32
  hm_prev :: u32

record heap =
  heap_ptr :: u32
  heap_end :: u32
  lfree :: u32
  mem_size_aligned :: u32
  used_mem :: u32
  max_mem :: u32
  blk :: "u32 \<Rightarrow> heap_mem"

abbreviation HEAP_MAGIC :: u16 where "HEAP_MAGIC \<equiv> 0x1ea0"
abbreviation SIZEOF_STRUCT_MEM :: u32 where "SIZEOF_STRUCT_MEM \<equiv> 12"
abbreviation MIN_SIZE :: u32 where "MIN_SIZE \<equiv> 12"
abbreviation MIN_SIZE_ALIGNED :: u32 where "MIN_SIZE_ALIGNED \<equiv> 12"

definition rt_align :: "u32 \<Rightarrow> u32" where
  "rt_align n = (n + 3) AND NOT 3"

definition rt_align_down :: "u32 \<Rightarrow> u32" where
  "rt_align_down n = n AND NOT 3"

definition upd_blk :: "u32 \<Rightarrow> (heap_mem \<Rightarrow> heap_mem) \<Rightarrow> heap \<Rightarrow> heap" where
  [simp]: "upd_blk p f h = h\<lparr>blk := (blk h)(p := f (blk h p))\<rparr>"

definition addr :: "heap \<Rightarrow> u32 \<Rightarrow> u32" where
  "addr h p = heap_ptr h + p"

section \<open>Operations\<close>

definition plug_forward :: "u32 \<Rightarrow> heap \<Rightarrow> heap" where
  "plug_forward m h =
     (let nmem = hm_next (blk h m)
      in if m \<noteq> nmem \<and> hm_used (blk h nmem) = 0 \<and> nmem \<noteq> heap_end h
         then
           (let h = (if lfree h = nmem then h\<lparr>lfree := m\<rparr> else h);
                h = upd_blk m (\<lambda>b. b\<lparr>hm_next := hm_next (blk h nmem)\<rparr>) h
            in upd_blk (hm_next (blk h nmem)) (\<lambda>b. b\<lparr>hm_prev := m\<rparr>) h)
         else h)"

definition plug_backward :: "u32 \<Rightarrow> heap \<Rightarrow> heap" where
  "plug_backward m h =
     (let pmem = hm_prev (blk h m)
      in if pmem \<noteq> m \<and> hm_used (blk h pmem) = 0
         then
           (let h = (if lfree h = m then h\<lparr>lfree := pmem\<rparr> else h);
                h = upd_blk pmem (\<lambda>b. b\<lparr>hm_next := hm_next (blk h m)\<rparr>) h
            in upd_blk (hm_next (blk h m)) (\<lambda>b. b\<lparr>hm_prev := pmem\<rparr>) h)
         else h)"

definition plug_holes :: "u32 \<Rightarrow> heap \<Rightarrow> heap res" where
  "plug_holes m h =
     rbind (rassert (addr h m \<ge> heap_ptr h) h) (\<lambda>h.
     rbind (rassert (addr h m < addr h (heap_end h)) h) (\<lambda>h.
     rbind (rassert (hm_used (blk h m) = 0) h) (\<lambda>h.
     Ok (plug_backward m (plug_forward m h)))))"

definition rt_system_heap_init :: "u8 \<Rightarrow> u32 \<Rightarrow> u32 \<Rightarrow> heap \<Rightarrow> heap res" where
  "rt_system_heap_init nest begin_addr end_addr h =
     rbind (rassert (nest = 0) h) (\<lambda>h.
     (let begin_align = rt_align begin_addr;
          end_align = rt_align_down end_addr
      in if end_align > 2 * SIZEOF_STRUCT_MEM \<and> end_align - 2 * SIZEOF_STRUCT_MEM \<ge> begin_align
         then
           (let h = h\<lparr>mem_size_aligned := end_align - begin_align - 2 * SIZEOF_STRUCT_MEM\<rparr>;
                h = h\<lparr>heap_ptr := begin_align\<rparr>;
                top = mem_size_aligned h + SIZEOF_STRUCT_MEM;
                h = upd_blk 0 (\<lambda>b. \<lparr>hm_magic = HEAP_MAGIC, hm_used = 0, hm_next = top, hm_prev = 0\<rparr>) h;
                h = h\<lparr>heap_end := hm_next (blk h 0)\<rparr>;
                h = upd_blk (heap_end h) (\<lambda>b. \<lparr>hm_magic = HEAP_MAGIC, hm_used = 1, hm_next = top, hm_prev = top\<rparr>) h
            in Ok (h\<lparr>lfree := 0\<rparr>))
         else Ok h))"

partial_function (option) malloc_search :: "u32 \<Rightarrow> u32 \<Rightarrow> heap \<Rightarrow> u32 option option" where
  "malloc_search len ptr h =
     (if ptr < mem_size_aligned h - len then
        (if hm_used (blk h ptr) = 0 \<and> hm_next (blk h ptr) - (ptr + SIZEOF_STRUCT_MEM) \<ge> len
         then Some (Some ptr)
         else malloc_search len (hm_next (blk h ptr)) h)
      else Some None)"

definition count_used :: "u32 \<Rightarrow> heap \<Rightarrow> heap" where
  "count_used n h =
     (let h = h\<lparr>used_mem := used_mem h + n\<rparr>
      in if max_mem h < used_mem h then h\<lparr>max_mem := used_mem h\<rparr> else h)"

definition split_block :: "u32 \<Rightarrow> u32 \<Rightarrow> heap \<Rightarrow> heap" where
  "split_block ptr ptr2 h =
     (let h = upd_blk ptr2 (\<lambda>b. \<lparr>hm_magic = HEAP_MAGIC, hm_used = 0, hm_next = hm_next (blk h ptr), hm_prev = ptr\<rparr>) h
      in upd_blk ptr (\<lambda>b. b\<lparr>hm_next := ptr2\<rparr>) h)"

definition relink_prev :: "u32 \<Rightarrow> heap \<Rightarrow> heap" where
  "relink_prev ptr2 h =
     (if hm_next (blk h ptr2) \<noteq> mem_size_aligned h + SIZEOF_STRUCT_MEM
      then upd_blk (hm_next (blk h ptr2)) (\<lambda>b. b\<lparr>hm_prev := ptr2\<rparr>) h else h)"

partial_function (option) lfree_loop :: "u32 \<Rightarrow> heap \<Rightarrow> u32 option" where
  "lfree_loop p h =
     (if hm_used (blk h p) \<noteq> 0 \<and> p \<noteq> heap_end h then lfree_loop (hm_next (blk h p)) h else Some p)"

definition malloc_take :: "u32 \<Rightarrow> u32 \<Rightarrow> heap \<Rightarrow> heap" where
  "malloc_take len ptr h =
     (if hm_next (blk h ptr) - (ptr + SIZEOF_STRUCT_MEM) \<ge> len + SIZEOF_STRUCT_MEM + MIN_SIZE_ALIGNED
      then
        (let ptr2 = ptr + SIZEOF_STRUCT_MEM + len;
             h = split_block ptr ptr2 h;
             h = upd_blk ptr (\<lambda>b. b\<lparr>hm_used := 1\<rparr>) h;
             h = relink_prev ptr2 h
         in count_used (len + SIZEOF_STRUCT_MEM) h)
      else
        (let h = upd_blk ptr (\<lambda>b. b\<lparr>hm_used := 1\<rparr>) h
         in count_used (hm_next (blk h ptr) - ptr) h))"

definition malloc_commit :: "u32 \<Rightarrow> u32 \<Rightarrow> heap \<Rightarrow> heap res" where
  "malloc_commit len ptr h =
     (let h = malloc_take len ptr h;
          h = upd_blk ptr (\<lambda>b. b\<lparr>hm_magic := HEAP_MAGIC\<rparr>) h
      in if ptr = lfree h
         then
           (case lfree_loop (lfree h) h of
              None \<Rightarrow> Fault Diverges
            | Some p \<Rightarrow>
                (let h = h\<lparr>lfree := p\<rparr>
                 in rassert (lfree h = heap_end h \<or> hm_used (blk h (lfree h)) = 0) h))
         else Ok h)"

definition rt_malloc :: "u8 \<Rightarrow> u32 \<Rightarrow> heap \<Rightarrow> (u32 option \<times> heap) res" where
  "rt_malloc nest len h =
     rbind (rassert (nest = 0) h) (\<lambda>h.
     if len = 0 then Ok (None, h)
     else
       (let len = rt_align len
        in if len > mem_size_aligned h then Ok (None, h)
           else
             (let len = (if len < MIN_SIZE_ALIGNED then MIN_SIZE_ALIGNED else len)
              in case malloc_search len (lfree h) h of
                   None \<Rightarrow> Fault Diverges
                 | Some None \<Rightarrow> Ok (None, h)
                 | Some (Some ptr) \<Rightarrow>
                     rbind (malloc_commit len ptr h) (\<lambda>h.
                     rbind (rassert (addr h ptr + SIZEOF_STRUCT_MEM + len \<le> addr h (heap_end h)) h) (\<lambda>h.
                     rbind (rassert ((addr h ptr + SIZEOF_STRUCT_MEM) mod 4 = 0) h) (\<lambda>h.
                     rbind (rassert (addr h ptr AND 3 = 0) h) (\<lambda>h.
                     Ok (Some (addr h ptr + SIZEOF_STRUCT_MEM), h))))))))"

definition rt_free :: "u8 \<Rightarrow> u32 option \<Rightarrow> heap \<Rightarrow> heap res" where
  "rt_free nest rmem h =
     rbind (rassert (nest = 0) h) (\<lambda>h.
     case rmem of
       None \<Rightarrow> Ok h
     | Some r \<Rightarrow>
         rbind (rassert (r AND 3 = 0) h) (\<lambda>h.
         rbind (rassert (r \<ge> heap_ptr h \<and> r < addr h (heap_end h)) h) (\<lambda>h.
         (let m = r - SIZEOF_STRUCT_MEM - heap_ptr h
          in rbind (rassert (hm_used (blk h m) \<noteq> 0) h) (\<lambda>h.
             rbind (rassert (hm_magic (blk h m) = HEAP_MAGIC) h) (\<lambda>h.
             (let h = upd_blk m (\<lambda>b. b\<lparr>hm_used := 0, hm_magic := HEAP_MAGIC\<rparr>) h;
                  h = (if addr h m < addr h (lfree h) then h\<lparr>lfree := m\<rparr> else h);
                  h = h\<lparr>used_mem := used_mem h - (hm_next (blk h m) - m)\<rparr>
              in plug_holes m h)))))))"

text \<open>
  Reallocation copies the bytes of the block, in the memory \<open>m\<close>.  To grow a block the code releases \<^verbatim>\<open>heap_sem\<close> and
  then calls \<^verbatim>\<open>rt_malloc\<close>, \<^verbatim>\<open>rt_memcpy\<close> and \<^verbatim>\<open>rt_free\<close>: here the three run in a row, as they do when no other thread
  uses the heap in between.
\<close>

definition rt_realloc :: "u8 \<Rightarrow> u32 option \<Rightarrow> u32 \<Rightarrow> heap \<Rightarrow> mem \<Rightarrow> (u32 option \<times> heap \<times> mem) res" where
  "rt_realloc nest rmem newsize h m =
     rbind (rassert (nest = 0) h) (\<lambda>h.
     (let newsize = rt_align newsize
      in if newsize > mem_size_aligned h then Ok (None, h, m)
         else if newsize = 0 then rbind (rt_free nest rmem h) (\<lambda>h. Ok (None, h, m))
         else
           (case rmem of
              None \<Rightarrow> rbind (rt_malloc nest newsize h) (\<lambda>(p, h). Ok (p, h, m))
            | Some r \<Rightarrow>
                if r < heap_ptr h \<or> r \<ge> addr h (heap_end h) then Ok (Some r, h, m)
                else
                  (let ptr = r - SIZEOF_STRUCT_MEM - heap_ptr h;
                       len = hm_next (blk h ptr) - ptr - SIZEOF_STRUCT_MEM
                   in if len = newsize then Ok (Some r, h, m)
                      else if newsize + SIZEOF_STRUCT_MEM + MIN_SIZE < len
                      then
                        (let h = h\<lparr>used_mem := used_mem h - (len - newsize)\<rparr>;
                             ptr2 = ptr + SIZEOF_STRUCT_MEM + newsize;
                             h = split_block ptr ptr2 h;
                             h = relink_prev ptr2 h
                         in rbind (plug_holes ptr2 h) (\<lambda>h. Ok (Some r, h, m)))
                      else
                        rbind (rt_malloc nest newsize h) (\<lambda>(nmem, h).
                        case nmem of
                          None \<Rightarrow> Ok (None, h, m)
                        | Some p \<Rightarrow>
                            (let m = rt_memcpy p r (unat (if len < newsize then len else newsize)) m
                             in rbind (rt_free nest (Some r) h) (\<lambda>h. Ok (Some p, h, m))))))))"

definition rt_calloc :: "u8 \<Rightarrow> u32 \<Rightarrow> u32 \<Rightarrow> heap \<Rightarrow> mem \<Rightarrow> (u32 option \<times> heap \<times> mem) res" where
  "rt_calloc nest count len h m =
     rbind (rassert (nest = 0) h) (\<lambda>h.
     rbind (rt_malloc nest (count * len) h) (\<lambda>(p, h).
     case p of
       None \<Rightarrow> Ok (None, h, m)
     | Some a \<Rightarrow> Ok (Some a, h, rt_memset a 0 (unat (count * len)) m)))"

definition rt_memory_info :: "heap \<Rightarrow> u32 \<times> u32 \<times> u32" where
  "rt_memory_info h = (mem_size_aligned h, used_mem h, max_mem h)"

end
