(* ===== verification/RT_Heap_Inv.thy ===== *)
theory RT_Heap_Inv
  imports RT_Heap
begin

text \<open>
  The invariant of the system heap: the headers form a chain of aligned blocks from the start of the
  heap to its end, no two neighbours are free, and the statistics are right.  Merging neighbours and
  cutting a block keep the chain; \<open>plug_holes\<close> restores the invariant around a block just freed.
\<close>

section \<open>Arithmetic of offsets\<close>

lemma u32_add: "unat a + unat b < 2 ^ 32 \<Longrightarrow> unat (a + b :: u32) = unat a + unat b"
  using unat_add_lem [of a b] by simp

lemma u32_sub: "unat b \<le> unat a \<Longrightarrow> unat (a - b :: u32) = unat a - unat b"
  by (simp add: unat_sub word_le_nat_alt)

lemma mask_2: "(3 :: u32) = mask 2"
  by (simp add: mask_eq_exp_minus_1)

lemma and_3: "(a :: u32) AND 3 = 0 \<longleftrightarrow> unat a mod 4 = 0"
proof -
  have "unat (a AND 3) = unat a mod 4"
    unfolding mask_2 take_bit_eq_mask [symmetric] by (simp add: take_bit_eq_mod unat_mod)
  then show ?thesis by (simp add: word_unat_eq_iff)
qed

lemma unat_and_not_3: "unat ((a :: u32) AND NOT 3) = 4 * (unat a div 4)"
proof -
  have "a AND NOT 3 = push_bit 2 (drop_bit 2 a)"
    unfolding mask_2
    by (rule bit_eqI) (auto simp: bit_push_bit_iff bit_drop_bit_eq bit_and_iff bit_not_iff bit_mask_iff le_add_diff_inverse
      simp del: add_2_eq_Suc)
  moreover have "unat (a div 4 * 4) = 4 * (unat a div 4)"
  proof -
    have "unat a < 4294967296" using unsigned_less [of a] by simp
    then have "4 * (unat a div 4) < 4294967296" by simp
    then show ?thesis by (simp add: unat_word_ariths unat_div mult.commute)
  qed
  then have "unat (push_bit 2 (drop_bit 2 a)) = 4 * (unat a div 4)"
    by (simp add: push_bit_eq_mult drop_bit_eq_div)
  ultimately show ?thesis by simp
qed

lemma rt_align_nat:
  assumes "unat n + 3 < 2 ^ 32"
  shows "unat (rt_align n) = 4 * ((unat n + 3) div 4)" "unat n \<le> unat (rt_align n)" "unat (rt_align n) < unat n + 4"
    "unat (rt_align n) mod 4 = 0"
proof -
  have "unat (n + 3) = unat n + 3" using assms u32_add [of n 3] by simp
  then show eq: "unat (rt_align n) = 4 * ((unat n + 3) div 4)" unfolding rt_align_def unat_and_not_3 by simp
  show "unat n \<le> unat (rt_align n)" "unat (rt_align n) < unat n + 4" "unat (rt_align n) mod 4 = 0"
    unfolding eq by simp_all
qed

section \<open>The chain of blocks\<close>

text \<open>
  \<open>hseg B p a xs e\<close>: starting at offset \<open>a\<close>, behind \<open>p\<close>, the headers \<open>B\<close> form the blocks \<open>xs\<close>, which end at \<open>e\<close>.
  Blocks ascend, are aligned, and have room for a header and at least four bytes.
\<close>

definition blk_ok :: "(u32 \<Rightarrow> heap_mem) \<Rightarrow> u32 \<Rightarrow> u32 \<Rightarrow> bool" where
  "blk_ok B p a \<longleftrightarrow>
     hm_prev (B a) = p \<and> hm_magic (B a) = HEAP_MAGIC \<and> hm_used (B a) \<in> {0, 1} \<and>
     unat a mod 4 = 0 \<and> unat (hm_next (B a)) mod 4 = 0 \<and> unat a + 16 \<le> unat (hm_next (B a))"

fun hseg :: "(u32 \<Rightarrow> heap_mem) \<Rightarrow> u32 \<Rightarrow> u32 \<Rightarrow> u32 list \<Rightarrow> u32 \<Rightarrow> bool" where
  "hseg B p a [] e \<longleftrightarrow> a = e"
| "hseg B p a (x # xs) e \<longleftrightarrow> x = a \<and> blk_ok B p a \<and> hseg B a (hm_next (B a)) xs e"

lemma hseg_append: "hseg B p a (xs @ ys) e \<longleftrightarrow> (\<exists>m. hseg B p a xs m \<and> hseg B (last (p # xs)) m ys e)"
  by (induction xs arbitrary: p a) auto

lemma hseg_cong: "(\<And>x. x \<in> set xs \<Longrightarrow> B' x = B x) \<Longrightarrow> hseg B' p a xs e = hseg B p a xs e"
  by (induction xs arbitrary: p a) (auto simp: blk_ok_def)

lemma hseg_upd [simp]: "k \<notin> set xs \<Longrightarrow> hseg (B(k := v)) p a xs e = hseg B p a xs e"
  by (rule hseg_cong) auto

lemma hseg_bounds:
  assumes "hseg B p a xs e"
  shows "unat a \<le> unat e" "x \<in> set xs \<Longrightarrow> unat a \<le> unat x \<and> unat x + 16 \<le> unat e" "distinct xs"
proof -
  have *: "unat a \<le> unat e \<and> (\<forall>x \<in> set xs. unat a \<le> unat x \<and> unat x + 16 \<le> unat e) \<and> distinct xs"
    using assms
  proof (induction xs arbitrary: p a)
    case (Cons y xs)
    then have y: "y = a" "unat a + 16 \<le> unat (hm_next (B a))" "hseg B a (hm_next (B a)) xs e"
      by (auto simp: blk_ok_def)
    from Cons.IH [OF y(3)] y(1,2) show ?case by fastforce
  qed simp
  show "unat a \<le> unat e" "distinct xs" "x \<in> set xs \<Longrightarrow> unat a \<le> unat x \<and> unat x + 16 \<le> unat e" using * by auto
qed

lemma hseg_mid:
  assumes "hseg B p a (xs @ m # ys) e"
  shows "hseg B p a xs m" "blk_ok B (last (p # xs)) m" "hseg B m (hm_next (B m)) ys e"
    "hm_next (B m) = hd (ys @ [e])" "m \<notin> set xs" "m \<notin> set ys" "set xs \<inter> set ys = {}" "m \<noteq> e" "e \<notin> set xs" "e \<notin> set ys"
proof -
  show x: "hseg B p a xs m" and b: "blk_ok B (last (p # xs)) m" and y: "hseg B m (hm_next (B m)) ys e"
    using assms by (auto simp: hseg_append)
  show "hm_next (B m) = hd (ys @ [e])" using y by (cases ys) auto
  show "m \<notin> set xs" "m \<notin> set ys" "set xs \<inter> set ys = {}" using hseg_bounds(3) [OF assms] by auto
  have "unat z + 16 \<le> unat e" if "z \<in> set (xs @ m # ys)" for z using hseg_bounds(2) [OF assms that] by blast
  then show "m \<noteq> e" "e \<notin> set xs" "e \<notin> set ys" by fastforce+
qed

lemma hseg_prev_swap:
  assumes "hseg B p a ys e" "B' = B(a := (B a)\<lparr>hm_prev := q\<rparr>)" "a \<notin> set (tl ys)"
  shows "hseg B' q a ys e"
proof (cases ys)
  case Nil
  then show ?thesis using assms by simp
next
  case (Cons y zs)
  then have "y = a" "a \<notin> set zs" using assms by auto
  then show ?thesis using assms Cons by (auto simp: blk_ok_def)
qed

text \<open>Merging two neighbours, and cutting a block in two.\<close>

abbreviation merged :: "u32 \<Rightarrow> u32 \<Rightarrow> (u32 \<Rightarrow> heap_mem) \<Rightarrow> u32 \<Rightarrow> heap_mem" where
  "merged m n B \<equiv> (let B = B(m := (B m)\<lparr>hm_next := hm_next (B n)\<rparr>); k = hm_next (B n) in B(k := (B k)\<lparr>hm_prev := m\<rparr>))"

lemma hseg_merge:
  assumes seg: "hseg B p a (xs @ m # n # ys) e"
  shows "hseg (merged m n B) p a (xs @ m # ys) e" and "x \<noteq> m \<Longrightarrow> hm_next (merged m n B x) = hm_next (B x)"
    and "hm_used (merged m n B x) = hm_used (B x)" and "hm_next (merged m n B m) = hm_next (B n)"
proof -
  note d = hseg_mid [OF seg]
  have mn: "m \<noteq> n" "hm_next (B m) = n" using d(4,6) by auto
  have n: "blk_ok B m n" "hseg B n (hm_next (B n)) ys e" "n \<notin> set xs" "n \<notin> set ys"
    using d(3,6,7) hseg_bounds(3) [OF seg] by auto
  let ?k = "hm_next (B n)"
  have le: "unat n + 16 \<le> unat ?k" "unat m + 16 \<le> unat n" using n(1) d(2) mn by (auto simp: blk_ok_def)
  have k: "?k = hd (ys @ [e])" using n(2) by (cases ys) auto
  have kx: "?k \<notin> set xs" "?k \<noteq> m" "?k \<notin> set (tl ys)"
  proof -
    have "?k \<in> set ys \<union> {e}" using k by (cases ys) auto
    then show "?k \<notin> set xs" "?k \<noteq> m" using d by auto
    show "?k \<notin> set (tl ys)"
      using k d(10) hseg_bounds(3) [OF seg] by (cases ys) auto
  qed
  have M: "merged m n B = (B(m := (B m)\<lparr>hm_next := ?k\<rparr>))(?k := (B ?k)\<lparr>hm_prev := m\<rparr>)"
    using mn kx by (simp add: Let_def)
  show "hm_next (merged m n B x) = hm_next (B x)" if "x \<noteq> m" using that kx(2) unfolding M by simp
  show "hm_used (merged m n B x) = hm_used (B x)" using kx(2) unfolding M by simp
  show "hm_next (merged m n B m) = hm_next (B n)" using kx(2) unfolding M by simp
  have "hseg (merged m n B) p a xs m" unfolding M using d(1,5) kx(1) by simp
  moreover have "blk_ok (merged m n B) (last (p # xs)) m"
    using d(2) le n(1) kx(2) unfolding M blk_ok_def by simp
  moreover have "hseg (merged m n B) m ?k ys e"
  proof -
    have "hseg (B(?k := (B ?k)\<lparr>hm_prev := m\<rparr>)) m ?k ys e"
      by (rule hseg_prev_swap [OF n(2) _ kx(3)]) simp
    moreover have "merged m n B = (B(?k := (B ?k)\<lparr>hm_prev := m\<rparr>))(m := (B m)\<lparr>hm_next := ?k\<rparr>)"
      unfolding M using kx(2) by (simp add: fun_upd_twist)
    moreover have "m \<notin> set ys" using d(6) by simp
    ultimately show ?thesis by (simp only: hseg_upd not_False_eq_True)
  qed
  moreover have "hm_next (merged m n B m) = ?k" using kx(2) unfolding M by simp
  ultimately show "hseg (merged m n B) p a (xs @ m # ys) e" by (auto simp: hseg_append)
qed

text \<open>\<open>cut m c B e\<close> is the store after \<open>split_block\<close> and \<open>relink_prev\<close> at \<open>c\<close>.\<close>

definition cut :: "u32 \<Rightarrow> u32 \<Rightarrow> u32 \<Rightarrow> (u32 \<Rightarrow> heap_mem) \<Rightarrow> u32 \<Rightarrow> heap_mem" where
  "cut m c e B =
     (let k = hm_next (B m);
          B = (B(c := \<lparr>hm_magic = HEAP_MAGIC, hm_used = 0, hm_next = k, hm_prev = m\<rparr>))(m := (B m)\<lparr>hm_next := c\<rparr>)
      in if k \<noteq> e then B(k := (B k)\<lparr>hm_prev := c\<rparr>) else B)"

lemma hseg_cut:
  assumes seg: "hseg B p a (xs @ m # ys) e" and c: "unat m + 16 \<le> unat c" "unat c + 16 \<le> unat (hm_next (B m))" "unat c mod 4 = 0"
  shows "hseg (cut m c e B) p a (xs @ m # c # ys) e" and "c \<notin> set (xs @ m # ys)"
    and "x \<noteq> m \<Longrightarrow> x \<noteq> c \<Longrightarrow> hm_next (cut m c e B x) = hm_next (B x)" and "x \<noteq> c \<Longrightarrow> hm_used (cut m c e B x) = hm_used (B x)"
    and "hm_next (cut m c e B m) = c" and "hm_next (cut m c e B c) = hm_next (B m)" and "hm_used (cut m c e B c) = 0"
proof -
  note d = hseg_mid [OF seg]
  let ?k = "hm_next (B m)"
  have kin: "?k \<in> set ys \<union> {e}" using d(4) by (cases ys) auto
  have xs: "unat x < unat m" if "x \<in> set xs" for x using hseg_bounds(2) [OF d(1) that] by simp
  have ys: "unat ?k \<le> unat y" if "y \<in> set ys" for y using hseg_bounds(2) [OF d(3) that] by simp
  show cn: "c \<notin> set (xs @ m # ys)" using xs ys c by fastforce
  have ce: "c \<noteq> e" "c \<noteq> m" "c \<noteq> ?k" using c hseg_bounds(1) [OF d(3)] by auto
  have km: "?k \<noteq> m" "?k \<notin> set xs" "?k \<notin> set (tl ys)"
  proof -
    show "?k \<noteq> m" using d(2) by (auto simp: blk_ok_def)
    show "?k \<notin> set xs" using kin d by auto
    show "?k \<notin> set (tl ys)" using d(4,10) hseg_bounds(3) [OF seg] by (cases ys) auto
  qed
  define B1 where "B1 = (B(c := \<lparr>hm_magic = HEAP_MAGIC, hm_used = 0, hm_next = ?k, hm_prev = m\<rparr>))(m := (B m)\<lparr>hm_next := c\<rparr>)"
  have C: "cut m c e B = (if ?k \<noteq> e then B1(?k := (B ?k)\<lparr>hm_prev := c\<rparr>) else B1)"
    using km(1) ce(3) by (simp add: cut_def B1_def Let_def)
  show "hm_next (cut m c e B x) = hm_next (B x)" if "x \<noteq> m" "x \<noteq> c" using that unfolding C by (simp add: B1_def)
  show "hm_used (cut m c e B x) = hm_used (B x)" if "x \<noteq> c" using that km unfolding C by (simp add: B1_def)
  show nm: "hm_next (cut m c e B m) = c" and nc: "hm_next (cut m c e B c) = ?k" and "hm_used (cut m c e B c) = 0"
    using km ce unfolding C by (simp_all add: B1_def)
  have "hseg (cut m c e B) p a xs m" using d(1,5) cn km unfolding C by (simp add: B1_def)
  moreover have "blk_ok (cut m c e B) (last (p # xs)) m"
    using d(2) c km ce unfolding C blk_ok_def by (simp add: B1_def)
  moreover have "blk_ok (cut m c e B) m c"
    unfolding blk_ok_def nc using d(2) c km ce unfolding C blk_ok_def by (simp add: B1_def)
  moreover have "hseg (cut m c e B) c ?k ys e"
  proof (cases "?k = e")
    case True
    then have "ys = []" using d(4,10) by (cases ys) auto
    then show ?thesis using True by simp
  next
    case False
    have "hseg (B(?k := (B ?k)\<lparr>hm_prev := c\<rparr>)) c ?k ys e"
      by (rule hseg_prev_swap [OF d(3) _ km(3)]) simp
    moreover have "cut m c e B = ((B(?k := (B ?k)\<lparr>hm_prev := c\<rparr>))(c := \<lparr>hm_magic = HEAP_MAGIC, hm_used = 0, hm_next = ?k, hm_prev = m\<rparr>))(m := (B m)\<lparr>hm_next := c\<rparr>)"
      using False km(1) ce(3) unfolding C by (auto simp: B1_def fun_eq_iff)
    moreover have "m \<notin> set ys" "c \<notin> set ys" using d(6) cn by simp_all
    ultimately show ?thesis by (simp only: hseg_upd not_False_eq_True)
  qed
  ultimately show "hseg (cut m c e B) p a (xs @ m # c # ys) e" using nm nc by (auto simp: hseg_append)
qed

section \<open>The heap invariant\<close>

abbreviation taken :: "heap \<Rightarrow> u32 \<Rightarrow> bool" where
  "taken h b \<equiv> hm_used (blk h b) \<noteq> 0"

text \<open>No two neighbours are free, and the statistics count the blocks in use, headers included.\<close>

definition coal :: "heap \<Rightarrow> u32 list \<Rightarrow> bool" where
  "coal h = successively (\<lambda>x y. taken h x \<or> taken h y)"

definition used_sum :: "heap \<Rightarrow> u32 list \<Rightarrow> u32" where
  "used_sum h bs = (\<Sum>b\<leftarrow>bs. if taken h b then hm_next (blk h b) - b else 0)"

definition heap_shape :: "heap \<Rightarrow> u32 list \<Rightarrow> bool" where
  "heap_shape h bs \<longleftrightarrow>
     bs \<noteq> [] \<and> hseg (blk h) 0 0 bs (heap_end h) \<and> heap_end h = mem_size_aligned h + SIZEOF_STRUCT_MEM \<and>
     unat (heap_ptr h) + unat (mem_size_aligned h) + 24 < 2 ^ 32 \<and> unat (heap_ptr h) mod 4 = 0 \<and>
     unat (mem_size_aligned h) mod 4 = 0 \<and> taken h (heap_end h) \<and> lfree h \<in> set bs \<union> {heap_end h} \<and>
     used_mem h = used_sum h bs"

definition heap_wf :: "heap \<Rightarrow> u32 list \<Rightarrow> bool" where
  "heap_wf h bs \<longleftrightarrow> heap_shape h bs \<and> coal h bs"

text \<open>Everything below \<^verbatim>\<open>lfree\<close> is in use.\<close>

definition lfree_low :: "heap \<Rightarrow> u32 list \<Rightarrow> bool" where
  "lfree_low h bs \<longleftrightarrow> (\<forall>b \<in> set bs. unat b < unat (lfree h) \<longrightarrow> taken h b)"

lemma heap_shape_nat:
  assumes "heap_shape h bs"
  shows "unat (heap_end h) = unat (mem_size_aligned h) + 12"
    and "unat (heap_ptr h) + unat (heap_end h) + 12 < 2 ^ 32"
    and "x \<le> heap_end h \<Longrightarrow> unat (addr h x) = unat (heap_ptr h) + unat x"
    and "x \<in> set bs \<Longrightarrow> unat x + 16 \<le> unat (heap_end h)"
proof -
  have e: "heap_end h = mem_size_aligned h + 12" "unat (heap_ptr h) + unat (mem_size_aligned h) + 24 < 2 ^ 32"
    using assms by (simp_all add: heap_shape_def)
  then show n: "unat (heap_end h) = unat (mem_size_aligned h) + 12" using u32_add [of "mem_size_aligned h" 12] by simp
  then show m: "unat (heap_ptr h) + unat (heap_end h) + 12 < 2 ^ 32" using e by simp
  show "unat (addr h x) = unat (heap_ptr h) + unat x" if "x \<le> heap_end h"
    unfolding addr_def using that m by (intro u32_add) (simp add: word_le_nat_alt)
  show "unat x + 16 \<le> unat (heap_end h)" if "x \<in> set bs"
  proof -
    have "hseg (blk h) 0 0 bs (heap_end h)" using assms unfolding heap_shape_def by blast
    from hseg_bounds(2) [OF this that] show ?thesis by simp
  qed
qed

text \<open>The blocks handed out: where each header is and where the block ends.\<close>

definition allocs :: "heap \<Rightarrow> u32 list \<Rightarrow> (u32 \<times> u32) set" where
  "allocs h bs = (\<lambda>b. (b, hm_next (blk h b))) ` {b \<in> set bs. taken h b}"

lemma allocs_eqI:
  assumes "\<And>b. b \<in> set bs' \<and> taken h' b \<longleftrightarrow> b \<in> set bs \<and> taken h b"
    and "\<And>b. b \<in> set bs \<Longrightarrow> taken h b \<Longrightarrow> hm_next (blk h' b) = hm_next (blk h b)"
  shows "allocs h' bs' = allocs h bs"
  unfolding allocs_def using assms by (intro image_cong) auto

lemma coal_append:
  "coal h (xs @ ys) \<longleftrightarrow> coal h xs \<and> coal h ys \<and> (xs = [] \<or> ys = [] \<or> taken h (last xs) \<or> taken h (hd ys))"
  by (auto simp: coal_def successively_append_iff)

lemma coal_Cons: "coal h (x # ys) \<longleftrightarrow> coal h ys \<and> (ys = [] \<or> taken h x \<or> taken h (hd ys))"
  by (cases ys) (auto simp: coal_def)

lemma coal_cong: "(\<And>x. x \<in> set xs \<Longrightarrow> taken h' x = taken h x) \<Longrightarrow> coal h' xs = coal h xs"
  unfolding coal_def by (rule successively_cong) auto

lemma used_sum_append [simp]: "used_sum h (xs @ ys) = used_sum h xs + used_sum h ys"
  by (simp add: used_sum_def)

lemma used_sum_Cons [simp]: "used_sum h (x # xs) = (if taken h x then hm_next (blk h x) - x else 0) + used_sum h xs"
  by (simp add: used_sum_def)

lemma used_sum_Nil [simp]: "used_sum h [] = 0"
  by (simp add: used_sum_def)

lemma used_sum_cong:
  "(\<And>x. x \<in> set xs \<Longrightarrow> taken h' x = taken h x \<and> hm_next (blk h' x) = hm_next (blk h x)) \<Longrightarrow> used_sum h' xs = used_sum h xs"
  by (induction xs) auto

lemma heap_shape_cut_at:
  assumes "heap_shape h (xs @ m # ys)"
  shows "hseg (blk h) 0 0 (xs @ m # ys) (heap_end h)"
  using assms unfolding heap_shape_def by blast

lemma hseg_first: "hseg B p a (x # xs) e \<Longrightarrow> x = a"
  by simp

definition heap_frame :: "heap \<Rightarrow> heap \<Rightarrow> bool" where
  "heap_frame h h' \<longleftrightarrow> heap_ptr h' = heap_ptr h \<and> heap_end h' = heap_end h \<and> mem_size_aligned h' = mem_size_aligned h"

lemma heap_frame_refl [simp]: "heap_frame h h"
  by (simp add: heap_frame_def)

lemma heap_frame_trans [trans]: "heap_frame h h1 \<Longrightarrow> heap_frame h1 h2 \<Longrightarrow> heap_frame h h2"
  by (simp add: heap_frame_def)

lemma heap_frame_addr: "heap_frame h h' \<Longrightarrow> addr h' x = addr h x"
  by (simp add: heap_frame_def addr_def)

text \<open>A merge of free neighbours changes neither what is handed out nor what is counted.\<close>

lemma merge_shape:
  assumes sh: "heap_shape h (xs @ m # n # ys)" and free: "\<not> taken h m" "\<not> taken h n"
    and h': "h' = h\<lparr>lfree := (if lfree h = n then m else lfree h), blk := merged m n (blk h)\<rparr>"
  shows "heap_shape h' (xs @ m # ys)" "allocs h' (xs @ m # ys) = allocs h (xs @ m # n # ys)" "taken h' x = taken h x"
    and "lfree_low h (xs @ m # n # ys) \<Longrightarrow> lfree_low h' (xs @ m # ys)"
proof -
  note seg = heap_shape_cut_at [OF sh]
  note mg = hseg_merge [OF seg]
  have B: "blk h' = merged m n (blk h)" by (simp add: h')
  have f: "heap_end h' = heap_end h" "heap_ptr h' = heap_ptr h" "mem_size_aligned h' = mem_size_aligned h"
      "used_mem h' = used_mem h" "lfree h' = (if lfree h = n then m else lfree h)"
    by (simp_all add: h')
  show tk: "taken h' x = taken h x" for x by (simp only: B mg(3))
  have nx: "hm_next (blk h' x) = hm_next (blk h x)" if "x \<noteq> m" for x using mg(2) [OF that] by (simp only: B)
  have d: "distinct (xs @ m # n # ys)" by (rule hseg_bounds(3) [OF seg])
  have "used_sum h' (xs @ m # ys) = used_sum h (xs @ m # n # ys)"
  proof -
    have "x \<noteq> m" if "x \<in> set xs \<or> x \<in> set ys" for x using that d by auto
    then have "used_sum h' xs = used_sum h xs" "used_sum h' ys = used_sum h ys"
      using tk nx by (auto intro!: used_sum_cong)
    then show ?thesis using free tk by simp
  qed
  moreover have "hseg (blk h') 0 0 (xs @ m # ys) (heap_end h)" unfolding B by (rule mg(1))
  ultimately show "heap_shape h' (xs @ m # ys)"
    using sh tk [of "heap_end h"] f unfolding heap_shape_def by auto
  show "allocs h' (xs @ m # ys) = allocs h (xs @ m # n # ys)"
  proof (rule allocs_eqI)
    show "b \<in> set (xs @ m # ys) \<and> taken h' b \<longleftrightarrow> b \<in> set (xs @ m # n # ys) \<and> taken h b" for b
      using free tk [of b] by auto
    show "hm_next (blk h' b) = hm_next (blk h b)" if "taken h b" for b using that free(1) nx [of b] by auto
  qed
  show "lfree_low h' (xs @ m # ys)" if low: "lfree_low h (xs @ m # n # ys)"
  proof -
    have "unat m < unat n" using hseg_mid(2,4) [OF seg] by (auto simp: blk_ok_def)
    then have "lfree h \<noteq> n" using low free by (auto simp: lfree_low_def)
    then have "lfree h' = lfree h" by (simp add: h')
    then show ?thesis using low tk unfolding lfree_low_def by auto
  qed
qed

lemma plug_forward_ok:
  assumes sh: "heap_shape h (xs @ m # ys)" and free: "\<not> taken h m" and co: "coal h ys"
  obtains zs where "heap_shape (plug_forward m h) (xs @ m # zs)" "allocs (plug_forward m h) (xs @ m # zs) = allocs h (xs @ m # ys)"
    "coal h zs" "zs = [] \<or> taken h (hd zs)" "\<And>x. taken (plug_forward m h) x = taken h x"
    "lfree_low h (xs @ m # ys) \<Longrightarrow> lfree_low (plug_forward m h) (xs @ m # zs)"
    "heap_frame h (plug_forward m h)"
proof (cases "ys = [] \<or> taken h (hd ys)")
  case True
  have "hm_next (blk h m) = hd (ys @ [heap_end h])" using hseg_mid(4) [OF heap_shape_cut_at [OF sh]] .
  then have "plug_forward m h = h"
    using True by (cases ys) (auto simp: plug_forward_def Let_def)
  then show ?thesis using that [of ys] sh co True by simp
next
  case False
  then obtain n zs where ys: "ys = n # zs" "\<not> taken h n" by (cases ys) auto
  have sh': "heap_shape h (xs @ m # n # zs)" using sh ys by simp
  note d = hseg_mid [OF heap_shape_cut_at [OF sh']]
  have "hm_next (blk h m) = n" using d(4) by simp
  then have eq: "plug_forward m h = h\<lparr>lfree := (if lfree h = n then m else lfree h), blk := merged m n (blk h)\<rparr>"
    using ys(2) d(6,10) by (auto simp: plug_forward_def Let_def)
  note mg = merge_shape [OF sh' free ys(2) eq]
  have "heap_frame h (plug_forward m h)" by (simp add: eq heap_frame_def)
  then show ?thesis using that [of zs] mg co ys by (auto simp: coal_Cons)
qed

lemma plug_backward_ok:
  assumes sh: "heap_shape h (xs @ m # ys)" and free: "\<not> taken h m"
    and co: "coal h xs" "coal h ys" "ys = [] \<or> taken h (hd ys)"
  obtains bs where "heap_wf (plug_backward m h) bs" "allocs (plug_backward m h) bs = allocs h (xs @ m # ys)"
    "lfree_low h (xs @ m # ys) \<Longrightarrow> lfree_low (plug_backward m h) bs"
    "heap_frame h (plug_backward m h)"
proof (cases "xs = [] \<or> taken h (last xs)")
  case True
  note seg = heap_shape_cut_at [OF sh]
  have pv: "hm_prev (blk h m) = last (0 # xs)" using hseg_mid(2) [OF seg] by (simp add: blk_ok_def)
  have "plug_backward m h = h"
  proof (cases "xs = []")
    case True
    then have "m = 0" using seg by simp
    then show ?thesis using pv True by (simp add: plug_backward_def)
  next
    case False
    then show ?thesis using pv \<open>xs = [] \<or> taken h (last xs)\<close> by (simp add: plug_backward_def)
  qed
  moreover have "coal h (xs @ m # ys)" using co True by (auto simp: coal_append coal_Cons)
  ultimately show ?thesis using that [of "xs @ m # ys"] sh by (simp add: heap_wf_def)
next
  case False
  then obtain ws p where xs: "xs = ws @ [p]" "\<not> taken h p" by (cases xs rule: rev_cases) auto
  have sh': "heap_shape h (ws @ p # m # ys)" using sh xs by simp
  note d = hseg_mid [OF heap_shape_cut_at [OF sh]]
  have pm: "hm_prev (blk h m) = p" "p \<noteq> m" using d(2,5) xs by (auto simp: blk_ok_def)
  then have eq: "plug_backward m h = h\<lparr>lfree := (if lfree h = m then p else lfree h), blk := merged p m (blk h)\<rparr>"
    using xs(2) by (auto simp: plug_backward_def Let_def)
  note mg = merge_shape [OF sh' xs(2) free eq]
  have "coal (plug_backward m h) (ws @ p # ys)"
  proof -
    have "coal h (ws @ p # ys)" using co xs by (auto simp: coal_append coal_Cons)
    then show ?thesis using coal_cong [of "ws @ p # ys" "plug_backward m h" h] mg(3) by blast
  qed
  moreover have "heap_frame h (plug_backward m h)" by (simp add: eq heap_frame_def)
  ultimately show ?thesis using that [of "ws @ p # ys"] mg(1,2,4) xs by (auto simp: heap_wf_def)
qed

lemma plug_holes_ok:
  assumes sh: "heap_shape h (xs @ m # ys)" and free: "\<not> taken h m" and co: "coal h xs" "coal h ys"
  obtains h' bs where "plug_holes m h = Ok h'" "heap_wf h' bs" "allocs h' bs = allocs h (xs @ m # ys)"
    "lfree_low h (xs @ m # ys) \<Longrightarrow> lfree_low h' bs" "heap_frame h h'"
proof -
  have m: "m \<in> set (xs @ m # ys)" by simp
  have me: "m \<le> heap_end h" using heap_shape_nat(4) [OF sh m] by (simp add: word_le_nat_alt)
  have a: "heap_ptr h \<le> addr h m" "addr h m < addr h (heap_end h)"
    using heap_shape_nat(3) [OF sh me] heap_shape_nat(3) [OF sh order_refl] heap_shape_nat(4) [OF sh m]
    by (simp_all add: word_le_nat_alt word_less_nat_alt)
  define h1 where "h1 = plug_forward m h"
  obtain zs where z: "heap_shape h1 (xs @ m # zs)" "allocs h1 (xs @ m # zs) = allocs h (xs @ m # ys)"
      "coal h zs" "zs = [] \<or> taken h (hd zs)" "\<And>x. taken h1 x = taken h x"
      "lfree_low h (xs @ m # ys) \<Longrightarrow> lfree_low h1 (xs @ m # zs)" "heap_frame h h1"
    unfolding h1_def by (rule plug_forward_ok [OF sh free co(2)]) blast
  have c1: "coal h1 xs" "coal h1 zs" "zs = [] \<or> taken h1 (hd zs)" "\<not> taken h1 m"
    using coal_cong [of xs h1 h] coal_cong [of zs h1 h] z(3,4,5) co(1) free by blast+
  obtain bs where b: "heap_wf (plug_backward m h1) bs" "allocs (plug_backward m h1) bs = allocs h1 (xs @ m # zs)"
      "lfree_low h1 (xs @ m # zs) \<Longrightarrow> lfree_low (plug_backward m h1) bs"
      "heap_frame h1 (plug_backward m h1)"
    by (rule plug_backward_ok [OF z(1) c1(4) c1(1-3)]) blast
  show ?thesis
  proof (rule that)
    show "plug_holes m h = Ok (plug_backward m h1)" using a free by (simp add: plug_holes_def h1_def)
    show "heap_frame h (plug_backward m h1)" using heap_frame_trans [OF z(7) b(4)] .
  qed (use b z(2,6) in auto)
qed

end
