(* ===== verification/RT_Heap_Props.thy ===== *)
theory RT_Heap_Props
  imports RT_Heap_Inv
begin

text \<open>
  What \<^verbatim>\<open>rt_free\<close>, \<^verbatim>\<open>rt_malloc\<close>, \<^verbatim>\<open>rt_realloc\<close> and \<^verbatim>\<open>rt_calloc\<close> do to the blocks that are handed out, and
  the invariant in every heap that is reached.
\<close>

section \<open>Freeing\<close>

lemma hseg_used:
  assumes "u \<in> {0, 1}" "hseg B p a xs e"
  shows "hseg (B(b := (B b)\<lparr>hm_used := u, hm_magic := HEAP_MAGIC\<rparr>)) p a xs e"
  using assms(2) by (induction xs arbitrary: p a) (use assms(1) in \<open>auto simp: blk_ok_def\<close>)

lemma heap_addr:
  assumes sh: "heap_shape h bs" and b: "b \<in> set bs"
  shows "unat (addr h b + 12) = unat (heap_ptr h) + unat b + 12" "(addr h b + 12) - 12 - heap_ptr h = b"
    and "(addr h b + 12) AND 3 = 0" "heap_ptr h \<le> addr h b + 12" "addr h b + 12 < addr h (heap_end h)"
proof -
  have le: "unat b + 16 \<le> unat (heap_end h)" by (rule heap_shape_nat(4) [OF sh b])
  have ab: "unat (addr h b) = unat (heap_ptr h) + unat b"
    using heap_shape_nat(3) [OF sh, of b] le by (simp add: word_le_nat_alt)
  show n: "unat (addr h b + 12) = unat (heap_ptr h) + unat b + 12"
    using u32_add [of "addr h b" 12] ab le heap_shape_nat(2) [OF sh] by simp
  show "(addr h b + 12) - 12 - heap_ptr h = b" by (simp add: addr_def)
  have "unat b mod 4 = 0"
  proof -
    obtain xs ys where "bs = xs @ b # ys" using b by (auto simp: in_set_conv_decomp)
    then show ?thesis using hseg_mid(2) [of "blk h" 0 0 xs b ys "heap_end h"] sh by (auto simp: heap_shape_def blk_ok_def)
  qed
  moreover have "unat (heap_ptr h) mod 4 = 0" using sh unfolding heap_shape_def by blast
  ultimately have "(unat (heap_ptr h) + unat b + 12) mod 4 = 0" by presburger
  then show "(addr h b + 12) AND 3 = 0" unfolding and_3 n .
  show "heap_ptr h \<le> addr h b + 12" using n by (simp add: word_le_nat_alt)
  show "addr h b + 12 < addr h (heap_end h)"
    using n le heap_shape_nat(3) [OF sh order_refl] by (simp add: word_less_nat_alt)
qed

lemma free_ok:
  assumes wf: "heap_wf h bs" and b: "b \<in> set bs" "taken h b"
  obtains h' bs' where "rt_free 0 (Some (addr h b + SIZEOF_STRUCT_MEM)) h = Ok h'" "heap_wf h' bs'"
    "allocs h' bs' = allocs h bs - {(b, hm_next (blk h b))}" "lfree_low h bs \<Longrightarrow> lfree_low h' bs'"
    "heap_frame h h'"
proof -
  have sh: "heap_shape h bs" using wf by (simp add: heap_wf_def)
  obtain xs ys where bs: "bs = xs @ b # ys" using b(1) by (auto simp: in_set_conv_decomp)
  note seg = heap_shape_cut_at [OF sh [unfolded bs]]
  note d = hseg_mid [OF seg]
  have mg: "hm_magic (blk h b) = HEAP_MAGIC" using d(2) by (simp add: blk_ok_def)
  define h1 where "h1 = h\<lparr>blk := (blk h)(b := (blk h b)\<lparr>hm_used := 0, hm_magic := HEAP_MAGIC\<rparr>),
     lfree := (if addr h b < addr h (lfree h) then b else lfree h), used_mem := used_mem h - (hm_next (blk h b) - b)\<rparr>"
  have f1: "heap_end h1 = heap_end h" "heap_ptr h1 = heap_ptr h" "mem_size_aligned h1 = mem_size_aligned h"
      "used_mem h1 = used_mem h - (hm_next (blk h b) - b)" "lfree h1 \<in> {b, lfree h}"
    by (simp_all add: h1_def)
  have B1: "blk h1 = (blk h)(b := (blk h b)\<lparr>hm_used := 0, hm_magic := HEAP_MAGIC\<rparr>)" by (simp add: h1_def)
  have tk: "taken h1 x \<longleftrightarrow> taken h x \<and> x \<noteq> b" and nx: "hm_next (blk h1 x) = hm_next (blk h x)" for x by (simp_all add: B1)
  have "used_sum h1 xs = used_sum h xs" "used_sum h1 ys = used_sum h ys"
    using d(5,6) tk nx by (auto intro!: used_sum_cong)
  then have "used_sum h1 bs = used_sum h bs - (hm_next (blk h b) - b)" using b(2) tk [of b] by (simp add: bs)
  moreover have "hseg (blk h1) 0 0 bs (heap_end h)" unfolding B1 using hseg_used [OF _ seg, of 0 b] bs by simp
  ultimately have sh1: "heap_shape h1 (xs @ b # ys)"
    using sh f1 tk [of "heap_end h"] d(8) b(1) unfolding heap_shape_def bs by auto
  have co: "coal h1 xs" "coal h1 ys"
    using wf coal_cong [of xs h1 h] coal_cong [of ys h1 h] tk d(5,6)
    by (auto simp: heap_wf_def bs coal_append coal_Cons)
  have ff: "\<not> taken h1 b" using tk by blast
  obtain h' bs' where p: "plug_holes b h1 = Ok h'" "heap_wf h' bs'" "allocs h' bs' = allocs h1 (xs @ b # ys)"
      "lfree_low h1 (xs @ b # ys) \<Longrightarrow> lfree_low h' bs'" "heap_frame h1 h'"
    by (rule plug_holes_ok [OF sh1 ff co]) blast
  note ha = heap_addr [OF sh b(1)]
  have "rt_free 0 (Some (addr h b + SIZEOF_STRUCT_MEM)) h = plug_holes b h1"
    using ha b(2) mg by (simp add: rt_free_def Let_def h1_def addr_def)
  then have ok: "rt_free 0 (Some (addr h b + SIZEOF_STRUCT_MEM)) h = Ok h'" using p(1) by simp
  have al: "allocs h1 (xs @ b # ys) = allocs h bs - {(b, hm_next (blk h b))}"
    unfolding allocs_def using tk nx by (auto simp: bs)
  have low: "lfree_low h1 (xs @ b # ys)" if lo: "lfree_low h bs"
  proof -
    have "unat (addr h b) = unat (heap_ptr h) + unat b"
      using heap_shape_nat(3,4) [OF sh, of b] b(1) by (simp add: word_le_nat_alt)
    moreover have "unat (addr h (lfree h)) = unat (heap_ptr h) + unat (lfree h)"
    proof -
      have "lfree h \<in> set bs \<union> {heap_end h}" using sh unfolding heap_shape_def by blast
      then have "lfree h \<le> heap_end h" using heap_shape_nat(4) [OF sh, of "lfree h"] by (auto simp: word_le_nat_alt)
      then show ?thesis by (rule heap_shape_nat(3) [OF sh])
    qed
    ultimately have l1: "lfree h1 = (if unat b < unat (lfree h) then b else lfree h)"
      by (simp add: h1_def word_less_nat_alt)
    show ?thesis unfolding lfree_low_def
    proof (intro ballI impI)
      fix x assume x: "x \<in> set (xs @ b # ys)" "unat x < unat (lfree h1)"
      then have "unat x < unat (lfree h)" "x \<noteq> b" using l1 by (auto split: if_splits)
      then show "taken h1 x" using lo x(1) bs tk by (auto simp: lfree_low_def)
    qed
  qed
  have "heap_frame h h1" by (simp add: heap_frame_def f1)
  then have "heap_frame h h'" using p(5) by (rule heap_frame_trans)
  then show ?thesis using that [OF ok p(2)] p(3,4) al low by simp
qed

section \<open>Allocating\<close>

definition fits :: "heap \<Rightarrow> u32 \<Rightarrow> u32 \<Rightarrow> bool" where
  "fits h len b \<longleftrightarrow> \<not> taken h b \<and> unat b + 12 + unat len \<le> unat (hm_next (blk h b))"

lemma shape_next:
  assumes sh: "heap_shape h (xs @ b # ys)"
  shows "unat b + 16 \<le> unat (hm_next (blk h b))" "unat (hm_next (blk h b)) \<le> unat (mem_size_aligned h) + 12"
    and "hm_next (blk h b) = hd (ys @ [heap_end h])" "unat (hm_next (blk h b) - (b + 12)) = unat (hm_next (blk h b)) - unat b - 12"
    and "unat b mod 4 = 0" "unat (hm_next (blk h b)) mod 4 = 0"
proof -
  note d = hseg_mid [OF heap_shape_cut_at [OF sh]]
  show n: "unat b + 16 \<le> unat (hm_next (blk h b))" and "hm_next (blk h b) = hd (ys @ [heap_end h])"
    and "unat b mod 4 = 0" "unat (hm_next (blk h b)) mod 4 = 0"
    using d(2,4) by (simp_all add: blk_ok_def)
  show m: "unat (hm_next (blk h b)) \<le> unat (mem_size_aligned h) + 12"
    using hseg_bounds(1) [OF d(3)] heap_shape_nat(1) [OF sh] by simp
  have "unat (b + 12) = unat b + 12"
    using u32_add [of b 12] n m heap_shape_nat(1,2) [OF sh] by simp
  then show "unat (hm_next (blk h b) - (b + 12)) = unat (hm_next (blk h b)) - unat b - 12"
    using n u32_sub [of "b + 12" "hm_next (blk h b)"] by simp
qed

lemma malloc_search_spec:
  assumes sh: "heap_shape h (pre @ rest)" and len: "len \<le> mem_size_aligned h"
  shows "malloc_search len (hd (rest @ [heap_end h])) h =
    Some (find (fits h len) (takeWhile (\<lambda>b. b < mem_size_aligned h - len) rest))"
  using sh
proof (induction rest arbitrary: pre)
  case Nil
  have "mem_size_aligned h - len \<le> mem_size_aligned h" using len by (simp add: word_sub_le)
  then have "\<not> heap_end h < mem_size_aligned h - len"
    using heap_shape_nat(1) [OF Nil] by (simp add: word_less_nat_alt word_le_nat_alt)
  then show ?case by (subst malloc_search.simps) simp
next
  case (Cons b rest)
  note nx = shape_next [OF Cons.prems]
  have f: "hm_used (blk h b) = 0 \<and> len \<le> hm_next (blk h b) - (b + 12) \<longleftrightarrow> fits h len b"
    using nx by (auto simp: fits_def word_le_nat_alt)
  have IH: "malloc_search len (hd (rest @ [heap_end h])) h = Some (find (fits h len) (takeWhile (\<lambda>b. b < mem_size_aligned h - len) rest))"
    using Cons.IH [of "pre @ [b]"] Cons.prems by simp
  show ?case by (subst malloc_search.simps) (simp add: f [unfolded nx(3)] IH nx(3))
qed

lemma lfree_loop_spec:
  assumes sh: "heap_shape h (pre @ rest)"
  shows "lfree_loop (hd (rest @ [heap_end h])) h = Some (hd (dropWhile (taken h) rest @ [heap_end h]))"
  using sh
proof (induction rest arbitrary: pre)
  case Nil
  show ?case by (subst lfree_loop.simps) simp
next
  case (Cons b rest)
  have "b \<noteq> heap_end h" using hseg_mid(8) [OF heap_shape_cut_at [OF Cons.prems]] .
  moreover have "lfree_loop (hd (rest @ [heap_end h])) h = Some (hd (dropWhile (taken h) rest @ [heap_end h]))"
    using Cons.IH [of "pre @ [b]"] Cons.prems by simp
  ultimately show ?case using shape_next(3) [OF Cons.prems] by (subst lfree_loop.simps) simp
qed

text \<open>Marking a free block as used, and cutting it first when the rest is big enough.\<close>

lemma count_used_fields [simp]:
  "blk (count_used n h) = blk h" "heap_ptr (count_used n h) = heap_ptr h" "heap_end (count_used n h) = heap_end h"
  "mem_size_aligned (count_used n h) = mem_size_aligned h" "lfree (count_used n h) = lfree h"
  "used_mem (count_used n h) = used_mem h + n"
  by (simp_all add: count_used_def Let_def)

abbreviation marked :: "u32 \<Rightarrow> (u32 \<Rightarrow> heap_mem) \<Rightarrow> u32 \<Rightarrow> heap_mem" where
  "marked b B \<equiv> B(b := (B b)\<lparr>hm_used := 1, hm_magic := HEAP_MAGIC\<rparr>)"

definition malloc_mark :: "u32 \<Rightarrow> u32 \<Rightarrow> heap \<Rightarrow> heap" where
  "malloc_mark len b h = upd_blk b (\<lambda>m. m\<lparr>hm_magic := HEAP_MAGIC\<rparr>) (malloc_take len b h)"

lemma malloc_mark_fields:
  assumes sh: "heap_shape h (xs @ b # ys)"
  shows "heap_frame h (malloc_mark len b h)" "lfree (malloc_mark len b h) = lfree h"
  by (auto simp: malloc_mark_def malloc_take_def split_block_def relink_prev_def heap_frame_def Let_def)

lemma malloc_mark_blk:
  assumes sh: "heap_shape h (xs @ b # ys)" and len: "unat len \<le> unat (mem_size_aligned h)"
  shows "unat (hm_next (blk h b)) < unat b + unat len + 36 \<Longrightarrow>
      blk (malloc_mark len b h) = marked b (blk h) \<and> used_mem (malloc_mark len b h) = used_mem h + (hm_next (blk h b) - b)"
    and "unat b + unat len + 36 \<le> unat (hm_next (blk h b)) \<Longrightarrow>
      blk (malloc_mark len b h) = marked b (cut b (b + 12 + len) (heap_end h) (blk h)) \<and> used_mem (malloc_mark len b h) = used_mem h + (len + 12)"
proof -
  note nx = shape_next [OF sh]
  have l: "unat (len + 12 + 12) = unat len + 24"
    using u32_add [of len 12] u32_add [of "len + 12" 12] len heap_shape_nat(1,2) [OF sh] by simp
  have c: "hm_next (blk h b) - (b + 12) \<ge> len + 12 + 12 \<longleftrightarrow> unat b + unat len + 36 \<le> unat (hm_next (blk h b))"
    using l nx by (auto simp: word_le_nat_alt)
  show "blk (malloc_mark len b h) = marked b (blk h) \<and> used_mem (malloc_mark len b h) = used_mem h + (hm_next (blk h b) - b)"
    if "unat (hm_next (blk h b)) < unat b + unat len + 36"
    using that c by (simp add: malloc_mark_def malloc_take_def Let_def)
  show "blk (malloc_mark len b h) = marked b (cut b (b + 12 + len) (heap_end h) (blk h)) \<and> used_mem (malloc_mark len b h) = used_mem h + (len + 12)"
    if big: "unat b + unat len + 36 \<le> unat (hm_next (blk h b))"
  proof -
    have e: "heap_end h = mem_size_aligned h + 12" using sh unfolding heap_shape_def by blast
    have "unat (b + 12 + len) = unat b + 12 + unat len"
      using u32_add [of b 12] u32_add [of "b + 12" len] big nx(2) heap_shape_nat(1,2) [OF sh] by simp
    then have "unat (b + 12 + len) \<noteq> unat b" "unat (hm_next (blk h b)) \<noteq> unat b"
        "unat (hm_next (blk h b)) \<noteq> unat (b + 12 + len)" using big by linarith+
    then have "b + 12 + len \<noteq> b" "hm_next (blk h b) \<noteq> b" "hm_next (blk h b) \<noteq> b + 12 + len" by metis+
    then show ?thesis
      using c big e by (auto simp: malloc_mark_def malloc_take_def split_block_def relink_prev_def cut_def Let_def fun_upd_twist)
  qed
qed

lemma malloc_mark_ok:
  assumes wf: "heap_wf h (xs @ b # ys)" and fit: "fits h len b" and len: "unat len mod 4 = 0" "12 \<le> unat len"
  defines "h' \<equiv> malloc_mark len b h"
  obtains zs where "heap_wf h' (xs @ b # zs)" "set ys \<subseteq> set zs" "taken h' b"
    "allocs h' (xs @ b # zs) = insert (b, hm_next (blk h' b)) (allocs h (xs @ b # ys))"
    "unat b + 12 + unat len \<le> unat (hm_next (blk h' b))" "hm_next (blk h' b) \<le> hm_next (blk h b)"
    "\<forall>x \<in> set (xs @ ys). taken h' x = taken h x" "\<forall>z \<in> set zs. unat b < unat z"
proof -
  have sh: "heap_shape h (xs @ b # ys)" using wf by (simp add: heap_wf_def)
  note seg = heap_shape_cut_at [OF sh]
  note d = hseg_mid [OF seg]
  note nx = shape_next [OF sh]
  have fr: "\<not> taken h b" "unat b + 12 + unat len \<le> unat (hm_next (blk h b))" using fit by (simp_all add: fits_def)
  have lm: "unat len \<le> unat (mem_size_aligned h)" using fr(2) nx(2) by simp
  note ff = malloc_mark_fields [OF sh, of len, folded h'_def]
  have F: "heap_ptr h' = heap_ptr h" "heap_end h' = heap_end h" "mem_size_aligned h' = mem_size_aligned h"
    using ff(1) by (simp_all add: heap_frame_def)
  have ys_gt: "unat b < unat y" if "y \<in> set ys" for y
    using hseg_bounds(2) [OF d(3) that] nx(1) by simp
  have hd_ys: "ys = [] \<or> taken h (hd ys)" using wf fr(1) by (auto simp: heap_wf_def coal_append coal_Cons)
  have co: "coal h xs" "coal h ys" using wf by (auto simp: heap_wf_def coal_append coal_Cons)
  show ?thesis
  proof (cases "unat b + unat len + 36 \<le> unat (hm_next (blk h b))")
    case False
    then have B: "blk h' = marked b (blk h)" and u: "used_mem h' = used_mem h + (hm_next (blk h b) - b)"
      using malloc_mark_blk(1) [OF sh lm] by (auto simp: h'_def)
    have tk: "taken h' x \<longleftrightarrow> taken h x \<or> x = b" and n': "hm_next (blk h' x) = hm_next (blk h x)" for x by (simp_all add: B)
    have "used_sum h' xs = used_sum h xs" "used_sum h' ys = used_sum h ys"
      using d(5,6) tk n' by (auto intro!: used_sum_cong)
    then have us: "used_sum h' (xs @ b # ys) = used_sum h (xs @ b # ys) + (hm_next (blk h b) - b)" using fr(1) tk n' by simp
    have sg: "hseg (blk h') 0 0 (xs @ b # ys) (heap_end h)" unfolding B by (rule hseg_used [OF _ seg]) simp
    have "heap_shape h' (xs @ b # ys)"
      using sh sg us u F ff(2) tk [of "heap_end h"] unfolding heap_shape_def by auto
    moreover have "coal h' xs" "coal h' ys" using co coal_cong [of xs h' h] coal_cong [of ys h' h] tk d(5,6) by blast+
    ultimately have "heap_wf h' (xs @ b # ys)" using tk by (auto simp: heap_wf_def coal_append coal_Cons)
    moreover have "allocs h' (xs @ b # ys) = insert (b, hm_next (blk h' b)) (allocs h (xs @ b # ys))"
      unfolding allocs_def n' using tk by auto
    ultimately show ?thesis
      using that [of ys] tk n' fr(2) ys_gt d(5,6) by auto
  next
    case True
    define c where "c = b + 12 + len"
    have cn: "unat c = unat b + 12 + unat len"
      using u32_add [of b 12] u32_add [of "b + 12" len] True nx(2) heap_shape_nat(1,2) [OF sh] by (simp add: c_def)
    have cc: "unat b + 16 \<le> unat c" "unat c + 16 \<le> unat (hm_next (blk h b))" "unat c mod 4 = 0"
      using cn True len nx(5) by (simp_all add: mod_add_eq [symmetric])
    note ct = hseg_cut [OF seg cc]
    have B: "blk h' = marked b (cut b c (heap_end h) (blk h))" and u: "used_mem h' = used_mem h + (len + 12)"
      using malloc_mark_blk(2) [OF sh lm True] by (auto simp: h'_def c_def)
    have cb: "c \<noteq> b" "c \<notin> set xs" "c \<notin> set ys" using ct(2) by auto
    have tk: "taken h' x \<longleftrightarrow> (taken h x \<or> x = b) \<and> x \<noteq> c" for x
      using ct(4) [of x] ct(7) cb(1) unfolding B by (cases "x = c") simp_all
    have n': "hm_next (blk h' x) = hm_next (blk h x)" if "x \<noteq> b" "x \<noteq> c" for x using ct(3) [OF that] that unfolding B by simp
    have nb: "hm_next (blk h' b) = c" using ct(5) unfolding B by simp
    have ne: "x \<noteq> b" "x \<noteq> c" if "x \<in> set xs \<union> set ys" for x using that d(5,6) cb by auto
    have "used_sum h' xs = used_sum h xs" "used_sum h' ys = used_sum h ys"
      by (rule used_sum_cong, use ne tk n' in blast)+
    then have us: "used_sum h' (xs @ b # c # ys) = used_sum h (xs @ b # ys) + (len + 12)"
      using fr(1) tk [of b] tk [of c] cb nb by (simp add: c_def)
    have sg: "hseg (blk h') 0 0 (xs @ b # c # ys) (heap_end h)" unfolding B by (rule hseg_used [OF _ ct(1)]) simp
    have ce: "c \<noteq> heap_end h" using cc(2) hseg_bounds(1) [OF d(3)] by auto
    have "heap_shape h' (xs @ b # c # ys)"
      using sh sg us u F ff(2) tk [of "heap_end h"] ce unfolding heap_shape_def by auto
    moreover have "coal h' xs" "coal h' ys" using co coal_cong [of xs h' h] coal_cong [of ys h' h] tk d(5,6) cb by blast+
    moreover have "ys = [] \<or> taken h' (hd ys)" using hd_ys tk cb(3) by (metis hd_in_set)
    ultimately have "heap_wf h' (xs @ b # c # ys)" using tk [of b] cb by (auto simp: heap_wf_def coal_append coal_Cons)
    moreover have "allocs h' (xs @ b # c # ys) = insert (b, hm_next (blk h' b)) (allocs h (xs @ b # ys))"
    proof -
      have "{x \<in> set (xs @ b # c # ys). taken h' x} = insert b {x \<in> set (xs @ b # ys). taken h x}" using tk cb by auto
      moreover have "(\<lambda>x. (x, hm_next (blk h' x))) ` {x \<in> set (xs @ b # ys). taken h x} = (\<lambda>x. (x, hm_next (blk h x))) ` {x \<in> set (xs @ b # ys). taken h x}"
      proof (intro image_cong refl)
        fix x assume "x \<in> {x \<in> set (xs @ b # ys). taken h x}"
        then have "x \<noteq> b" "x \<noteq> c" using fr(1) cb by auto
        then show "(x, hm_next (blk h' x)) = (x, hm_next (blk h x))" using n' by simp
      qed
      ultimately show ?thesis unfolding allocs_def by simp
    qed
    moreover have "c \<le> hm_next (blk h b)" using cc(2) by (simp add: word_le_nat_alt)
    moreover have "\<forall>x \<in> set (xs @ ys). taken h' x = taken h x" using tk cb d(5,6) by auto
    ultimately show ?thesis
      using that [of "c # ys"] nb cn ys_gt cc(1) tk [of b] cb(1) by auto
  qed
qed

lemma allocs_disjoint:
  assumes "heap_shape h bs" "(a, b) \<in> allocs h bs" "(c, d) \<in> allocs h bs" "a \<noteq> c"
  shows "unat b \<le> unat c \<or> unat d \<le> unat a"
proof -
  have ord: "unat (hm_next (blk h x)) \<le> unat y" if "bs = xs @ x # ys" "y \<in> set ys" for xs x ys y
    using hseg_bounds(2) [OF hseg_mid(3), of "blk h" 0 0 xs x ys "heap_end h" y] assms(1) that by (auto simp: heap_shape_def)
  have ac: "a \<in> set bs" "b = hm_next (blk h a)" "c \<in> set bs" "d = hm_next (blk h c)"
    using assms(2,3) by (auto simp: allocs_def)
  obtain xs ys where xs: "bs = xs @ a # ys" using ac(1) by (auto simp: in_set_conv_decomp)
  then consider "c \<in> set ys" | us vs where "xs = us @ c # vs" using ac(3) assms(4) by (auto simp: in_set_conv_decomp)
  then show ?thesis
  proof cases
    case 1
    then show ?thesis using ord [OF xs] ac(2) by blast
  next
    case 2
    then show ?thesis using ord [of us c "vs @ a # ys" a] xs ac(4) by auto
  qed
qed

lemma find_SomeD: "find P xs = Some b \<Longrightarrow> b \<in> set xs \<and> P b"
  by (auto simp: find_Some_iff)

text \<open>
  \<open>malloc_block\<close> rounds a request; \<open>malloc_ok\<close> says that a block is handed out, or that no free block from \<^verbatim>\<open>lfree\<close> on
  has room for it.  A block that ends the heap and fits exactly is not found.
\<close>

definition malloc_block :: "u32 \<Rightarrow> u32" where
  "malloc_block n = (let len = rt_align n in if len < MIN_SIZE_ALIGNED then MIN_SIZE_ALIGNED else len)"

definition no_room :: "heap \<Rightarrow> u32 list \<Rightarrow> u32 \<Rightarrow> bool" where
  "no_room h bs len \<longleftrightarrow> (\<forall>b \<in> set bs. unat (lfree h) \<le> unat b \<and> fits h len b \<longrightarrow> unat b + unat len = unat (mem_size_aligned h))"

definition malloc_ok :: "heap \<Rightarrow> u32 list \<Rightarrow> u32 \<Rightarrow> u32 option \<Rightarrow> heap \<Rightarrow> u32 list \<Rightarrow> bool" where
  "malloc_ok h bs len r h' bs' \<longleftrightarrow>
     heap_wf h' bs' \<and> heap_frame h h' \<and> (lfree_low h bs \<longrightarrow> lfree_low h' bs') \<and>
     (case r of
        None \<Rightarrow> h' = h \<and> bs' = bs \<and> no_room h bs len
      | Some p \<Rightarrow> \<exists>b e. p = addr h b + SIZEOF_STRUCT_MEM \<and> b \<in> set bs \<and> unat (lfree h) \<le> unat b \<and> fits h len b \<and>
          unat b + 12 + unat len \<le> unat e \<and> allocs h' bs' = insert (b, e) (allocs h bs))"

lemma lfree_split:
  assumes sh: "heap_shape h bs"
  obtains pre rest where "bs = pre @ rest" "lfree h = hd (rest @ [heap_end h])" "\<And>x. x \<in> set pre \<Longrightarrow> unat x < unat (lfree h)"
proof (cases "lfree h = heap_end h")
  case True
  show ?thesis
  proof (rule that [of bs "[]"])
    show "unat x < unat (lfree h)" if "x \<in> set bs" for x using heap_shape_nat(4) [OF sh that] True by simp
  qed (simp_all add: True)
next
  case False
  then have "lfree h \<in> set bs" using sh unfolding heap_shape_def by blast
  then obtain pre rs where bs: "bs = pre @ lfree h # rs" by (auto simp: in_set_conv_decomp)
  show ?thesis
  proof (rule that [of pre "lfree h # rs"])
    show "unat x < unat (lfree h)" if "x \<in> set pre" for x
      using hseg_bounds(2) [OF hseg_mid(1) [OF heap_shape_cut_at [OF sh [unfolded bs]]] that] by simp
  qed (simp_all add: bs)
qed

lemma malloc_none:
  assumes sh: "heap_shape h (pre @ rest)" and len: "len \<le> mem_size_aligned h"
    and pre: "\<And>x. x \<in> set pre \<Longrightarrow> unat x < unat (lfree h)"
    and none: "find (fits h len) (takeWhile (\<lambda>b. b < mem_size_aligned h - len) rest) = None"
  shows "no_room h (pre @ rest) len"
  unfolding no_room_def
proof (intro ballI impI)
  fix b assume b: "b \<in> set (pre @ rest)" and bf: "unat (lfree h) \<le> unat b \<and> fits h len b"
  then have fit: "fits h len b" and "b \<notin> set pre" using pre [of b] by auto
  then obtain us vs where rest: "rest = us @ b # vs" using b by (auto simp: in_set_conv_decomp)
  have sh': "heap_shape h ((pre @ us) @ b # vs)" using sh rest by simp
  have M: "unat (mem_size_aligned h - len) = unat (mem_size_aligned h) - unat len"
    using len by (simp add: u32_sub word_le_nat_alt)
  have "\<not> b < mem_size_aligned h - len"
  proof
    assume lt: "b < mem_size_aligned h - len"
    have "x < mem_size_aligned h - len" if "x \<in> set us" for x
      using hseg_bounds(2) [OF hseg_mid(1) [OF heap_shape_cut_at [OF sh']], of x] that lt by (simp add: word_less_nat_alt)
    then have "b \<in> set (takeWhile (\<lambda>b. b < mem_size_aligned h - len) rest)" using lt rest by simp
    then show False using none fit by (auto simp: find_None_iff)
  qed
  then have "\<not> unat b < unat (mem_size_aligned h) - unat len" using M by (simp add: word_less_nat_alt)
  moreover have "unat b + 12 + unat len \<le> unat (mem_size_aligned h) + 12"
    using fit shape_next(2) [OF sh'] by (simp add: fits_def)
  ultimately show "unat b + unat len = unat (mem_size_aligned h)" by linarith
qed

lemma lfree_update:
  assumes wf: "heap_wf h (pre @ rest)" and p: "p = hd (dropWhile (taken h) rest @ [heap_end h])"
  shows "heap_wf (h\<lparr>lfree := p\<rparr>) (pre @ rest)" "p = heap_end h \<or> \<not> taken h p"
    and "(\<forall>x \<in> set pre. taken h x) \<Longrightarrow> lfree_low (h\<lparr>lfree := p\<rparr>) (pre @ rest)"
proof -
  have sh: "heap_shape h (pre @ rest)" using wf by (simp add: heap_wf_def)
  let ?us = "takeWhile (taken h) rest" and ?vs = "dropWhile (taken h) rest"
  have rest: "rest = ?us @ ?vs" by simp
  have "p \<in> set rest \<union> {heap_end h}"
    using p set_dropWhileD [of "hd ?vs" "taken h" rest] by (cases ?vs) auto
  moreover have "used_sum (h\<lparr>lfree := p\<rparr>) bs = used_sum h bs" for bs by (rule used_sum_cong) simp
  moreover have "coal (h\<lparr>lfree := p\<rparr>) bs = coal h bs" for bs by (rule coal_cong) simp
  ultimately show "heap_wf (h\<lparr>lfree := p\<rparr>) (pre @ rest)"
    using wf unfolding heap_wf_def heap_shape_def by (auto simp del: used_sum_append)
  show "p = heap_end h \<or> \<not> taken h p" using p hd_dropWhile [of "taken h" rest] by (cases ?vs) auto
  show "lfree_low (h\<lparr>lfree := p\<rparr>) (pre @ rest)" if pre: "\<forall>x \<in> set pre. taken h x"
    unfolding lfree_low_def
  proof (intro ballI impI)
    fix x assume x: "x \<in> set (pre @ rest)" "unat x < unat (lfree (h\<lparr>lfree := p\<rparr>))"
    then consider "x \<in> set pre" | "x \<in> set ?us" | "x \<in> set ?vs" using rest by (metis Un_iff set_append)
    then show "taken (h\<lparr>lfree := p\<rparr>) x"
    proof cases
      case 3
      then obtain v vs where v: "?vs = v # vs" by (cases ?vs) auto
      then have "rest = ?us @ v # vs" using rest by simp
      then have sh': "heap_shape h ((pre @ ?us) @ v # vs)" using sh by simp
      have "unat v \<le> unat x"
        using 3 v hseg_bounds(2) [OF hseg_mid(3) [OF heap_shape_cut_at [OF sh']], of x] shape_next(1) [OF sh'] by auto
      then show ?thesis using x(2) p v by simp
    qed (use pre set_takeWhileD [of x "taken h" rest] in auto)
  qed
qed

lemma malloc_commit_ok:
  assumes wf: "heap_wf h (pre @ us @ b # vs)" and fit: "fits h len b" and len: "unat len mod 4 = 0" "12 \<le> unat len"
    and pre: "\<And>x. x \<in> set pre \<Longrightarrow> unat x < unat (lfree h)" and lf: "lfree h = hd ((us @ b # vs) @ [heap_end h])"
  obtains h' bs' where "malloc_commit len b h = Ok h'" "malloc_ok h (pre @ us @ b # vs) len (Some (addr h b + SIZEOF_STRUCT_MEM)) h' bs'"
proof -
  let ?bs = "pre @ us @ b # vs"
  define h1 where "h1 = malloc_mark len b h"
  have wf': "heap_wf h ((pre @ us) @ b # vs)" using wf by simp
  have sh: "heap_shape h ((pre @ us) @ b # vs)" using wf' by (simp add: heap_wf_def)
  obtain zs where z: "heap_wf h1 ((pre @ us) @ b # zs)" "set vs \<subseteq> set zs" "taken h1 b"
      "allocs h1 ((pre @ us) @ b # zs) = insert (b, hm_next (blk h1 b)) (allocs h ((pre @ us) @ b # vs))"
      "unat b + 12 + unat len \<le> unat (hm_next (blk h1 b))"
      "\<forall>x \<in> set ((pre @ us) @ vs). taken h1 x = taken h x" "\<forall>z \<in> set zs. unat b < unat z"
    unfolding h1_def by (rule malloc_mark_ok [OF wf' fit len]) blast
  note f = malloc_mark_fields [OF sh, of len, folded h1_def]
  have eq: "malloc_commit len b h = (if b = lfree h1 then
       (case lfree_loop (lfree h1) h1 of None \<Rightarrow> Fault Diverges
        | Some p \<Rightarrow> (let h = h1\<lparr>lfree := p\<rparr> in rassert (lfree h = heap_end h \<or> hm_used (blk h (lfree h)) = 0) h)) else Ok h1)"
    unfolding malloc_commit_def malloc_mark_def h1_def Let_def ..
  have lfb: "unat (lfree h) \<le> unat b"
    using lf hseg_bounds(2) [OF hseg_mid(1) [OF heap_shape_cut_at [OF sh]], of "hd us"] by (cases us) auto
  have res: "malloc_ok h ?bs len (Some (addr h b + SIZEOF_STRUCT_MEM)) h' bs'"
    if "heap_wf h' bs'" "heap_frame h h'" "lfree_low h ?bs \<Longrightarrow> lfree_low h' bs'"
      "allocs h' bs' = insert (b, hm_next (blk h1 b)) (allocs h ?bs)" for h' bs'
    unfolding malloc_ok_def using that fit z(5) lfb by auto
  show ?thesis
  proof (cases "b = lfree h")
    case True
    have us: "us = []"
    proof (rule ccontr)
      assume "us \<noteq> []"
      then have "b \<in> set us" using True lf by (cases us) auto
      then show False using hseg_mid(5) [OF heap_shape_cut_at [OF sh]] by simp
    qed
    define p where "p = hd (dropWhile (taken h1) (b # zs) @ [heap_end h1])"
    have wf1: "heap_wf h1 (pre @ (b # zs))" using z(1) us by simp
    then have sh1: "heap_shape h1 (pre @ (b # zs))" by (simp add: heap_wf_def)
    have "lfree_loop (lfree h1) h1 = Some p"
      using lfree_loop_spec [OF sh1] True f(2) by (simp add: p_def)
    moreover note lu = lfree_update [OF wf1 p_def]
    ultimately have ok: "malloc_commit len b h = Ok (h1\<lparr>lfree := p\<rparr>)"
      using eq True f(2) by auto
    show ?thesis
    proof (rule that [OF ok], rule res)
      show "heap_wf (h1\<lparr>lfree := p\<rparr>) (pre @ (b # zs))" by (rule lu(1))
      show "heap_frame h (h1\<lparr>lfree := p\<rparr>)" using f(1) by (simp add: heap_frame_def)
      show "lfree_low (h1\<lparr>lfree := p\<rparr>) (pre @ (b # zs))" if "lfree_low h ?bs"
        using that pre z(6) by (intro lu(3)) (auto simp: lfree_low_def)
      have "allocs (h1\<lparr>lfree := p\<rparr>) (pre @ (b # zs)) = allocs h1 (pre @ (b # zs))" by (rule allocs_eqI) simp_all
      then show "allocs (h1\<lparr>lfree := p\<rparr>) (pre @ (b # zs)) = insert (b, hm_next (blk h1 b)) (allocs h ?bs)"
        using z(4) us by simp
    qed
  next
    case False
    then have ok: "malloc_commit len b h = Ok h1" using eq f(2) by simp
    have us: "us \<noteq> []" using False lf by auto
    have lb: "unat (lfree h) < unat b"
      using us lf hseg_bounds(2) [OF hseg_mid(1) [OF heap_shape_cut_at [OF sh]], of "hd us"] by (cases us) auto
    show ?thesis
    proof (rule that [OF ok], rule res)
      show "lfree_low h1 ((pre @ us) @ b # zs)" if lo: "lfree_low h ?bs"
        unfolding lfree_low_def
      proof (intro ballI impI)
        fix x assume x: "x \<in> set ((pre @ us) @ b # zs)" "unat x < unat (lfree h1)"
        then have "unat x < unat b" using lb f(2) by simp
        then have "x \<in> set (pre @ us)" using x(1) z(7) by auto
        then show "taken h1 x" using lo x(2) z(6) f(2) by (auto simp: lfree_low_def)
      qed
    qed (use z(1,4) f(1) in simp_all)
  qed
qed

lemma malloc_spec:
  assumes wf: "heap_wf h bs" and n: "n \<noteq> 0" "unat n + 3 < 2 ^ 32" and big: "12 \<le> unat (mem_size_aligned h)"
  obtains r h' bs' where "rt_malloc 0 n h = Ok (r, h')" "malloc_ok h bs (malloc_block n) r h' bs'"
proof -
  have sh: "heap_shape h bs" using wf by (simp add: heap_wf_def)
  define len where "len = malloc_block n"
  note al = rt_align_nat [OF n(2)]
  have len: "unat len mod 4 = 0" "12 \<le> unat len" and le: "rt_align n \<le> mem_size_aligned h \<Longrightarrow> len \<le> mem_size_aligned h"
    using al(4) big by (auto simp: len_def malloc_block_def word_less_nat_alt word_le_nat_alt Let_def)
  show ?thesis
  proof (cases "rt_align n > mem_size_aligned h")
    case True
    have "no_room h bs len"
      unfolding no_room_def
    proof (intro ballI impI)
      fix b assume "b \<in> set bs" "unat (lfree h) \<le> unat b \<and> fits h len b"
      then have b: "b \<in> set bs" "fits h len b" by simp_all
      obtain us vs where "bs = us @ b # vs" using b(1) by (auto simp: in_set_conv_decomp)
      then have "unat (hm_next (blk h b)) \<le> unat (mem_size_aligned h) + 12" using shape_next(2) sh by blast
      then show "unat b + unat len = unat (mem_size_aligned h)"
        using b(2) True by (auto simp: fits_def len_def malloc_block_def word_less_nat_alt Let_def split: if_splits)
    qed
    then show ?thesis
      using that [of None h bs] True n wf by (simp add: rt_malloc_def Let_def malloc_ok_def len_def)
  next
    case False
    then have lm: "len \<le> mem_size_aligned h" using le by simp
    obtain pre rest where pr: "bs = pre @ rest" "lfree h = hd (rest @ [heap_end h])" "\<And>x. x \<in> set pre \<Longrightarrow> unat x < unat (lfree h)"
      by (rule lfree_split [OF sh]) blast
    have srch: "malloc_search len (lfree h) h = Some (find (fits h len) (takeWhile (\<lambda>b. b < mem_size_aligned h - len) rest))"
      using malloc_search_spec [of h pre rest len] sh pr lm by simp
    have unf: "rt_malloc 0 n h = (case malloc_search len (lfree h) h of
         None \<Rightarrow> Fault Diverges | Some None \<Rightarrow> Ok (None, h)
       | Some (Some ptr) \<Rightarrow>
           rbind (malloc_commit len ptr h) (\<lambda>h.
           rbind (rassert (addr h ptr + 12 + len \<le> addr h (heap_end h)) h) (\<lambda>h.
           rbind (rassert ((addr h ptr + 12) mod 4 = 0) h) (\<lambda>h.
           rbind (rassert (addr h ptr AND 3 = 0) h) (\<lambda>h. Ok (Some (addr h ptr + 12), h))))))"
      using False n(1) unfolding rt_malloc_def len_def malloc_block_def Let_def by simp
    show ?thesis
    proof (cases "find (fits h len) (takeWhile (\<lambda>b. b < mem_size_aligned h - len) rest)")
      case None
      have "no_room h bs len"
        using malloc_none [of h pre rest len] sh pr lm None by blast
      then show ?thesis using that [of None h bs] unf srch None wf by (simp add: malloc_ok_def len_def)
    next
      case (Some b)
      from find_SomeD [OF this] have b: "b \<in> set rest" "fits h len b" by (auto dest: set_takeWhileD)
      then obtain us vs where rest: "rest = us @ b # vs" by (auto simp: in_set_conv_decomp)
      have wf': "heap_wf h (pre @ us @ b # vs)" using wf pr(1) rest by simp
      have lf: "lfree h = hd ((us @ b # vs) @ [heap_end h])" using pr(2) rest by simp
      obtain h' bs' where c: "malloc_commit len b h = Ok h'"
          "malloc_ok h (pre @ us @ b # vs) len (Some (addr h b + SIZEOF_STRUCT_MEM)) h' bs'"
        by (rule malloc_commit_ok [OF wf' b(2) len pr(3) lf])
      have fr: "heap_frame h h'" using c(2) by (simp add: malloc_ok_def)
      have bb: "b \<in> set bs" using pr(1) rest by simp
      note ha = heap_addr [OF sh bb]
      have "unat b + 12 + unat len \<le> unat (heap_end h)"
        using b(2) shape_next(2) [of h "pre @ us" b vs] sh pr(1) rest heap_shape_nat(1) [OF sh] by (simp add: fits_def)
      then have "addr h b + 12 + len \<le> addr h (heap_end h)"
        using ha(1) u32_add [of "addr h b + 12" len] heap_shape_nat(2) [OF sh] heap_shape_nat(3) [OF sh order_refl]
        by (simp add: word_le_nat_alt)
      moreover have "(addr h b + 12) mod 4 = 0"
        using ha(3) and_3 [of "addr h b + 12"] by (simp add: word_unat_eq_iff unat_mod)
      moreover have "addr h b AND 3 = 0"
      proof -
        have "unat (addr h b) + 12 = unat (addr h b + 12)"
          using ha(1) heap_shape_nat(3,4) [OF sh, of b] bb by (simp add: word_le_nat_alt)
        moreover have "unat (addr h b + 12) mod 4 = 0" using ha(3) and_3 by blast
        ultimately have "(unat (addr h b) + 12) mod 4 = 0" by simp
        then show ?thesis unfolding and_3 by presburger
      qed
      ultimately have "rt_malloc 0 n h = Ok (Some (addr h b + 12), h')"
        using unf srch Some c(1) fr heap_frame_addr [OF fr] by (simp add: heap_frame_def)
      then show ?thesis using that c(2) pr(1) rest by (simp add: len_def)
    qed
  qed
qed

section \<open>Initialisation\<close>

lemma rt_align_down_nat: "unat (rt_align_down n) = 4 * (unat n div 4)"
  unfolding rt_align_down_def by (rule unat_and_not_3)

lemma heap_init_ok:
  assumes b: "unat b + 3 < 2 ^ 32" and room: "unat (rt_align b) + 36 \<le> unat (rt_align_down e)" and used: "used_mem h = 0"
  obtains h' where "rt_system_heap_init 0 b e h = Ok h'" "heap_wf h' [0]" "lfree_low h' [0]" "allocs h' [0] = {}"
    "heap_ptr h' = rt_align b" "unat (mem_size_aligned h') + 24 = unat (rt_align_down e) - unat (rt_align b)"
proof -
  define x y where "x = rt_align b" and "y = rt_align_down e"
  have y32: "unat y < 4294967296" using unsigned_less [of y] by simp
  have "unat x + 36 \<le> unat y" "unat x mod 4 = 0" "unat y mod 4 = 0"
    using room rt_align_nat(4) [OF b] rt_align_down_nat [of e] by (simp_all add: x_def y_def)
  note xy = this y32
  define M where "M = y - x - 24"
  have M1: "unat (y - x) = unat y - unat x" using xy(1) by (simp add: u32_sub)
  have M: "unat M + 24 = unat y - unat x"
    using xy(1) M1 u32_sub [of 24 "y - x"] by (simp add: M_def)
  have M4: "unat M mod 4 = 0"
  proof -
    have "(unat M + 24 + unat x) mod 4 = 0" using M xy by simp
    then show ?thesis using xy(2) by presburger
  qed
  have top: "unat (M + 12) = unat M + 12" using u32_add [of M 12] M xy by simp
  have t0: "M + 12 \<noteq> 0" using top by auto
  define h' where "h' = h\<lparr>mem_size_aligned := M, heap_ptr := x, heap_end := M + 12,
     blk := (blk h)(0 := \<lparr>hm_magic = HEAP_MAGIC, hm_used = 0, hm_next = M + 12, hm_prev = 0\<rparr>,
       M + 12 := \<lparr>hm_magic = HEAP_MAGIC, hm_used = 1, hm_next = M + 12, hm_prev = M + 12\<rparr>), lfree := 0\<rparr>"
  have "y > 24" "y - 24 \<ge> x" using xy u32_sub [of 24 y] by (simp_all add: word_less_nat_alt word_le_nat_alt)
  then have "rt_system_heap_init 0 b e h = Ok h'"
    unfolding rt_system_heap_init_def x_def [symmetric] y_def [symmetric] h'_def M_def by (simp add: Let_def)
  moreover have "4 \<le> unat M" "unat x + unat M < 4294967272" using M xy by linarith+
  then have "heap_wf h' [0]"
    using M M4 xy top t0 used by (simp add: heap_wf_def heap_shape_def blk_ok_def h'_def coal_def mod_add_left_eq [symmetric])
  moreover have "lfree_low h' [0]" "allocs h' [0] = {}"
    using t0 by (auto simp: lfree_low_def allocs_def h'_def)
  ultimately show ?thesis using that M by (simp add: h'_def x_def y_def)
qed

text \<open>With nothing handed out, the heap is one free block again.\<close>

lemma all_free_single:
  assumes wf: "heap_wf h bs" and none: "allocs h bs = {}"
  shows "bs = [0]" "used_mem h = 0"
proof -
  have sh: "heap_shape h bs" and co: "coal h bs" using wf by (simp_all add: heap_wf_def)
  have nt: "\<not> taken h b" if "b \<in> set bs" for b using none that by (auto simp: allocs_def)
  obtain b zs where bs: "bs = b # zs" using sh by (cases bs) (auto simp: heap_shape_def)
  have "zs = []" using co nt bs by (cases zs) (auto simp: coal_Cons)
  moreover have "b = 0" using sh bs by (auto simp: heap_shape_def)
  ultimately show "bs = [0]" using bs by simp
  then show "used_mem h = 0" using sh nt by (simp add: heap_shape_def)
qed

section \<open>Reallocating\<close>

lemma realloc_shrink:
  assumes wf: "heap_wf h bs" and b: "b \<in> set bs" "taken h b" and n: "n \<noteq> 0" "unat n + 3 < 2 ^ 32"
    and less: "unat b + unat (rt_align n) + 36 < unat (hm_next (blk h b))"
  obtains h' bs' where "rt_realloc 0 (Some (addr h b + SIZEOF_STRUCT_MEM)) n h m = Ok (Some (addr h b + SIZEOF_STRUCT_MEM), h', m)"
    "heap_wf h' bs'" "heap_frame h h'"
    "allocs h' bs' = insert (b, b + 12 + rt_align n) (allocs h bs - {(b, hm_next (blk h b))})"
    "taken h (hm_next (blk h b)) \<Longrightarrow> lfree h' = lfree h \<and> b + 12 + rt_align n \<in> set bs' \<and> \<not> taken h' (b + 12 + rt_align n) \<and>
       hm_next (blk h' (b + 12 + rt_align n)) = hm_next (blk h b)"
proof -
  have sh: "heap_shape h bs" using wf by (simp add: heap_wf_def)
  obtain xs ys where bs: "bs = xs @ b # ys" using b(1) by (auto simp: in_set_conv_decomp)
  have sh': "heap_shape h (xs @ b # ys)" using sh bs by simp
  note seg = heap_shape_cut_at [OF sh']
  note d = hseg_mid [OF seg]
  note nx = shape_next [OF sh']
  note al = rt_align_nat [OF n(2)]
  define len where "len = rt_align n"
  define c where "c = b + 12 + len"
  have nz: "len \<noteq> 0" "unat len \<ge> 4" using al(2,4) n(1) by (auto simp: len_def word_unat_eq_iff)
  have cn: "unat c = unat b + 12 + unat len"
    using u32_add [of b 12] u32_add [of "b + 12" len] less nx(2) heap_shape_nat(1,2) [OF sh] by (simp add: c_def len_def)
  have cc: "unat b + 16 \<le> unat c" "unat c + 16 \<le> unat (hm_next (blk h b))" "unat c mod 4 = 0"
    using cn less nz nx(5) al(4) by (simp_all add: len_def mod_add_eq [symmetric])
  note ct = hseg_cut [OF seg cc]
  have sz: "hm_next (blk h b) - b - 12 = hm_next (blk h b) - (b + 12)" by simp
  define h1 where "h1 = h\<lparr>used_mem := used_mem h - (hm_next (blk h b) - b - 12 - len), blk := cut b c (heap_end h) (blk h)\<rparr>"
  have B: "blk h1 = cut b c (heap_end h) (blk h)" by (simp add: h1_def)
  have cb: "c \<noteq> b" "c \<notin> set xs" "c \<notin> set ys" using ct(2) by auto
  have tk: "taken h1 x \<longleftrightarrow> taken h x \<and> x \<noteq> c" for x using ct(4) [of x] ct(7) unfolding B by (cases "x = c") simp_all
  have n': "hm_next (blk h1 x) = hm_next (blk h x)" if "x \<noteq> b" "x \<noteq> c" for x using ct(3) [OF that] unfolding B .
  have nb: "hm_next (blk h1 b) = c" using ct(5) unfolding B .
  have ne: "x \<noteq> b" "x \<noteq> c" if "x \<in> set xs \<union> set ys" for x using that d(5,6) cb by auto
  have "used_sum h1 xs = used_sum h xs" "used_sum h1 ys = used_sum h ys"
    by (rule used_sum_cong, use ne tk n' in blast)+
  then have us: "used_sum h1 (xs @ b # c # ys) = used_sum h (xs @ b # ys) - (hm_next (blk h b) - b - 12 - len)"
    using b(2) tk [of b] tk [of c] cb nb by (simp add: c_def algebra_simps)
  have ce: "c \<noteq> heap_end h" using cc(2) hseg_bounds(1) [OF d(3)] by auto
  have F: "heap_ptr h1 = heap_ptr h" "heap_end h1 = heap_end h" "mem_size_aligned h1 = mem_size_aligned h" "lfree h1 = lfree h"
      "used_mem h1 = used_mem h - (hm_next (blk h b) - b - 12 - len)"
    by (simp_all add: h1_def)
  have sg: "hseg (blk h1) 0 0 (xs @ b # c # ys) (heap_end h)" unfolding B by (rule ct(1))
  have sh1: "heap_shape h1 ((xs @ [b]) @ c # ys)"
    using sh' sg us F tk [of "heap_end h"] ce unfolding heap_shape_def by auto
  have "coal h ((xs @ [b]) @ ys)" using wf bs by (simp add: heap_wf_def)
  then have "coal h (xs @ [b])" "coal h ys" unfolding coal_append [of h "xs @ [b]" ys] by blast+
  then have co: "coal h1 (xs @ [b])" "coal h1 ys"
    using coal_cong [of "xs @ [b]" h1 h] coal_cong [of ys h1 h] tk cb by auto
  have fc: "\<not> taken h1 c" using tk by blast
  obtain h' bs' where p: "plug_holes c h1 = Ok h'" "heap_wf h' bs'" "allocs h' bs' = allocs h1 ((xs @ [b]) @ c # ys)" "heap_frame h1 h'"
    by (rule plug_holes_ok [OF sh1 fc co]) blast
  have nc: "hm_next (blk h1 c) = hm_next (blk h b)" using ct(6) unfolding B .
  have still: "h' = h1" "heap_wf h1 ((xs @ [b]) @ c # ys)" if t: "taken h (hm_next (blk h b))"
  proof -
    have ne: "hm_next (blk h b) \<noteq> c" using cc(2) by auto
    have tb: "taken h1 b" "taken h1 (hm_next (blk h b))" using tk b(2) t cb(1) ne by auto
    have "hm_prev (blk h1 c) = b" using cb(1) cc(2) by (auto simp: B cut_def Let_def)
    then have "plug_backward c (plug_forward c h1) = h1" using tb nc by (simp add: plug_forward_def plug_backward_def)
    then show "h' = h1" using p(1) by (auto simp: plug_holes_def rassert_def split: if_splits)
    have "ys = [] \<or> taken h1 (hd ys)" using nx(3) tb(2) by (cases ys) auto
    then show "heap_wf h1 ((xs @ [b]) @ c # ys)"
      using sh1 co tb(1) unfolding heap_wf_def coal_append [of h1 "xs @ [b]"] by (simp add: coal_Cons)
  qed
  have "rt_realloc 0 (Some (addr h b + SIZEOF_STRUCT_MEM)) n h m = rbind (plug_holes c h1) (\<lambda>h. Ok (Some (addr h1 b + SIZEOF_STRUCT_MEM), h, m))"
  proof -
    note ha = heap_addr [OF sh b(1)]
    have l1: "\<not> rt_align n > mem_size_aligned h" using less nx(2) by (simp add: word_less_nat_alt len_def)
    have szn: "unat (hm_next (blk h b) - b - 12) = unat (hm_next (blk h b)) - unat b - 12" unfolding sz by (rule nx(4))
    have l2: "hm_next (blk h b) - b - 12 \<noteq> len" using szn less by (auto simp: len_def)
    have "unat (len + 12 + 12) = unat len + 24"
      using u32_add [of len 12] u32_add [of "len + 12" 12] less nx(2) heap_shape_nat(1,2) [OF sh] by (simp add: len_def)
    then have l3: "len + 12 + 12 < hm_next (blk h b) - b - 12" using szn less by (simp add: word_less_nat_alt len_def)
    have e: "heap_end h = mem_size_aligned h + 12" using sh unfolding heap_shape_def by blast
    have r1: "\<not> (addr h b + 12 < heap_ptr h \<or> addr h b + 12 \<ge> addr h (heap_end h))" using ha(4,5) by auto
    have h1': "relink_prev c (split_block b c (h\<lparr>used_mem := used_mem h - (hm_next (blk h b) - b - 12 - len)\<rparr>)) = h1"
      using cb(1) cc(1) e by (auto simp: relink_prev_def split_block_def cut_def h1_def Let_def)
    show ?thesis
      using l1 l2 l3 nz(1) r1 h1' ha(2) unfolding rt_realloc_def len_def [symmetric] Let_def c_def
      by (simp add: addr_def F)
  qed
  then have ok: "rt_realloc 0 (Some (addr h b + SIZEOF_STRUCT_MEM)) n h m = Ok (Some (addr h b + SIZEOF_STRUCT_MEM), h', m)"
    using p(1) by (simp add: addr_def F)
  have "heap_frame h h1" by (simp add: heap_frame_def F)
  then have fr: "heap_frame h h'" using p(4) by (rule heap_frame_trans)
  have "allocs h1 ((xs @ [b]) @ c # ys) = insert (b, c) (allocs h bs - {(b, hm_next (blk h b))})"
  proof -
    define S where "S = {x \<in> set bs. taken h x} - {b}"
    have "{x \<in> set ((xs @ [b]) @ c # ys). taken h1 x} = insert b S" using tk cb b bs by (auto simp: S_def)
    then have "allocs h1 ((xs @ [b]) @ c # ys) = insert (b, c) ((\<lambda>x. (x, hm_next (blk h1 x))) ` S)"
      by (simp only: allocs_def image_insert nb)
    moreover have "(\<lambda>x. (x, hm_next (blk h1 x))) ` S = (\<lambda>x. (x, hm_next (blk h x))) ` S"
    proof (intro image_cong refl)
      fix x assume "x \<in> S"
      then have "x \<noteq> b" "x \<noteq> c" using cb bs by (auto simp: S_def)
      then show "(x, hm_next (blk h1 x)) = (x, hm_next (blk h x))" using n' by simp
    qed
    moreover have "(\<lambda>x. (x, hm_next (blk h x))) ` S = allocs h bs - {(b, hm_next (blk h b))}"
      by (auto simp: allocs_def S_def)
    ultimately show ?thesis by simp
  qed
  note al1 = this
  show ?thesis
  proof (cases "taken h (hm_next (blk h b))")
    case True
    have "rt_realloc 0 (Some (addr h b + SIZEOF_STRUCT_MEM)) n h m = Ok (Some (addr h b + SIZEOF_STRUCT_MEM), h1, m)" "heap_frame h h1"
      using ok fr still(1) [OF True] by simp_all
    moreover have "lfree h1 = lfree h \<and> c \<in> set ((xs @ [b]) @ c # ys) \<and> \<not> taken h1 c \<and> hm_next (blk h1 c) = hm_next (blk h b)"
      using F(4) fc nc by simp
    ultimately show ?thesis using that still(2) [OF True] al1 unfolding c_def len_def by blast
  next
    case False
    then show ?thesis using that [OF ok p(2) fr] p(3) al1 by (simp add: c_def len_def)
  qed
qed

text \<open>
  On a heap that is handed out completely, the part cut off by a smaller size is free but below \<^verbatim>\<open>lfree\<close>, which only
  \<^verbatim>\<open>rt_free\<close> lowers: no request finds it.
\<close>

lemma shrink_hides:
  assumes wf: "heap_wf h bs" and full: "\<forall>x \<in> set bs. taken h x" "lfree h = heap_end h" and b: "b \<in> set bs"
    and n: "n \<noteq> 0" "unat n + 3 < 2 ^ 32" and less: "unat b + unat (rt_align n) + 36 < unat (hm_next (blk h b))"
    and big: "12 \<le> unat (mem_size_aligned h)"
  shows "\<exists>h' bs'. rt_realloc 0 (Some (addr h b + SIZEOF_STRUCT_MEM)) n h m = Ok (Some (addr h b + SIZEOF_STRUCT_MEM), h', m) \<and>
    heap_wf h' bs' \<and> b + 12 + rt_align n \<in> set bs' \<and> \<not> taken h' (b + 12 + rt_align n) \<and>
    hm_next (blk h' (b + 12 + rt_align n)) = hm_next (blk h b) \<and>
    (\<forall>k. k \<noteq> 0 \<and> unat k + 3 < 2 ^ 32 \<longrightarrow> rt_malloc 0 k h' = Ok (None, h'))"
proof -
  have sh: "heap_shape h bs" using wf by (simp add: heap_wf_def)
  obtain xs ys where bs: "bs = xs @ b # ys" using b by (auto simp: in_set_conv_decomp)
  have "taken h (heap_end h)" using sh unfolding heap_shape_def by blast
  then have nt: "taken h (hm_next (blk h b))" using shape_next(3) [of h xs b ys] sh bs full(1) by (cases ys) auto
  obtain h' bs' where s: "rt_realloc 0 (Some (addr h b + SIZEOF_STRUCT_MEM)) n h m = Ok (Some (addr h b + SIZEOF_STRUCT_MEM), h', m)"
      "heap_wf h' bs'" "heap_frame h h'"
      "lfree h' = lfree h \<and> b + 12 + rt_align n \<in> set bs' \<and> \<not> taken h' (b + 12 + rt_align n) \<and>
         hm_next (blk h' (b + 12 + rt_align n)) = hm_next (blk h b)"
    using realloc_shrink [OF wf b bspec [OF full(1) b] n less, of m] nt by metis
  have "rt_malloc 0 k h' = Ok (None, h')" if k: "k \<noteq> 0" "unat k + 3 < 2 ^ 32" for k
  proof -
    have "12 \<le> unat (mem_size_aligned h')" using big s(3) by (simp add: heap_frame_def)
    then obtain r h2 bs2 where r: "rt_malloc 0 k h' = Ok (r, h2)" "malloc_ok h' bs' (malloc_block k) r h2 bs2"
      by (rule malloc_spec [OF s(2) k])
    have "unat x + 16 \<le> unat (lfree h')" if "x \<in> set bs'" for x
      using heap_shape_nat(4) [of h' bs' x] that s(2-4) full(2) by (simp add: heap_wf_def heap_frame_def)
    then have "r = None" using r(2) by (cases r) (force simp: malloc_ok_def)+
    then show ?thesis using r by (simp add: malloc_ok_def)
  qed
  then show ?thesis using s by blast
qed

text \<open>Any other change of size allocates a new block, copies, and frees the old one.\<close>

lemma memcpy_disjoint:
  assumes "unat d + n \<le> unat s \<or> unat s + n \<le> unat d" "unat d + n < 2 ^ 32" "unat s + n < 2 ^ 32"
  shows "copy_up_safe d s n"
proof (cases "unat s \<le> unat d")
  case True
  then have "unat (d - s) = unat d - unat s" by (rule u32_sub)
  then show ?thesis using assms(1) True by (cases "n = 0") (auto simp: copy_up_safe_def)
next
  case False
  then have "unat (d - s) = 2 ^ 32 + unat d - unat s" using unat_sub_if' [of d s] by simp
  then show ?thesis using assms False by (auto simp: copy_up_safe_def)
qed

lemma allocs_iff: "(x, e) \<in> allocs h bs \<longleftrightarrow> x \<in> set bs \<and> taken h x \<and> e = hm_next (blk h x)"
  by (auto simp: allocs_def)

definition realloc_moved :: "heap \<Rightarrow> u32 list \<Rightarrow> u32 \<Rightarrow> u32 \<Rightarrow> u32 \<Rightarrow> u32 \<Rightarrow> heap \<Rightarrow> u32 list \<Rightarrow> bool" where
  "realloc_moved h bs b n c e h' bs' \<longleftrightarrow>
     c \<in> set bs \<and> \<not> taken h c \<and> heap_wf h' bs' \<and> heap_frame h h' \<and>
     allocs h' bs' = insert (c, e) (allocs h bs - {(b, hm_next (blk h b))}) \<and> unat c + 12 + unat n \<le> unat e \<and>
     unat c + 12 + unat n \<le> unat (hm_next (blk h c))"

lemma realloc_move:
  assumes wf: "heap_wf h bs" and b: "b \<in> set bs" "taken h b" and n: "n \<noteq> 0" "unat n + 3 < 2 ^ 32"
    and fit: "rt_align n \<le> mem_size_aligned h" and big: "12 \<le> unat (mem_size_aligned h)"
    and old: "old = hm_next (blk h b) - b - 12" "old \<noteq> rt_align n" "unat old \<le> unat (rt_align n) + 24"
  shows "rt_realloc 0 (Some (addr h b + SIZEOF_STRUCT_MEM)) n h m = Ok (None, h, m) \<and> no_room h bs (malloc_block n) \<or>
    (\<exists>c e h' bs'. rt_realloc 0 (Some (addr h b + SIZEOF_STRUCT_MEM)) n h m =
        Ok (Some (addr h c + SIZEOF_STRUCT_MEM), h',
          rt_memcpy (addr h c + SIZEOF_STRUCT_MEM) (addr h b + SIZEOF_STRUCT_MEM) (unat (min old (rt_align n))) m) \<and>
      realloc_moved h bs b (rt_align n) c e h' bs')"
proof -
  define len where "len = rt_align n"
  define a where "a = addr h b + 12"
  have sh: "heap_shape h bs" using wf by (simp add: heap_wf_def)
  note al = rt_align_nat [OF n(2)]
  note ha = heap_addr [OF sh b(1), folded a_def]
  have ml: "unat (mem_size_aligned h) + 24 < 2 ^ 32" using heap_shape_nat(1,2) [OF sh] by simp
  have lz: "len \<noteq> 0" using al(2) n(1) by (auto simp: len_def word_unat_eq_iff)
  have lm: "unat len \<le> unat (mem_size_aligned h)" using fit by (simp add: len_def word_le_nat_alt)
  have "unat (len + 12 + 12) = unat len + 24"
    using u32_add [of len 12] u32_add [of "len + 12" 12] lm ml by simp
  then have l3: "\<not> len + 12 + 12 < old" using old(3) by (simp add: len_def word_less_nat_alt)
  obtain j where "unat len = 4 * j" using al(4) by (auto simp: len_def mod_eq_0_iff_dvd elim: dvdE)
  then have lal: "rt_align len = len" using rt_align_nat(1) [of len] lm ml by (simp add: word_unat_eq_iff)
  have unf: "rt_realloc 0 (Some a) n h m = rbind (rt_malloc 0 len h) (\<lambda>(nmem, h).
      case nmem of None \<Rightarrow> Ok (None, h, m)
      | Some p \<Rightarrow> (let m = rt_memcpy p a (unat (if old < len then old else len)) m
          in rbind (rt_free 0 (Some a) h) (\<lambda>h. Ok (Some p, h, m))))"
  proof -
    have l1: "\<not> rt_align n > mem_size_aligned h" and r1: "\<not> (a < heap_ptr h \<or> a \<ge> addr h (heap_end h))"
      using fit ha(4,5) by auto
    have l2: "old \<noteq> len" using old(2) by (simp add: len_def)
    show ?thesis
      using l1 r1 lz l2 l3 ha(2) unfolding rt_realloc_def len_def [symmetric] Let_def old(1)
      by (simp cong: option.case_cong)
  qed
  obtain r h1 bs1 where mal: "rt_malloc 0 len h = Ok (r, h1)" "malloc_ok h bs (malloc_block len) r h1 bs1"
    by (rule malloc_spec [OF wf lz _ big]) (use lm ml in simp)
  show ?thesis
  proof (cases r)
    case None
    moreover have "malloc_block len = malloc_block n" by (simp add: malloc_block_def lal len_def [symmetric])
    ultimately show ?thesis using unf mal by (simp add: malloc_ok_def a_def)
  next
    case (Some p)
    then obtain c e where c: "p = addr h c + 12" "c \<in> set bs" "\<not> taken h c" "unat c + 12 + unat (malloc_block len) \<le> unat e"
        "allocs h1 bs1 = insert (c, e) (allocs h bs)" "unat c + 12 + unat (malloc_block len) \<le> unat (hm_next (blk h c))"
      and wf1: "heap_wf h1 bs1" and fr1: "heap_frame h h1"
      using mal(2) by (auto simp: malloc_ok_def fits_def)
    have "(b, hm_next (blk h b)) \<in> allocs h1 bs1" using c(5) b by (simp add: allocs_iff)
    then have b1: "b \<in> set bs1" "taken h1 b" "hm_next (blk h1 b) = hm_next (blk h b)" by (simp_all add: allocs_iff)
    obtain h' bs' where f: "rt_free 0 (Some (addr h1 b + SIZEOF_STRUCT_MEM)) h1 = Ok h'" "heap_wf h' bs'"
        "allocs h' bs' = allocs h1 bs1 - {(b, hm_next (blk h1 b))}" "heap_frame h1 h'"
      by (rule free_ok [OF wf1 b1(1,2)]) blast
    have "rt_realloc 0 (Some a) n h m = Ok (Some p, h', rt_memcpy p a (unat (min old len)) m)"
    proof -
      have "(if old < len then old else len) = min old len" by (auto simp: min_def)
      then show ?thesis using unf mal(1) Some f(1) heap_frame_addr [OF fr1] by (simp add: a_def Let_def)
    qed
    moreover have "allocs h' bs' = insert (c, e) (allocs h bs - {(b, hm_next (blk h b))})"
      using f(3) c(3,5) b b1(3) by auto
    moreover have "unat len \<le> unat (malloc_block len)"
      by (simp add: malloc_block_def lal Let_def word_less_nat_alt)
    ultimately show ?thesis
      using c f(2) heap_frame_trans [OF fr1 f(4)] unfolding realloc_moved_def a_def len_def
      by (intro disjI2 exI [of _ c] exI [of _ e] exI [of _ h'] exI [of _ bs']) simp
  qed
qed

text \<open>The copy finds the old bytes in the new block.\<close>

lemma realloc_contents:
  assumes sh: "heap_shape h bs" and b: "b \<in> set bs" and c: "c \<in> set bs" "c \<noteq> b"
    and k: "unat b + 12 + k \<le> unat (hm_next (blk h b))" "unat c + 12 + k \<le> unat (hm_next (blk h c))"
  shows "i < k \<Longrightarrow> rt_memcpy (addr h c + 12) (addr h b + 12) k m (addr h c + 12 + of_nat i) = m (addr h b + 12 + of_nat i)"
    and "k \<le> unat (x - (addr h c + 12)) \<Longrightarrow> rt_memcpy (addr h c + 12) (addr h b + 12) k m x = m x"
proof -
  have nxt: "unat (hm_next (blk h x)) \<le> unat (heap_end h)" if x: "x \<in> set bs" for x
  proof -
    obtain us vs where "bs = us @ x # vs" using split_list [OF x] by blast
    then show ?thesis using shape_next(2) [of h us x vs] heap_shape_nat(1) [OF sh] sh by simp
  qed
  have ord: "unat (hm_next (blk h x)) \<le> unat y" if xs: "bs = us @ x # vs" "y \<in> set vs" for us x vs y
    using hseg_bounds(2) [OF hseg_mid(3), of "blk h" 0 0 us x vs "heap_end h" y] sh xs by (auto simp: heap_shape_def)
  have "unat (hm_next (blk h b)) \<le> unat c \<or> unat (hm_next (blk h c)) \<le> unat b"
  proof -
    obtain us vs where bs: "bs = us @ b # vs" using b by (auto simp: in_set_conv_decomp)
    then consider "c \<in> set vs" | ws zs where "us = ws @ c # zs" using c by (auto simp: in_set_conv_decomp)
    then show ?thesis using ord [OF bs] ord [of _ c _ b] bs by cases auto
  qed
  moreover note heap_addr(1) [OF sh b] heap_addr(1) [OF sh c(1)] nxt [OF b] nxt [OF c(1)] heap_shape_nat(2) [OF sh] k
  moreover have "k < 2 ^ 32"
  proof -
    have "unat (hm_next (blk h b)) < 2 ^ 32" using unsigned_less [of "hm_next (blk h b)"] by simp
    then show ?thesis using k(1) by linarith
  qed
  ultimately have "copy_up_safe (addr h c + 12) (addr h b + 12) k"
    by (intro memcpy_disjoint) linarith+
  then have eq: "rt_memcpy (addr h c + 12) (addr h b + 12) k m = copied (addr h c + 12) (addr h b + 12) k m"
    using \<open>k < 2 ^ 32\<close> by (simp add: rt_memcpy_copied)
  show "rt_memcpy (addr h c + 12) (addr h b + 12) k m (addr h c + 12 + of_nat i) = m (addr h b + 12 + of_nat i)" if "i < k"
  proof -
    have "unat (of_nat i :: u32) = i" using that \<open>k < 2 ^ 32\<close> by (simp add: unat_of_nat take_bit_nat_eq_self)
    then show ?thesis unfolding eq copied_def using that by simp
  qed
  show "rt_memcpy (addr h c + 12) (addr h b + 12) k m x = m x" if "k \<le> unat (x - (addr h c + 12))"
    unfolding eq copied_def using that by simp
qed

section \<open>Wrap-around\<close>

text \<open>A request within three bytes of the top of the address space rounds to nothing.\<close>

text \<open>A block that grows keeps its bytes, at the old place if there is no room and at the new one otherwise.\<close>

lemma realloc_grow:
  assumes wf: "heap_wf h bs" and b: "b \<in> set bs" "taken h b" and n: "unat n + 3 < 2 ^ 32"
    and fit: "rt_align n \<le> mem_size_aligned h" and big: "12 \<le> unat (mem_size_aligned h)"
    and grow: "unat (hm_next (blk h b)) < unat b + 12 + unat (rt_align n)"
  defines "p \<equiv> addr h b + SIZEOF_STRUCT_MEM"
  shows "rt_realloc 0 (Some p) n h m = Ok (None, h, m) \<and> no_room h bs (malloc_block n) \<or>
    (\<exists>c e h' bs' m'. rt_realloc 0 (Some p) n h m = Ok (Some (addr h c + SIZEOF_STRUCT_MEM), h', m') \<and> heap_wf h' bs' \<and>
       heap_frame h h' \<and> c \<noteq> b \<and>
       allocs h' bs' = insert (c, e) (allocs h bs - {(b, hm_next (blk h b))}) \<and> unat c + 12 + unat n \<le> unat e \<and>
       (\<forall>i < unat (hm_next (blk h b)) - unat b - 12. m' (addr h c + SIZEOF_STRUCT_MEM + of_nat i) = m (p + of_nat i)) \<and>
       (\<forall>x. unat (hm_next (blk h b)) - unat b - 12 \<le> unat (x - (addr h c + SIZEOF_STRUCT_MEM)) \<longrightarrow> m' x = m x))"
proof -
  have sh: "heap_shape h bs" using wf by (simp add: heap_wf_def)
  obtain us vs where bs: "bs = us @ b # vs" using split_list [OF b(1)] by blast
  have nx: "unat b + 16 \<le> unat (hm_next (blk h b))" using shape_next(1) sh bs by blast
  define old where "old = hm_next (blk h b) - b - 12"
  have "unat (hm_next (blk h b) - b) = unat (hm_next (blk h b)) - unat b" using nx by (intro u32_sub) linarith
  then have uo: "unat old = unat (hm_next (blk h b)) - unat b - 12" using nx u32_sub [of 12 "hm_next (blk h b) - b"] by (simp add: old_def)
  then have lt: "unat old < unat (rt_align n)" using grow nx by linarith
  then have ne: "old \<noteq> rt_align n" "unat old \<le> unat (rt_align n) + 24" "unat (min old (rt_align n)) = unat old"
    by (auto simp: min_def word_le_nat_alt)
  have "unat (rt_align n) \<noteq> 0" using lt by linarith
  then have nz: "n \<noteq> 0" using rt_align_nat(1) [OF n] by auto
  consider "rt_realloc 0 (Some p) n h m = Ok (None, h, m)" "no_room h bs (malloc_block n)"
    | c e h' bs' where "rt_realloc 0 (Some p) n h m = Ok (Some (addr h c + SIZEOF_STRUCT_MEM), h',
          rt_memcpy (addr h c + SIZEOF_STRUCT_MEM) p (unat old) m)" "realloc_moved h bs b (rt_align n) c e h' bs'"
    using realloc_move [OF wf b nz n fit big old_def ne(1,2), of m] ne(3) by (auto simp: p_def)
  then show ?thesis
  proof cases
    case (2 c e h' bs')
    then have c: "c \<in> set bs" "\<not> taken h c" "heap_wf h' bs'" "unat c + 12 + unat (rt_align n) \<le> unat (hm_next (blk h c))"
      by (simp_all add: realloc_moved_def)
    then have cb: "c \<noteq> b" using b(2) by auto
    have k: "unat b + 12 + unat old \<le> unat (hm_next (blk h b))" "unat c + 12 + unat old \<le> unat (hm_next (blk h c))"
      using uo nx c(4) lt by linarith+
    note con = realloc_contents [OF sh b(1) c(1) cb k, of _ m, folded p_def]
    have "unat c + 12 + unat n \<le> unat e" using 2(2) rt_align_nat(2) [OF n] by (simp add: realloc_moved_def)
    then show ?thesis
      using 2 con cb uo unfolding realloc_moved_def
      by (intro disjI2 exI [of _ c] exI [of _ e] exI [of _ h'] exI [of _ bs']) auto
  qed simp
qed

lemma malloc_wraps:
  assumes "n \<in> {0xfffffffd, 0xfffffffe, 0xffffffff}" "4 \<le> mem_size_aligned h"
  shows "rt_malloc nest n h = rt_malloc nest 1 h"
proof -
  have "rt_align n = 0" "rt_align 1 = 4" "n \<noteq> 0" using assms(1) by (auto simp: rt_align_def)
  moreover have "\<not> mem_size_aligned h < 4" using assms(2) by simp
  ultimately show ?thesis unfolding rt_malloc_def Let_def by (cases "nest = 0") simp_all
qed

text \<open>\<^verbatim>\<open>rt_calloc\<close> multiplies in 32 bits.\<close>

lemma calloc_ok:
  assumes wf: "heap_wf h bs" and big: "12 \<le> unat (mem_size_aligned h)"
    and n: "0 < unat count * unat len" "unat count * unat len + 3 < 2 ^ 32"
  obtains h' bs' where "rt_calloc 0 count len h m = Ok (None, h', m)" "malloc_ok h bs (malloc_block (count * len)) None h' bs'"
  | p h' bs' m' where "rt_calloc 0 count len h m = Ok (Some p, h', m')" "malloc_ok h bs (malloc_block (count * len)) (Some p) h' bs'"
      "\<forall>x. m' x = (if unat (x - p) < unat count * unat len then 0 else m x)"
proof -
  have u: "unat (count * len) = unat count * unat len"
    using n(2) by (simp add: unat_word_ariths)
  have nz: "count * len \<noteq> 0" using u n(1) by (metis less_irrefl unat_0)
  obtain r h' bs' where r: "rt_malloc 0 (count * len) h = Ok (r, h')" "malloc_ok h bs (malloc_block (count * len)) r h' bs'"
    by (rule malloc_spec [OF wf nz _ big]) (use u n in simp)
  show ?thesis
  proof (cases r)
    case None
    then show ?thesis using that(1) r by (simp add: rt_calloc_def)
  next
    case (Some p)
    have "unat count * unat len \<le> 2 ^ 32" using n(2) by simp
    then have "rt_calloc 0 count len h m = Ok (Some p, h', fill p 0 (unat count * unat len) m)"
      using r Some u by (simp add: rt_calloc_def rt_memset_fill)
    then show ?thesis using that(2) r Some by (simp add: fill_def)
  qed
qed

section \<open>Every heap that is reached\<close>

text \<open>
  Programs that free and reallocate only blocks they were given.  \<open>live a h\<close>: \<open>a\<close> is the address of a
  block that is handed out.
\<close>

definition live :: "u32 \<Rightarrow> heap \<Rightarrow> bool" where
  "live a h \<longleftrightarrow> (\<exists>bs b e. heap_shape h bs \<and> (b, e) \<in> allocs h bs \<and> a = addr h b + SIZEOF_STRUCT_MEM)"

lemma hseg_unique: "hseg B p a xs e \<Longrightarrow> hseg B p a ys e \<Longrightarrow> xs = ys"
proof (induction xs arbitrary: p a ys)
  case Nil
  then show ?case using hseg_bounds(2) [OF Nil.prems(2), of e] by (cases ys) auto
next
  case (Cons x xs)
  then have "ys \<noteq> []" using hseg_bounds(2) [OF Cons.prems(1), of x] by auto
  then obtain y zs where "ys = y # zs" by (cases ys) auto
  then show ?case using Cons by auto
qed

lemma shape_unique: "heap_shape h bs \<Longrightarrow> heap_shape h cs \<Longrightarrow> bs = cs"
  using hseg_unique [of "blk h" 0 0 bs "heap_end h" cs] unfolding heap_shape_def by blast

lemma liveE:
  assumes "live a h" "heap_wf h bs"
  obtains b where "b \<in> set bs" "taken h b" "a = addr h b + 12"
  using assms shape_unique [of h _ bs] by (auto simp: live_def heap_wf_def allocs_iff)

datatype heap_call = Malloc u32 | Calloc u32 u32 | Realloc "u32 option" u32 | Free u32

fun heap_exec :: "heap_call \<Rightarrow> heap \<Rightarrow> mem \<Rightarrow> (heap \<times> mem) res" where
  "heap_exec (Malloc n) h m = rbind (rt_malloc 0 n h) (\<lambda>(p, h). Ok (h, m))"
| "heap_exec (Calloc c n) h m = rbind (rt_calloc 0 c n h m) (\<lambda>(p, h, m). Ok (h, m))"
| "heap_exec (Realloc r n) h m = rbind (rt_realloc 0 r n h m) (\<lambda>(p, h, m). Ok (h, m))"
| "heap_exec (Free a) h m = rbind (rt_free 0 (Some a) h) (\<lambda>h. Ok (h, m))"

fun heap_call_ok :: "heap_call \<Rightarrow> heap \<Rightarrow> bool" where
  "heap_call_ok (Malloc n) h \<longleftrightarrow> unat n + 3 < 2 ^ 32"
| "heap_call_ok (Calloc c n) h \<longleftrightarrow> unat c * unat n + 3 < 2 ^ 32"
| "heap_call_ok (Realloc r n) h \<longleftrightarrow> unat n + 3 < 2 ^ 32 \<and> (\<forall>a. r = Some a \<longrightarrow> live a h)"
| "heap_call_ok (Free a) h \<longleftrightarrow> live a h"

lemma malloc_wf:
  assumes "heap_wf h bs" "unat n + 3 < 2 ^ 32" "12 \<le> unat (mem_size_aligned h)"
  shows "\<exists>r h' bs'. rt_malloc 0 n h = Ok (r, h') \<and> heap_wf h' bs' \<and> heap_frame h h'"
proof (cases "n = 0")
  case True
  then show ?thesis using assms(1) by (auto simp: rt_malloc_def)
next
  case False
  obtain r h' bs' where "rt_malloc 0 n h = Ok (r, h')" "malloc_ok h bs (malloc_block n) r h' bs'"
    by (rule malloc_spec [OF assms(1) False assms(2,3)])
  then show ?thesis by (auto simp: malloc_ok_def)
qed

lemma realloc_wf:
  assumes wf: "heap_wf h bs" and b: "b \<in> set bs" "taken h b" and n: "unat n + 3 < 2 ^ 32" and big: "12 \<le> unat (mem_size_aligned h)"
  shows "\<exists>r h' bs' m'. rt_realloc 0 (Some (addr h b + SIZEOF_STRUCT_MEM)) n h m = Ok (r, h', m') \<and> heap_wf h' bs' \<and> heap_frame h h'"
proof -
  let ?a = "addr h b + SIZEOF_STRUCT_MEM"
  have sh: "heap_shape h bs" using wf by (simp add: heap_wf_def)
  obtain xs ys where bs: "bs = xs @ b # ys" using split_list [OF b(1)] by blast
  note nx = shape_next [OF sh [unfolded bs]]
  note ha = heap_addr [OF sh b(1)]
  have on: "unat (hm_next (blk h b) - b - 12) = unat (hm_next (blk h b)) - unat b - 12"
  proof -
    have "hm_next (blk h b) - b - 12 = hm_next (blk h b) - (b + 12)" by simp
    then show ?thesis using nx(4) by metis
  qed
  consider "rt_align n > mem_size_aligned h" | "rt_align n = 0" | "rt_align n \<le> mem_size_aligned h" "rt_align n \<noteq> 0" by force
  then show ?thesis
  proof cases
    case 1
    then have "rt_realloc 0 (Some ?a) n h m = Ok (None, h, m)" by (simp add: rt_realloc_def Let_def)
    then show ?thesis using wf by auto
  next
    case 2
    obtain h' bs' where f: "rt_free 0 (Some ?a) h = Ok h'" "heap_wf h' bs'" "heap_frame h h'"
      by (rule free_ok [OF wf b]) blast
    have "rt_realloc 0 (Some ?a) n h m = Ok (None, h', m)" using 2 f(1) by (simp add: rt_realloc_def Let_def)
    then show ?thesis using f by blast
  next
    case 3
    have nz: "n \<noteq> 0" using 3(2) by (auto simp: rt_align_def)
    have "unat (hm_next (blk h b) - b - 12) \<le> unat (rt_align n) + 24" if "\<not> unat b + unat (rt_align n) + 36 < unat (hm_next (blk h b))"
      using that on by linarith
    then consider "hm_next (blk h b) - b - 12 = rt_align n" | "unat b + unat (rt_align n) + 36 < unat (hm_next (blk h b))"
      | "hm_next (blk h b) - b - 12 \<noteq> rt_align n" "unat (hm_next (blk h b) - b - 12) \<le> unat (rt_align n) + 24"
      by blast
    then show ?thesis
    proof cases
      case 1
      have "\<not> (?a < heap_ptr h \<or> ?a \<ge> addr h (heap_end h))" using ha(4,5) by auto
      then have "rt_realloc 0 (Some ?a) n h m = Ok (Some ?a, h, m)"
        using 1 3 ha(2) unfolding rt_realloc_def Let_def by simp
      then show ?thesis using wf by auto
    next
      case 2
      then obtain h' bs' where "rt_realloc 0 (Some ?a) n h m = Ok (Some ?a, h', m)" "heap_wf h' bs'" "heap_frame h h'"
        using realloc_shrink [OF wf b nz n] by metis
      then show ?thesis by blast
    next
      case m: 3
      from realloc_move [OF wf b nz n 3(1) big refl m(1,2), of m] wf show ?thesis
        by (elim disjE exE conjE) (auto simp: realloc_moved_def)
    qed
  qed
qed

lemma heap_exec_ok:
  assumes wf: "heap_wf h bs" and big: "12 \<le> unat (mem_size_aligned h)" and ok: "heap_call_ok c h"
  shows "\<exists>h' m' bs'. heap_exec c h m = Ok (h', m') \<and> heap_wf h' bs' \<and> heap_frame h h'"
proof (cases c)
  case (Malloc n)
  then show ?thesis using malloc_wf [OF wf _ big, of n] ok by auto
next
  case (Calloc k n)
  have "unat (k * n) + 3 < 2 ^ 32" using ok Calloc by (simp add: unat_word_ariths)
  then obtain r h' bs' where "rt_malloc 0 (k * n) h = Ok (r, h')" "heap_wf h' bs'" "heap_frame h h'"
    using malloc_wf [OF wf _ big] by blast
  then show ?thesis using Calloc by (cases r) (auto simp: rt_calloc_def)
next
  case (Realloc r n)
  show ?thesis
  proof (cases r)
    case None
    consider "rt_align n > mem_size_aligned h" | "rt_align n = 0" | "rt_align n \<le> mem_size_aligned h" "rt_align n \<noteq> 0" by force
    then show ?thesis
    proof cases
      case 3
      have "unat (rt_align n) + 3 < 2 ^ 32"
        using 3(1) wf by (simp add: heap_wf_def heap_shape_def word_le_nat_alt)
      then obtain p h' bs' where "rt_malloc 0 (rt_align n) h = Ok (p, h')" "heap_wf h' bs'" "heap_frame h h'"
        using malloc_wf [OF wf _ big] by blast
      then show ?thesis using Realloc None 3 by (auto simp: rt_realloc_def Let_def)
    qed (use wf Realloc None in \<open>auto simp: rt_realloc_def rt_free_def Let_def\<close>)
  next
    case (Some a)
    have "live a h" using ok Realloc Some by simp
    then obtain b where b: "b \<in> set bs" "taken h b" "a = addr h b + 12" using wf by (rule liveE)
    have n: "unat n + 3 < 2 ^ 32" using ok Realloc by simp
    from realloc_wf [OF wf b(1,2) n big, of m] show ?thesis using Realloc Some b(3) by auto
  qed
next
  case (Free a)
  then have "live a h" using ok by simp
  then obtain b where b: "b \<in> set bs" "taken h b" "a = addr h b + 12" using wf by (rule liveE)
  obtain h' bs' where "rt_free 0 (Some (addr h b + 12)) h = Ok h'" "heap_wf h' bs'" "heap_frame h h'"
    by (rule free_ok [OF wf b(1,2)]) blast
  then show ?thesis using Free b(3) by auto
qed

inductive heap_reach :: "heap \<Rightarrow> heap \<Rightarrow> mem \<Rightarrow> bool" for h0 where
  start: "heap_reach h0 h0 m"
| call: "heap_reach h0 h m \<Longrightarrow> heap_call_ok c h \<Longrightarrow> heap_exec c h m = Ok (h', m') \<Longrightarrow> heap_reach h0 h' m'"

lemma heap_reach_wf:
  assumes "heap_reach h0 h m" "heap_wf h0 bs0" "12 \<le> unat (mem_size_aligned h0)"
  shows "(\<exists>bs. heap_wf h bs) \<and> heap_frame h0 h"
  using assms
proof (induction rule: heap_reach.induct)
  case start
  then show ?case by auto
next
  case (call h m c h' m')
  then obtain bs where bs: "heap_wf h bs" and fr: "heap_frame h0 h" by blast
  have "12 \<le> unat (mem_size_aligned h)" using fr call.prems(2) by (simp add: heap_frame_def)
  from heap_exec_ok [OF bs this call.hyps(2), of m] call.hyps(3) obtain bs' where "heap_wf h' bs'" "heap_frame h h'" by auto
  then show ?case using heap_frame_trans [OF fr] by blast
qed

end
