(* ===== verification/RT_Alloc.thy ===== *)
theory RT_Alloc
  imports RT_Heap_Props RT_Strings
begin

text \<open>
  The functions of \<^verbatim>\<open>src/src/kservice.c\<close> on top of the system heap: \<^verbatim>\<open>rt_strdup\<close>, \<^verbatim>\<open>rt_malloc_align\<close> and \<^verbatim>\<open>rt_free_align\<close>. An aligned
  block is part of a larger one, whose address is stored in the word below it.
\<close>

section \<open>Operations\<close>

definition rt_strdup :: "u8 \<Rightarrow> u32 \<Rightarrow> heap \<Rightarrow> mem \<Rightarrow> (u32 option \<times> heap \<times> mem) res" where
  "rt_strdup nest s h m =
     rbind (loop_res (map_option Ok (rt_strlen (\<lambda>i. m (s + of_nat i))))) (\<lambda>n.
     let len = of_nat n + 1 :: u32
     in rbind (rt_malloc nest len h) (\<lambda>(tmp, h).
        case tmp of
          None \<Rightarrow> Ok (None, h, m)
        | Some tmp \<Rightarrow> Ok (Some tmp, h, rt_memcpy tmp s (unat len) m)))"

definition align_up :: "u32 \<Rightarrow> u32 \<Rightarrow> u32" where
  "align_up align ptr = (if ptr AND (align - 1) = 0 then ptr + align else (ptr + (align - 1)) AND NOT (align - 1))"

definition rt_malloc_align :: "u8 \<Rightarrow> u32 \<Rightarrow> u32 \<Rightarrow> heap \<Rightarrow> mem \<Rightarrow> (u32 option \<times> heap \<times> mem) res" where
  "rt_malloc_align nest len align h m =
     (let align = (align + 3) AND NOT 3;
          align_size = ((len + 3) AND NOT 3) + align
      in rbind (rt_malloc nest align_size h) (\<lambda>(ptr, h).
         case ptr of
           None \<Rightarrow> Ok (None, h, m)
         | Some ptr \<Rightarrow>
             (let align_ptr = align_up align ptr
              in Ok (Some align_ptr, h, write32 (align_ptr - 4) ptr m))))"

definition rt_free_align :: "u8 \<Rightarrow> u32 \<Rightarrow> heap \<Rightarrow> mem \<Rightarrow> heap res" where
  "rt_free_align nest ptr h m =
     (let real_ptr = read32 m (ptr - 4)
      in rt_free nest (if real_ptr = 0 then None else Some real_ptr) h)"

section \<open>Alignment\<close>

lemma unat_clear_low:
  fixes w :: u32
  shows "unat (w AND NOT (mask k)) = unat w - unat w mod 2 ^ k"
proof -
  have "(w AND mask k) AND (w AND NOT (mask k)) = 0" "(w AND mask k) OR (w AND NOT (mask k)) = w"
    by (rule bit_word_eqI; auto simp: bit_simps)+
  then have "(w AND mask k) + (w AND NOT (mask k)) = w"
    using word_plus_and_or [of "w AND mask k" "w AND NOT (mask k)"] by simp
  then have "w AND NOT (mask k) = w - (w AND mask k)" by (metis add_diff_cancel_left')
  moreover have "unat (w AND mask k) = unat w mod 2 ^ k"
    by (simp only: take_bit_eq_mask [symmetric] unsigned_take_bit_eq) (simp only: take_bit_eq_mod)
  moreover have "w AND mask k \<le> w" by (rule word_and_le2)
  ultimately show ?thesis by (simp add: unat_sub)
qed

lemma unat_two_power:
  assumes "k < 32"
  shows "unat (2 ^ k :: u32) = 2 ^ k"
proof -
  have "(2 :: nat) ^ k < 2 ^ 32" using assms by (intro power_strict_increasing) simp_all
  then have "unat (of_nat (2 ^ k) :: u32) = 2 ^ k" by (simp only: unat_of_nat) simp
  then show ?thesis by simp
qed

lemma next_multiple:
  fixes p a :: nat
  assumes "4 dvd a" "4 dvd p" "\<not> a dvd p" and a: "0 < a"
  shows "p + a - 1 - (p + a - 1) mod a = p + a - p mod a" "p mod a + 4 \<le> a" "a dvd p + a - p mod a"
proof -
  have r: "0 < p mod a" "p mod a < a" using assms(3) a by (auto simp: dvd_eq_mod_eq_0)
  have pm: "p mod a \<le> p" by simp
  have "p + a - 1 = (p mod a - 1) + a * (p div a + 1)"
  proof -
    have "p = p mod a + a * (p div a)" by simp
    moreover have "a * (p div a + 1) = a * (p div a) + a" by simp
    ultimately show ?thesis using r(1) by linarith
  qed
  then have "(p + a - 1) mod a = p mod a - 1" using r by (simp only: mod_mult_self2) simp
  then show "p + a - 1 - (p + a - 1) mod a = p + a - p mod a" using r pm by simp
  have "4 dvd p mod a" using assms(1,2) by (simp add: dvd_mod)
  then have "4 dvd a - p mod a" using assms(1) by (rule dvd_diff_nat [rotated])
  then show "p mod a + 4 \<le> a" using r(2) by (auto dest: dvd_imp_le)
  have "p + a - p mod a = a * (p div a + 1)"
  proof -
    have "p = p mod a + a * (p div a)" by simp
    moreover have "a * (p div a + 1) = a * (p div a) + a" by simp
    ultimately show ?thesis by linarith
  qed
  then show "a dvd p + a - p mod a" by simp
qed

lemma align_up_bounds:
  assumes k: "2 \<le> k" "k < 32" and p: "unat p mod 4 = 0" "unat p + 2 ^ k < 2 ^ 32"
  shows "2 ^ k dvd unat (align_up (2 ^ k) p)" "unat p + 4 \<le> unat (align_up (2 ^ k) p)" "unat (align_up (2 ^ k) p) \<le> unat p + 2 ^ k"
proof -
  have a: "unat (2 ^ k :: u32) = 2 ^ k" using k(2) by (rule unat_two_power)
  have m: "(2 ^ k :: u32) - 1 = mask k" by (simp add: mask_eq_exp_minus_1)
  have um: "unat (mask k :: u32) = 2 ^ k - 1" using k(2) by (simp add: m [symmetric] unat_minus_one a)
  have pos: "(1 :: nat) \<le> 2 ^ k" by simp
  have d4: "(4 :: nat) dvd 2 ^ k" using le_imp_power_dvd [OF k(1), of "2 :: nat"] by simp
  have "2 ^ k dvd unat (align_up (2 ^ k) p) \<and> unat p + 4 \<le> unat (align_up (2 ^ k) p) \<and> unat (align_up (2 ^ k) p) \<le> unat p + 2 ^ k"
  proof (cases "2 ^ k dvd unat p")
    case True
    then have "unat (align_up (2 ^ k) p) = unat p + 2 ^ k"
      using u32_add [of p "2 ^ k"] p(2) a by (simp add: align_up_def m and_mask_dvd_nat)
    moreover have "(4 :: nat) \<le> 2 ^ k" using d4 by (rule dvd_imp_le) simp
    ultimately show ?thesis using True by simp
  next
    case False
    then have "unat (align_up (2 ^ k) p) = unat (p + mask k) - unat (p + mask k) mod 2 ^ k"
      by (simp add: align_up_def m and_mask_dvd_nat unat_clear_low)
    also have "unat (p + mask k) = unat p + 2 ^ k - 1" using u32_add [of p "mask k"] p(2) um pos by simp
    finally have q: "unat (align_up (2 ^ k) p) = unat p + 2 ^ k - 1 - (unat p + 2 ^ k - 1) mod 2 ^ k" .
    have "4 dvd unat p" using p(1) by (simp add: dvd_eq_mod_eq_0)
    note n = next_multiple [OF d4 this False zero_less_power [OF zero_less_numeral]]
    have q': "unat (align_up (2 ^ k) p) = unat p + 2 ^ k - unat p mod 2 ^ k" using q n(1) by (simp only:)
    show ?thesis unfolding q' using n(2,3) by simp
  qed
  then show "2 ^ k dvd unat (align_up (2 ^ k) p)" "unat p + 4 \<le> unat (align_up (2 ^ k) p)" "unat (align_up (2 ^ k) p) \<le> unat p + 2 ^ k"
    by simp_all
qed

section \<open>What they do\<close>

lemma malloc_then_free:
  assumes wf: "heap_wf h bs" and n: "n \<noteq> 0" "unat n + 3 < 2 ^ 32" and big: "12 \<le> unat (mem_size_aligned h)"
    and ok: "rt_malloc 0 n h = Ok (Some p, h1)"
  obtains b e bs1 h2 bs2 where "p = addr h b + SIZEOF_STRUCT_MEM" "heap_wf h1 bs1" "allocs h1 bs1 = insert (b, e) (allocs h bs)"
    "unat p = unat (heap_ptr h) + unat b + 12" "unat p mod 4 = 0" "p \<noteq> 0" "unat b + 12 + unat n \<le> unat e"
    "unat (heap_ptr h) + unat e < 2 ^ 32"
    "rt_free 0 (Some p) h1 = Ok h2" "heap_wf h2 bs2" "allocs h2 bs2 = allocs h bs" "allocs h bs = {} \<longrightarrow> bs2 = [0] \<and> used_mem h2 = 0"
proof -
  obtain r h' bs' where "rt_malloc 0 n h = Ok (r, h')" "malloc_ok h bs (malloc_block n) r h' bs'"
    by (rule malloc_spec [OF wf n big])
  then obtain b e where b: "p = addr h b + SIZEOF_STRUCT_MEM" "b \<in> set bs" "fits h (malloc_block n) b"
      "allocs h1 bs' = insert (b, e) (allocs h bs)" "unat b + 12 + unat (malloc_block n) \<le> unat e"
      and wf1: "heap_wf h1 bs'" and fr: "heap_frame h h1"
    using ok by (auto simp: malloc_ok_def)
  have sh: "heap_shape h bs" "heap_shape h1 bs'" using wf wf1 by (simp_all add: heap_wf_def)
  note ad = heap_addr [OF sh(1) b(2)]
  have "(b, e) \<in> allocs h1 bs'" using b(4) by simp
  then have b1: "b \<in> set bs'" "taken h1 b" "e = hm_next (blk h1 b)" by (simp_all add: allocs_iff)
  then obtain xs ys where split: "bs' = xs @ b # ys" by (auto dest: split_list)
  have e: "unat e \<le> unat (mem_size_aligned h) + 12"
    using shape_next(2) [of h1 xs b ys] sh(2) split b1(3) fr by (simp add: heap_frame_def)
  have hs: "unat (heap_ptr h) + unat (mem_size_aligned h) + 24 < 2 ^ 32" "unat (heap_ptr h) mod 4 = 0"
    using sh(1) by (simp_all add: heap_shape_def)
  have b4: "unat b mod 4 = 0" using shape_next(5) [of h1 xs b ys] sh(2) split by simp
  obtain h2 bs2 where h2: "rt_free 0 (Some (addr h1 b + SIZEOF_STRUCT_MEM)) h1 = Ok h2" "heap_wf h2 bs2"
      "allocs h2 bs2 = allocs h1 bs' - {(b, hm_next (blk h1 b))}"
    by (rule free_ok [OF wf1 b1(1,2)]) blast
  have "(b, e) \<notin> allocs h bs" using b(3) by (auto simp: allocs_iff fits_def)
  then have al: "allocs h2 bs2 = allocs h bs" using h2(3) b(4) b1(3) by auto
  have le: "unat n \<le> unat (malloc_block n)"
    using rt_align_nat(2) [OF n(2)] by (auto simp: malloc_block_def Let_def word_less_nat_alt)
  have up: "unat p = unat (heap_ptr h) + unat b + 12" using ad(1) b(1) by simp
  have "unat p mod 4 = 0" using up hs(2) b4 by presburger
  moreover have "p \<noteq> 0" using up by auto
  moreover have "rt_free 0 (Some p) h1 = Ok h2" using h2(1) b(1) heap_frame_addr [OF fr] by simp
  moreover have "allocs h bs = {} \<longrightarrow> bs2 = [0] \<and> used_mem h2 = 0" using all_free_single [OF h2(2)] al by simp
  moreover have "unat (heap_ptr h) + unat e < 2 ^ 32" using e hs(1) by linarith
  moreover have "unat b + 12 + unat n \<le> unat e" using b(5) le by linarith
  ultimately show ?thesis using b(1,4) wf1 up h2(2) al by - (rule that [of b bs' e h2 bs2]; assumption)
qed

text \<open>An aligned block lies in the block that the heap handed out, and gives that block back.\<close>

lemma malloc_align_ok:
  assumes wf: "heap_wf h bs" and k: "2 \<le> k" "k < 32" and n: "unat n + 2 ^ k + 6 < 2 ^ 32" and big: "12 \<le> unat (mem_size_aligned h)"
    and ok: "rt_malloc_align 0 n (2 ^ k) h m = Ok (Some q, h1, m1)"
  shows "\<exists>b e bs1. heap_wf h1 bs1 \<and> allocs h1 bs1 = insert (b, e) (allocs h bs) \<and> 2 ^ k dvd unat q \<and>
    unat (heap_ptr h) + unat b + 16 \<le> unat q \<and> unat q + unat n \<le> unat (heap_ptr h) + unat e \<and>
    (\<forall>m2. (\<forall>i<4. m2 (q - 4 + of_nat i) = m1 (q - 4 + of_nat i)) \<longrightarrow>
       (\<exists>h2 bs2. rt_free_align 0 q h1 m2 = Ok h2 \<and> heap_wf h2 bs2 \<and> allocs h2 bs2 = allocs h bs))"
proof -
  have ua: "unat (2 ^ k :: u32) = 2 ^ k" using k(2) by (rule unat_two_power)
  have n3: "unat n + 3 < 2 ^ 32" using n by linarith
  have d4: "(4 :: nat) dvd 2 ^ k" using le_imp_power_dvd [OF k(1), of "2 :: nat"] by simp
  have "unat (rt_align (2 ^ k)) = 4 * ((2 ^ k + 3) div 4)" using rt_align_nat(1) [of "2 ^ k"] n ua by simp
  also have "\<dots> = 2 ^ k" using d4 by auto
  finally have al: "rt_align (2 ^ k) = 2 ^ k" using ua by (simp add: word_unat_eq_iff)
  note an = rt_align_nat [OF n3]
  define sz where "sz = rt_align n + 2 ^ k"
  have us: "unat sz = unat (rt_align n) + 2 ^ k" using u32_add [of "rt_align n" "2 ^ k"] an(3) n ua by (simp add: sz_def)
  obtain p where p: "rt_malloc 0 sz h = Ok (Some p, h1)" "q = align_up (2 ^ k) p" "m1 = write32 (q - 4) p m"
    using ok unfolding rt_malloc_align_def Let_def rt_align_def [symmetric] al sz_def [symmetric]
    by (cases "rt_malloc 0 sz h") (auto split: option.splits prod.splits)
  have pos: "(0 :: nat) < 2 ^ k" by simp
  have "sz \<noteq> 0" using us pos by (metis add_gr_0 less_not_refl unat_0)
  moreover have "unat sz + 3 < 2 ^ 32" using us an(3) n by linarith
  ultimately obtain b e bs1 h2 bs2 where f: "heap_wf h1 bs1" "allocs h1 bs1 = insert (b, e) (allocs h bs)"
      "unat p = unat (heap_ptr h) + unat b + 12" "unat p mod 4 = 0" "p \<noteq> 0" "unat b + 12 + unat sz \<le> unat e"
      "unat (heap_ptr h) + unat e < 2 ^ 32" "rt_free 0 (Some p) h1 = Ok h2" "heap_wf h2 bs2" "allocs h2 bs2 = allocs h bs"
    using malloc_then_free [OF wf _ _ big p(1)] by metis
  have "unat p + 2 ^ k < 2 ^ 32" using f(3,6,7) us by linarith
  note q = align_up_bounds [OF k f(4) this, folded p(2)]
  have "rt_free_align 0 q h1 m2 = Ok h2" if "\<forall>i<4. m2 (q - 4 + of_nat i) = m1 (q - 4 + of_nat i)" for m2
  proof -
    have "read32 m2 (q - 4) = p" using that read32_cong [of m2 "q - 4" m1] by (simp add: p(3) read32_write32)
    then show ?thesis using f(5,8) by (simp add: rt_free_align_def)
  qed
  then have "\<forall>m2. (\<forall>i<4. m2 (q - 4 + of_nat i) = m1 (q - 4 + of_nat i)) \<longrightarrow>
      (\<exists>h2 bs2. rt_free_align 0 q h1 m2 = Ok h2 \<and> heap_wf h2 bs2 \<and> allocs h2 bs2 = allocs h bs)"
    using f(9,10) by blast
  moreover have "unat (heap_ptr h) + unat b + 16 \<le> unat q" using q(2) f(3) by linarith
  moreover have "unat q + unat n \<le> unat (heap_ptr h) + unat e" using q(3) f(3,6) us an(2) by linarith
  ultimately show ?thesis using f(1,2) q(1) by blast
qed

text \<open>A duplicate of a string has its characters.\<close>

lemma strdup_ok:
  assumes s: "cstring (\<lambda>i. m (s + of_nat i)) xs" "length xs + 4 < 2 ^ 32"
    and ok: "rt_strdup 0 s h m = Ok (Some tmp, h', m')" and ap: "copy_up_safe tmp s (length xs + 1)"
  shows "cstring (\<lambda>i. m' (tmp + of_nat i)) xs"
proof -
  have len: "unat (of_nat (length xs) + 1 :: u32) = length xs + 1"
    using s(2) u32_add [of "of_nat (length xs)" 1] by (simp add: unat_of_nat take_bit_nat_eq_self)
  have "m' = rt_memcpy tmp s (length xs + 1) m"
    using ok rt_strlen_cstring [OF s(1)] len unfolding rt_strdup_def Let_def
    by (cases "rt_malloc 0 (of_nat (length xs) + 1) h") (auto simp: loop_res_def split: option.splits prod.splits)
  then have "m' = copied tmp s (length xs + 1) m" using rt_memcpy_copied [OF _ ap] s(2) by simp
  then have "m' (tmp + of_nat i) = m (s + of_nat i)" if "i \<le> length xs" for i
    using that s(2) by (simp add: copied_def unat_of_nat take_bit_nat_eq_self)
  then show ?thesis using s(1) by (simp add: cstring_def)
qed

end
