(* ===== verification/RT_RingBuffer.thy ===== *)
theory RT_RingBuffer
  imports RT_Contracts RT_Heap
begin

text \<open>
  \<^verbatim>\<open>src/components/drivers/src/ringbuffer.c\<close>: the byte ring buffer of the device drivers.  The indices are
  bit fields of 15 bits, the mirrors of one bit, the size a signed 16-bit integer; the arithmetic
  between them is that of \<^verbatim>\<open>int\<close>.  A copy outside the pool is a fault of the model.  The contents are the
  bytes between the two indices; a block operation does to them what a list does.
\<close>

section \<open>The buffer\<close>

type_synonym u15 = "15 word"

record rt_ringbuffer =
  rb_buffer_ptr :: "u8 list"
  rb_read_mirror :: bool
  rb_read_index :: u15
  rb_write_mirror :: bool
  rb_write_index :: u15
  rb_buffer_size :: int

datatype rt_ringbuffer_state = RT_RINGBUFFER_EMPTY | RT_RINGBUFFER_FULL | RT_RINGBUFFER_HALFFULL

definition rt_ringbuffer_status :: "rt_ringbuffer \<Rightarrow> rt_ringbuffer_state" where
  "rt_ringbuffer_status rb =
     (if rb_read_index rb = rb_write_index rb
      then (if rb_read_mirror rb = rb_write_mirror rb then RT_RINGBUFFER_EMPTY else RT_RINGBUFFER_FULL)
      else RT_RINGBUFFER_HALFFULL)"

definition rt_ringbuffer_init :: "u8 list \<Rightarrow> int \<Rightarrow> rt_ringbuffer \<Rightarrow> rt_ringbuffer res" where
  "rt_ringbuffer_init pool len rb =
     rbind (rassert (len > 0) rb) (\<lambda>rb.
     (let rb = rb\<lparr>rb_read_mirror := False, rb_read_index := 0\<rparr>;
          rb = rb\<lparr>rb_write_mirror := False, rb_write_index := 0\<rparr>
      in Ok (rb\<lparr>rb_buffer_ptr := pool, rb_buffer_size := 4 * (len div 4)\<rparr>)))"

definition rt_ringbuffer_data_len :: "rt_ringbuffer \<Rightarrow> u32" where
  "rt_ringbuffer_data_len rb =
     (case rt_ringbuffer_status rb of
        RT_RINGBUFFER_EMPTY \<Rightarrow> 0
      | RT_RINGBUFFER_FULL \<Rightarrow> of_int (rb_buffer_size rb)
      | RT_RINGBUFFER_HALFFULL \<Rightarrow>
          (if rb_write_index rb > rb_read_index rb
           then of_int (uint (rb_write_index rb) - uint (rb_read_index rb))
           else of_int (rb_buffer_size rb - (uint (rb_read_index rb) - uint (rb_write_index rb)))))"

definition rt_ringbuffer_space_len :: "rt_ringbuffer \<Rightarrow> u32" where
  "rt_ringbuffer_space_len rb = of_int (rb_buffer_size rb) - rt_ringbuffer_data_len rb"

text \<open>\<^verbatim>\<open>memcpy\<close> into and out of the pool.\<close>

definition pool_copy :: "int \<Rightarrow> u8 list \<Rightarrow> u8 list \<Rightarrow> u8 list res" where
  "pool_copy i bs pool =
     (if 0 \<le> i \<and> nat i + length bs \<le> length pool
      then Ok (take (nat i) pool @ bs @ drop (nat i + length bs) pool)
      else Fault Out_Of_Range)"

definition pool_read :: "int \<Rightarrow> int \<Rightarrow> u8 list \<Rightarrow> u8 list res" where
  "pool_read i n pool =
     (if 0 \<le> i \<and> 0 \<le> n \<and> nat i + nat n \<le> length pool then Ok (take (nat n) (drop (nat i) pool)) else Fault Out_Of_Range)"

section \<open>Operations\<close>

text \<open>\<open>ptr\<close> are the \<^verbatim>\<open>length\<close> bytes of the caller, less than 65536; the value is the number of bytes stored.\<close>

definition rt_ringbuffer_put :: "u8 list \<Rightarrow> rt_ringbuffer \<Rightarrow> (nat \<times> rt_ringbuffer) res" where
  "rt_ringbuffer_put ptr rb =
     (let space = unat (ucast (rt_ringbuffer_space_len rb) :: u16)
      in if space = 0 then Ok (0, rb)
         else
           (let ptr = (if space < length ptr then take space ptr else ptr);
                n = int (length ptr);
                room = rb_buffer_size rb - uint (rb_write_index rb)
            in if room > n
               then
                 rbind (pool_copy (uint (rb_write_index rb)) ptr (rb_buffer_ptr rb)) (\<lambda>pool.
                 Ok (length ptr, rb\<lparr>rb_buffer_ptr := pool, rb_write_index := of_int (uint (rb_write_index rb) + n)\<rparr>))
               else
                 rbind (pool_copy (uint (rb_write_index rb)) (take (nat room) ptr) (rb_buffer_ptr rb)) (\<lambda>pool.
                 rbind (pool_copy 0 (drop (nat room) ptr) pool) (\<lambda>pool.
                 Ok (length ptr, rb\<lparr>rb_buffer_ptr := pool, rb_write_mirror := \<not> rb_write_mirror rb,
                   rb_write_index := of_int (n - room)\<rparr>)))))"

definition rt_ringbuffer_put_force :: "u8 list \<Rightarrow> rt_ringbuffer \<Rightarrow> (nat \<times> rt_ringbuffer) res" where
  "rt_ringbuffer_put_force ptr rb =
     (let space = unat (ucast (rt_ringbuffer_space_len rb) :: u16);
          ptr = (if int (length ptr) > rb_buffer_size rb then drop (nat (int (length ptr) - rb_buffer_size rb)) ptr else ptr);
          n = int (length ptr);
          room = rb_buffer_size rb - uint (rb_write_index rb)
      in if room > n
         then
           rbind (pool_copy (uint (rb_write_index rb)) ptr (rb_buffer_ptr rb)) (\<lambda>pool.
           (let rb = rb\<lparr>rb_buffer_ptr := pool, rb_write_index := of_int (uint (rb_write_index rb) + n)\<rparr>
            in Ok (length ptr, if length ptr > space then rb\<lparr>rb_read_index := rb_write_index rb\<rparr> else rb)))
         else
           rbind (pool_copy (uint (rb_write_index rb)) (take (nat room) ptr) (rb_buffer_ptr rb)) (\<lambda>pool.
           rbind (pool_copy 0 (drop (nat room) ptr) pool) (\<lambda>pool.
           (let rb = rb\<lparr>rb_buffer_ptr := pool, rb_write_mirror := \<not> rb_write_mirror rb, rb_write_index := of_int (n - room)\<rparr>
            in Ok (length ptr,
                 if length ptr > space
                 then rb\<lparr>rb_read_mirror := \<not> rb_read_mirror rb, rb_read_index := rb_write_index rb\<rparr> else rb)))))"

definition rt_ringbuffer_get :: "nat \<Rightarrow> rt_ringbuffer \<Rightarrow> (u8 list \<times> rt_ringbuffer) res" where
  "rt_ringbuffer_get len rb =
     (let avail = unat (rt_ringbuffer_data_len rb)
      in if avail = 0 then Ok ([], rb)
         else
           (let n = int (if avail < len then avail else len);
                room = rb_buffer_size rb - uint (rb_read_index rb)
            in if room > n
               then
                 rbind (pool_read (uint (rb_read_index rb)) n (rb_buffer_ptr rb)) (\<lambda>bs.
                 Ok (bs, rb\<lparr>rb_read_index := of_int (uint (rb_read_index rb) + n)\<rparr>))
               else
                 rbind (pool_read (uint (rb_read_index rb)) room (rb_buffer_ptr rb)) (\<lambda>bs1.
                 rbind (pool_read 0 (n - room) (rb_buffer_ptr rb)) (\<lambda>bs2.
                 Ok (bs1 @ bs2, rb\<lparr>rb_read_mirror := \<not> rb_read_mirror rb, rb_read_index := of_int (n - room)\<rparr>)))))"

definition rb_store :: "u8 \<Rightarrow> rt_ringbuffer \<Rightarrow> rt_ringbuffer res" where
  "rb_store ch rb =
     (if unat (rb_write_index rb) < length (rb_buffer_ptr rb)
      then Ok (rb\<lparr>rb_buffer_ptr := (rb_buffer_ptr rb)[unat (rb_write_index rb) := ch]\<rparr>) else Fault Out_Of_Range)"

definition rt_ringbuffer_putchar :: "u8 \<Rightarrow> rt_ringbuffer \<Rightarrow> (nat \<times> rt_ringbuffer) res" where
  "rt_ringbuffer_putchar ch rb =
     (if rt_ringbuffer_space_len rb = 0 then Ok (0, rb)
      else
        rbind (rb_store ch rb) (\<lambda>rb.
        if uint (rb_write_index rb) = rb_buffer_size rb - 1
        then Ok (1, rb\<lparr>rb_write_mirror := \<not> rb_write_mirror rb, rb_write_index := 0\<rparr>)
        else Ok (1, rb\<lparr>rb_write_index := rb_write_index rb + 1\<rparr>)))"

definition rt_ringbuffer_putchar_force :: "u8 \<Rightarrow> rt_ringbuffer \<Rightarrow> (nat \<times> rt_ringbuffer) res" where
  "rt_ringbuffer_putchar_force ch rb =
     (let old_state = rt_ringbuffer_status rb
      in rbind (rb_store ch rb) (\<lambda>rb.
         if uint (rb_write_index rb) = rb_buffer_size rb - 1
         then
           (let rb = rb\<lparr>rb_write_mirror := \<not> rb_write_mirror rb, rb_write_index := 0\<rparr>
            in Ok (1, if old_state = RT_RINGBUFFER_FULL
                 then rb\<lparr>rb_read_mirror := \<not> rb_read_mirror rb, rb_read_index := rb_write_index rb\<rparr> else rb))
         else
           (let rb = rb\<lparr>rb_write_index := rb_write_index rb + 1\<rparr>
            in Ok (1, if old_state = RT_RINGBUFFER_FULL then rb\<lparr>rb_read_index := rb_write_index rb\<rparr> else rb))))"

definition rt_ringbuffer_getchar :: "rt_ringbuffer \<Rightarrow> (u8 option \<times> rt_ringbuffer) res" where
  "rt_ringbuffer_getchar rb =
     (if rt_ringbuffer_data_len rb = 0 then Ok (None, rb)
      else if unat (rb_read_index rb) < length (rb_buffer_ptr rb)
      then
        (let ch = rb_buffer_ptr rb ! unat (rb_read_index rb)
         in if uint (rb_read_index rb) = rb_buffer_size rb - 1
            then Ok (Some ch, rb\<lparr>rb_read_mirror := \<not> rb_read_mirror rb, rb_read_index := 0\<rparr>)
            else Ok (Some ch, rb\<lparr>rb_read_index := rb_read_index rb + 1\<rparr>))
      else Fault Out_Of_Range)"

definition rt_ringbuffer_reset :: "rt_ringbuffer \<Rightarrow> rt_ringbuffer" where
  "rt_ringbuffer_reset rb =
     rb\<lparr>rb_read_mirror := False, rb_read_index := 0, rb_write_mirror := False, rb_write_index := 0\<rparr>"

definition rt_ringbuffer_get_size :: "rt_ringbuffer \<Rightarrow> u16" where
  "rt_ringbuffer_get_size rb = of_int (rb_buffer_size rb)"

text \<open>
  Creation on the heap: the control block takes 12 bytes.  The value is the pointer that is returned,
  the control block when it was filled in, and the heap.
\<close>

definition rt_ringbuffer_create ::
    "u8 \<Rightarrow> u16 \<Rightarrow> (u32 \<Rightarrow> u8 list) \<Rightarrow> heap \<Rightarrow> (u32 option \<times> rt_ringbuffer option \<times> heap) res" where
  "rt_ringbuffer_create nest len mem_at h =
     rbind (rassert (len > 0) h) (\<lambda>h.
     (let len = len AND NOT 3
      in rbind (rt_malloc nest 12 h) (\<lambda>(rb, h).
         case rb of
           None \<Rightarrow> Ok (None, None, h)
         | Some r \<Rightarrow>
             rbind (rt_malloc nest (ucast len) h) (\<lambda>(pool, h).
             case pool of
               None \<Rightarrow> rbind (rt_free nest (Some r) h) (\<lambda>h. Ok (Some r, None, h))
             | Some p \<Rightarrow>
                 rbind (rt_ringbuffer_init (mem_at p) (sint len)
                   \<lparr>rb_buffer_ptr = [], rb_read_mirror = False, rb_read_index = 0, rb_write_mirror = False,
                    rb_write_index = 0, rb_buffer_size = 0\<rparr>) (\<lambda>c.
                 Ok (Some r, Some c, h))))))"

definition rt_ringbuffer_destroy :: "u8 \<Rightarrow> u32 \<Rightarrow> u32 \<Rightarrow> heap \<Rightarrow> heap res" where
  "rt_ringbuffer_destroy nest rb pool h = rbind (rt_free nest (Some pool) h) (rt_free nest (Some rb))"

section \<open>Contents\<close>

abbreviation rb_r :: "rt_ringbuffer \<Rightarrow> nat" where "rb_r rb \<equiv> unat (rb_read_index rb)"
abbreviation rb_w :: "rt_ringbuffer \<Rightarrow> nat" where "rb_w rb \<equiv> unat (rb_write_index rb)"
abbreviation rb_n :: "rt_ringbuffer \<Rightarrow> nat" where "rb_n rb \<equiv> nat (rb_buffer_size rb)"

definition rb_wf :: "rt_ringbuffer \<Rightarrow> bool" where
  "rb_wf rb \<longleftrightarrow>
     0 < rb_buffer_size rb \<and> rb_buffer_size rb < 2 ^ 15 \<and> length (rb_buffer_ptr rb) = rb_n rb \<and>
     rb_r rb < rb_n rb \<and> rb_w rb < rb_n rb \<and>
     (if rb_read_mirror rb = rb_write_mirror rb then rb_r rb \<le> rb_w rb else rb_w rb \<le> rb_r rb)"

definition rb_count :: "rt_ringbuffer \<Rightarrow> nat" where
  "rb_count rb = (if rb_read_mirror rb = rb_write_mirror rb then rb_w rb - rb_r rb else rb_n rb - rb_r rb + rb_w rb)"

definition rb_bytes :: "rt_ringbuffer \<Rightarrow> u8 list" where
  "rb_bytes rb = ring (rb_buffer_ptr rb) (rb_r rb) (rb_count rb)"

lemma rb_count_le: "rb_wf rb \<Longrightarrow> rb_count rb \<le> rb_n rb"
  by (auto simp: rb_wf_def rb_count_def)

lemma rb_write_slot: "rb_wf rb \<Longrightarrow> (rb_r rb + rb_count rb) mod rb_n rb = rb_w rb"
  by (auto simp: rb_wf_def rb_count_def)

lemma rb_data_len:
  assumes wf: "rb_wf rb"
  shows "unat (rt_ringbuffer_data_len rb) = rb_count rb" "unat (rt_ringbuffer_space_len rb) = rb_n rb - rb_count rb"
    and "unat (ucast (rt_ringbuffer_space_len rb) :: u16) = rb_n rb - rb_count rb"
proof -
  have s: "0 < rb_buffer_size rb" "rb_buffer_size rb < 2 ^ 15" "rb_r rb < rb_n rb" "rb_w rb < rb_n rb"
    using wf by (simp_all add: rb_wf_def)
  have n: "unat (of_int k :: u32) = nat k" if "0 \<le> k" "k < 2 ^ 15" for k
  proof -
    have "(of_int k :: u32) = of_nat (nat k)" using that(1) by simp
    moreover have "nat k < 4294967296" using that by simp
    ultimately show ?thesis by (simp only: unat_of_nat) (simp add: take_bit_nat_eq_self)
  qed
  have u: "uint (rb_read_index rb) = int (rb_r rb)" "uint (rb_write_index rb) = int (rb_w rb)" by simp_all
  have "rt_ringbuffer_data_len rb = of_int (int (rb_count rb))"
  proof (cases "rb_read_mirror rb = rb_write_mirror rb")
    case True
    then have "rb_r rb \<le> rb_w rb" using wf by (simp add: rb_wf_def)
    then have c: "int (rb_count rb) = int (rb_w rb) - int (rb_r rb)" using True by (simp add: rb_count_def of_nat_diff)
    show ?thesis
    proof (cases "rb_read_index rb = rb_write_index rb")
      case eq: True
      then have "rb_count rb = 0" using True by (simp add: rb_count_def)
      then show ?thesis using True eq by (simp add: rt_ringbuffer_data_len_def rt_ringbuffer_status_def)
    next
      case ne: False
      then have lt: "rb_read_index rb < rb_write_index rb"
        using \<open>rb_r rb \<le> rb_w rb\<close> by (simp add: word_less_nat_alt word_unat_eq_iff)
      have "rt_ringbuffer_data_len rb = of_int (uint (rb_write_index rb) - uint (rb_read_index rb))"
        unfolding rt_ringbuffer_data_len_def rt_ringbuffer_status_def
        by (simp only: ne lt if_False if_True rt_ringbuffer_state.case)
      then show ?thesis unfolding u c .
    qed
  next
    case False
    then have "rb_w rb \<le> rb_r rb" using wf by (simp add: rb_wf_def)
    then have le: "\<not> rb_read_index rb < rb_write_index rb" by (simp add: word_less_nat_alt)
    have c: "int (rb_count rb) = rb_buffer_size rb - (int (rb_r rb) - int (rb_w rb))"
      using s False unfolding rb_count_def by (simp only: if_False)
    show ?thesis
    proof (cases "rb_read_index rb = rb_write_index rb")
      case True
      then have "rt_ringbuffer_data_len rb = of_int (rb_buffer_size rb)"
        using False by (simp add: rt_ringbuffer_data_len_def rt_ringbuffer_status_def)
      moreover have "int (rb_count rb) = rb_buffer_size rb" using c True by simp
      ultimately show ?thesis by simp
    next
      case ne: False
      have "rt_ringbuffer_data_len rb = of_int (rb_buffer_size rb - (uint (rb_read_index rb) - uint (rb_write_index rb)))"
        unfolding rt_ringbuffer_data_len_def rt_ringbuffer_status_def
        by (simp only: ne le if_False rt_ringbuffer_state.case)
      then show ?thesis unfolding u c .
    qed
  qed
  then show d: "unat (rt_ringbuffer_data_len rb) = rb_count rb"
    using n [of "int (rb_count rb)"] rb_count_le [OF wf] s by simp
  then show sp: "unat (rt_ringbuffer_space_len rb) = rb_n rb - rb_count rb"
    using n [of "rb_buffer_size rb"] s rb_count_le [OF wf]
    by (simp add: rt_ringbuffer_space_len_def unat_sub word_le_nat_alt)
  have "unat (rt_ringbuffer_space_len rb) < 2 ^ 16" using sp s by simp
  then show "unat (ucast (rt_ringbuffer_space_len rb) :: u16) = rb_n rb - rb_count rb"
    using sp by (simp add: unsigned_ucast_eq take_bit_nat_eq_self)
qed

section \<open>Single characters\<close>

lemma rb_index_step:
  assumes "rb_wf rb" "unat i < rb_n rb"
  shows "uint i = rb_buffer_size rb - 1 \<longleftrightarrow> Suc (unat i) = rb_n rb" "Suc (unat i) \<noteq> rb_n rb \<Longrightarrow> unat (i + 1 :: u15) = Suc (unat i)"
proof -
  show "uint i = rb_buffer_size rb - 1 \<longleftrightarrow> Suc (unat i) = rb_n rb"
  proof -
    have "rb_buffer_size rb = int (rb_n rb)" "uint i = int (unat i)" using assms(1) by (simp_all add: rb_wf_def)
    then show ?thesis by linarith
  qed
  show "unat (i + 1) = Suc (unat i)" if "Suc (unat i) \<noteq> rb_n rb"
  proof -
    have "Suc (unat i) < 32768" using that assms by (simp add: rb_wf_def) linarith
    then show ?thesis by (simp add: unat_word_ariths)
  qed
qed

lemma putchar_ok:
  assumes wf: "rb_wf rb" and room: "rb_count rb < rb_n rb"
  obtains r where "rt_ringbuffer_putchar ch rb = Ok (1, r)" "rb_wf r" "rb_bytes r = rb_bytes rb @ [ch]" "rb_buffer_size r = rb_buffer_size rb"
proof -
  have sp: "rt_ringbuffer_space_len rb \<noteq> 0" using rb_data_len(2) [OF wf] room by (auto simp: word_unat_eq_iff)
  have w: "rb_w rb < rb_n rb" "length (rb_buffer_ptr rb) = rb_n rb" "rb_r rb < rb_n rb" using wf by (simp_all add: rb_wf_def)
  note step = rb_index_step [OF wf w(1)]
  define pool where "pool = (rb_buffer_ptr rb)[rb_w rb := ch]"
  define r where "r = (if Suc (rb_w rb) = rb_n rb
     then rb\<lparr>rb_buffer_ptr := pool, rb_write_mirror := \<not> rb_write_mirror rb, rb_write_index := 0\<rparr>
     else rb\<lparr>rb_buffer_ptr := pool, rb_write_index := rb_write_index rb + 1\<rparr>)"
  have "rt_ringbuffer_putchar ch rb = Ok (1, r)"
    using sp w step(1) by (simp add: rt_ringbuffer_putchar_def rb_store_def r_def pool_def)
  moreover have "rb_wf r" and cnt: "rb_count r = Suc (rb_count rb)"
    using wf room step(2) by (auto simp: rb_wf_def rb_count_def r_def pool_def Suc_diff_le split: if_splits)
  moreover have "rb_bytes r = rb_bytes rb @ [ch]"
    using ring_put [of "rb_r rb" "rb_buffer_ptr rb" "rb_count rb" ch] rb_write_slot [OF wf] w room cnt
    by (simp add: rb_bytes_def r_def pool_def)
  ultimately show ?thesis using that by (simp add: r_def)
qed

lemma getchar_ok:
  assumes wf: "rb_wf rb" and ne: "rb_bytes rb = ch # bs"
  obtains r where "rt_ringbuffer_getchar rb = Ok (Some ch, r)" "rb_wf r" "rb_bytes r = bs" "rb_buffer_size r = rb_buffer_size rb"
proof -
  have c: "0 < rb_count rb" using ne by (cases "rb_count rb") (simp_all add: rb_bytes_def)
  then have dl: "rt_ringbuffer_data_len rb \<noteq> 0" using rb_data_len(1) [OF wf] by auto
  have w: "rb_w rb < rb_n rb" "length (rb_buffer_ptr rb) = rb_n rb" "rb_r rb < rb_n rb" using wf by (simp_all add: rb_wf_def)
  note step = rb_index_step [OF wf w(3)]
  define r where "r = (if Suc (rb_r rb) = rb_n rb
     then rb\<lparr>rb_read_mirror := \<not> rb_read_mirror rb, rb_read_index := 0\<rparr>
     else rb\<lparr>rb_read_index := rb_read_index rb + 1\<rparr>)"
  have g: "rb_bytes rb = rb_buffer_ptr rb ! rb_r rb # ring (rb_buffer_ptr rb) ((rb_r rb + 1) mod rb_n rb) (rb_count rb - 1)"
    using ring_get [OF c, of "rb_r rb" "rb_buffer_ptr rb"] w by (simp add: rb_bytes_def)
  have ok: "rt_ringbuffer_getchar rb = Ok (Some ch, r)"
    using dl w step(1) g ne by (simp add: rt_ringbuffer_getchar_def r_def Let_def)
  have wf': "rb_wf r" and cnt: "rb_count r = rb_count rb - 1"
    using wf c step(2) by (auto simp: rb_wf_def rb_count_def r_def split: if_splits)
  have "rb_r r = (rb_r rb + 1) mod rb_n rb" using step(2) w(3) by (auto simp: r_def)
  moreover have "rb_buffer_ptr r = rb_buffer_ptr rb" by (simp add: r_def)
  ultimately have "rb_bytes r = bs" using g ne unfolding rb_bytes_def cnt by simp
  then show ?thesis using that [OF ok wf'] by (simp add: r_def)
qed

text \<open>Characters go through the buffer first in, first out.\<close>

definition rb_putc :: "u8 \<Rightarrow> rt_ringbuffer \<Rightarrow> rt_ringbuffer" where
  "rb_putc ch rb = (case rt_ringbuffer_putchar ch rb of Ok (n, r) \<Rightarrow> r | Fault f \<Rightarrow> rb)"

definition rb_getc :: "rt_ringbuffer \<Rightarrow> (u8 \<times> rt_ringbuffer) option" where
  "rb_getc rb = (case rt_ringbuffer_getchar rb of Ok (Some ch, r) \<Rightarrow> Some (ch, r) | _ \<Rightarrow> None)"

lemma rb_empty_iff: "rb_bytes rb = [] \<longleftrightarrow> rb_count rb = 0"
  by (simp add: rb_bytes_def flip: length_0_conv)

interpretation rbf: fifo rb_wf rb_bytes rb_n "\<lambda>rb. rt_ringbuffer_space_len rb = 0" rb_putc rb_getc
proof
  show le: "length (rb_bytes q) \<le> rb_n q" if "rb_wf q" for q using rb_count_le [OF that] by (simp add: rb_bytes_def)
  show full: "rt_ringbuffer_space_len q = 0 \<longleftrightarrow> length (rb_bytes q) = rb_n q" if "rb_wf q" for q
    using rb_data_len(2) [OF that] rb_count_le [OF that] by (auto simp: rb_bytes_def word_unat_eq_iff)
  show "rb_wf (rb_putc x q) \<and> rb_bytes (rb_putc x q) = rb_bytes q @ [x] \<and> rb_n (rb_putc x q) = rb_n q"
    if wf: "rb_wf q" and nf: "rt_ringbuffer_space_len q \<noteq> 0" for q x
  proof -
    have "rb_count q < rb_n q" using nf full [OF wf] le [OF wf] by (simp add: rb_bytes_def)
    then obtain r where "rt_ringbuffer_putchar x q = Ok (1, r)" "rb_wf r" "rb_bytes r = rb_bytes q @ [x]" "rb_buffer_size r = rb_buffer_size q"
      by (rule putchar_ok [OF wf])
    then show ?thesis by (simp add: rb_putc_def)
  qed
  show "rb_getc q = None" if "rb_wf q" "rb_bytes q = []" for q
  proof -
    have "unat (rt_ringbuffer_data_len q) = 0" using rb_data_len(1) [OF that(1)] that(2) by (simp add: rb_empty_iff)
    then have "rt_ringbuffer_data_len q = 0" by (simp add: word_unat_eq_iff)
    then show ?thesis by (simp add: rb_getc_def rt_ringbuffer_getchar_def)
  qed
  show "\<exists>q'. rb_getc q = Some (x, q') \<and> rb_wf q' \<and> rb_bytes q' = xs \<and> rb_n q' = rb_n q" if "rb_wf q" "rb_bytes q = x # xs" for q x xs
    by (rule getchar_ok [OF that]) (simp add: rb_getc_def)
qed

section \<open>Blocks of bytes\<close>

text \<open>Writing around the end of the pool, byte by byte.\<close>

fun wrap_write :: "'a list \<Rightarrow> nat \<Rightarrow> 'a list \<Rightarrow> 'a list" where
  "wrap_write pool w [] = pool"
| "wrap_write pool w (b # bs) = wrap_write (pool[w := b]) (Suc w mod length pool) bs"

lemma length_wrap_write [simp]: "length (wrap_write pool w bs) = length pool"
  by (induction bs arbitrary: pool w) simp_all

lemma ring_wrap_write:
  assumes "k < length pool" "n + length bs \<le> length pool"
  shows "ring (wrap_write pool ((k + n) mod length pool) bs) k (n + length bs) = ring pool k n @ bs"
  using assms
proof (induction bs arbitrary: pool n)
  case (Cons b bs)
  let ?p = "pool[(k + n) mod length pool := b]"
  have "ring (wrap_write ?p ((k + Suc n) mod length ?p) bs) k (Suc n + length bs) = ring ?p k (Suc n) @ bs"
    using Cons.prems by (intro Cons.IH) simp_all
  moreover have "ring ?p k (Suc n) = ring pool k n @ [b]" using Cons.prems by (intro ring_put) simp_all
  ultimately show ?case by (simp add: mod_Suc_eq)
qed simp

lemma wrap_write_straight:
  assumes "w + length bs \<le> length pool"
  shows "wrap_write pool w bs = take w pool @ bs @ drop (w + length bs) pool"
  using assms
proof (induction bs arbitrary: pool w)
  case (Cons b bs)
  then have w: "w < length pool" by auto
  show ?case
  proof (cases bs)
    case Nil
    then show ?thesis using w by (simp add: upd_conv_take_nth_drop)
  next
    case (Cons c cs)
    then have "Suc w < length pool" using Cons.prems by auto
    then show ?thesis
      using Cons.IH [of "Suc w" "pool[w := b]"] Cons.prems w by (simp add: upd_conv_take_nth_drop add.commute)
  qed
qed simp

lemma wrap_write_append:
  "wrap_write pool w (as @ bs) = wrap_write (wrap_write pool w as) ((w + length as) mod length pool) bs" if "w < length pool"
  using that
proof (induction as arbitrary: pool w)
  case (Cons a as)
  have "Suc w mod length pool < length pool" using Cons.prems by (intro mod_less_divisor) linarith
  then show ?case using Cons.IH [of "Suc w mod length pool" "pool[w := a]"] by (simp add: mod_simps)
qed simp

lemma pool_copy_wrap:
  assumes "w + length bs \<le> length pool"
  shows "pool_copy (int w) bs pool = Ok (wrap_write pool w bs)"
  using assms by (simp add: pool_copy_def wrap_write_straight)

lemma pool_copy_around:
  assumes w: "w < length pool" and bs: "length pool - w \<le> length bs" "length bs \<le> length pool"
  shows "rbind (pool_copy (int w) (take (length pool - w) bs) pool) (pool_copy 0 (drop (length pool - w) bs)) = Ok (wrap_write pool w bs)"
proof -
  let ?a = "take (length pool - w) bs" and ?b = "drop (length pool - w) bs"
  have la: "w + length ?a = length pool" using assms by simp
  have "pool_copy (int w) ?a pool = Ok (wrap_write pool w ?a)" using la by (intro pool_copy_wrap) simp
  moreover have "pool_copy (int 0) ?b (wrap_write pool w ?a) = Ok (wrap_write (wrap_write pool w ?a) 0 ?b)"
    using bs by (intro pool_copy_wrap) simp
  moreover have "wrap_write pool w (?a @ ?b) = wrap_write (wrap_write pool w ?a) 0 ?b"
    using wrap_write_append [OF w, of ?a ?b] la by simp
  ultimately show ?thesis by simp
qed

lemma nat_int_diff: "nat (int a - int b) = a - b"
  by simp

text \<open>Where an index is after \<open>n\<close> more bytes.\<close>

lemma index_advance:
  assumes "i < S" "n \<le> S" "S \<le> 2 ^ 15"
  shows "int S - int i > int n \<Longrightarrow> unat (of_int (int i + int n) :: u15) = (i + n) mod S \<and> i + n < S"
    and "\<not> int S - int i > int n \<Longrightarrow> unat (of_int (int n - (int S - int i)) :: u15) = (i + n) mod S \<and> S \<le> i + n"
proof -
  have n: "unat (of_nat k :: u15) = k" if "k < S" for k
    using that assms(3) by (simp add: unat_of_nat take_bit_nat_eq_self)
  show "unat (of_int (int i + int n) :: u15) = (i + n) mod S \<and> i + n < S" if "int S - int i > int n"
    using that n [of "i + n"] by (simp flip: of_nat_add)
  show "unat (of_int (int n - (int S - int i)) :: u15) = (i + n) mod S \<and> S \<le> i + n" if ge: "\<not> int S - int i > int n"
  proof -
    have le: "S \<le> i + n" using ge assms by linarith
    have "(i + n) mod S = i + n - S" using assms le by (simp add: le_mod_geq)
    moreover have "int n - (int S - int i) = int (i + n - S)" using le by linarith
    ultimately show ?thesis using n [of "i + n - S"] assms le by (simp only: of_int_of_nat_eq)
  qed
qed

definition rb_space :: "rt_ringbuffer \<Rightarrow> nat" where
  "rb_space rb = rb_n rb - rb_count rb"

lemma put_ok:
  assumes wf: "rb_wf rb"
  obtains r where "rt_ringbuffer_put ptr rb = Ok (min (rb_space rb) (length ptr), r)" "rb_wf r"
    "rb_bytes r = rb_bytes rb @ take (rb_space rb) ptr" "rb_buffer_size r = rb_buffer_size rb"
proof (cases "rb_space rb = 0")
  case True
  then have "rt_ringbuffer_put ptr rb = Ok (0, rb)"
    using rb_data_len(3) [OF wf] by (simp add: rt_ringbuffer_put_def rb_space_def)
  then show ?thesis using that [of rb] wf True by simp
next
  case False
  define bs where "bs = take (rb_space rb) ptr"
  define S where "S = rb_n rb"
  define W where "W = rb_w rb"
  have f: "0 < S" "S < 2 ^ 15" "length (rb_buffer_ptr rb) = S" "rb_r rb < S" "W < S" "rb_buffer_size rb = int S"
    using wf by (auto simp: rb_wf_def S_def W_def)
  have len: "length bs \<le> rb_space rb" "rb_count rb + length bs \<le> S" "length bs \<le> S"
    using rb_count_le [OF wf] by (auto simp: bs_def rb_space_def S_def)
  have bs': "(if rb_space rb < length ptr then take (rb_space rb) ptr else ptr) = bs" by (simp add: bs_def)
  have u: "uint (rb_write_index rb) = int W" by (simp add: W_def)
  define r where "r = rb\<lparr>rb_buffer_ptr := wrap_write (rb_buffer_ptr rb) W bs,
     rb_write_mirror := (if int S - int W > int (length bs) then rb_write_mirror rb else \<not> rb_write_mirror rb),
     rb_write_index := (if int S - int W > int (length bs) then of_int (int W + int (length bs))
                        else of_int (int (length bs) - (int S - int W)))\<rparr>"
  note adv = index_advance [of W S "length bs"]
  note dl = rb_data_len(3) [OF wf, folded rb_space_def]
  have put: "rt_ringbuffer_put ptr rb = Ok (length bs, r)"
  proof (cases "int S - int W > int (length bs)")
    case True
    then have "pool_copy (int W) bs (rb_buffer_ptr rb) = Ok (wrap_write (rb_buffer_ptr rb) W bs)"
      using f by (intro pool_copy_wrap) linarith
    then show ?thesis
      using True False unfolding rt_ringbuffer_put_def Let_def dl bs' r_def f(6) u by simp
  next
    case n: False
    have "nat (int S - int W) = S - W" by (rule nat_int_diff)
    moreover have "rbind (pool_copy (int W) (take (S - W) bs) (rb_buffer_ptr rb)) (pool_copy 0 (drop (S - W) bs))
        = Ok (wrap_write (rb_buffer_ptr rb) W bs)"
      using pool_copy_around [of W "rb_buffer_ptr rb" bs] f len n by simp
    ultimately show ?thesis
      using n False unfolding rt_ringbuffer_put_def Let_def dl bs' r_def f(6) u by auto
  qed
  have idx: "unat (rb_write_index r) = (W + length bs) mod S"
    "rb_write_mirror r = (if W + length bs < S then rb_write_mirror rb else \<not> rb_write_mirror rb)"
    using adv f len by (auto simp: r_def)
  have "rb_wf r \<and> rb_count r = rb_count rb + length bs"
    using wf f len idx by (auto simp: r_def rb_wf_def rb_count_def S_def [symmetric] W_def [symmetric] le_mod_geq)
  then have "rb_wf r" and cnt: "rb_count r = rb_count rb + length bs" by auto
  moreover have "rb_bytes r = rb_bytes rb @ bs"
  proof -
    have "(rb_r rb + rb_count rb) mod S = W" using rb_write_slot [OF wf] by (simp only: S_def W_def)
    moreover have "rb_buffer_ptr r = wrap_write (rb_buffer_ptr rb) W bs" "rb_r r = rb_r rb" by (simp_all add: r_def)
    ultimately show ?thesis
      using ring_wrap_write [of "rb_r rb" "rb_buffer_ptr rb" "rb_count rb" bs] f(3,4) len(2)
      unfolding rb_bytes_def cnt by simp
  qed
  ultimately show ?thesis using that [of r] put by (simp add: bs_def min.commute r_def)
qed

section \<open>Reading a run of bytes\<close>

lemma drop_ring: "drop n (ring pool k m) = ring pool ((k + n) mod length pool) (m - n)"
proof (rule nth_equalityI)
  fix i assume "i < length (drop n (ring pool k m))"
  then have i: "n + i < m" by simp
  have "(k + (n + i)) mod length pool = ((k + n) mod length pool + i) mod length pool"
    by (simp add: mod_add_left_eq add.assoc)
  then show "drop n (ring pool k m) ! i = ring pool ((k + n) mod length pool) (m - n) ! i"
    using i by simp
qed simp

lemma pool_read_nat: "i + n \<le> length pool \<Longrightarrow> pool_read (int i) (int n) pool = Ok (take n (drop i pool))"
  by (simp add: pool_read_def)

lemma take_ring: "n \<le> m \<Longrightarrow> take n (ring pool k m) = ring pool k n"
  by (simp add: ring_def take_map)

lemma ring_straight:
  assumes "k + n \<le> length pool"
  shows "ring pool k n = take n (drop k pool)"
  using assms by (intro nth_equalityI) (auto simp: ring_def)

lemma ring_around:
  assumes "k < length pool" "length pool \<le> k + n" "n \<le> length pool"
  shows "ring pool k n = drop k pool @ take (k + n - length pool) pool"
  using assms by (intro nth_equalityI) (auto simp: ring_def nth_append le_mod_geq intro: arg_cong)

lemma get_ok:
  assumes wf: "rb_wf rb"
  obtains r where "rt_ringbuffer_get n rb = Ok (take n (rb_bytes rb), r)" "rb_wf r"
    "rb_bytes r = drop n (rb_bytes rb)" "rb_buffer_size r = rb_buffer_size rb"
proof (cases "rb_count rb = 0")
  case True
  then have "rt_ringbuffer_get n rb = Ok ([], rb)"
    using rb_data_len(1) [OF wf] by (simp add: rt_ringbuffer_get_def)
  then show ?thesis using that [of rb] wf True by (simp add: rb_bytes_def)
next
  case False
  define S where "S = rb_n rb"
  define R where "R = rb_r rb"
  define m where "m = min n (rb_count rb)"
  have f: "0 < S" "S < 2 ^ 15" "length (rb_buffer_ptr rb) = S" "R < S" "rb_w rb < S" "rb_buffer_size rb = int S"
    using wf by (auto simp: rb_wf_def S_def R_def)
  have len: "m \<le> rb_count rb" "m \<le> S" "rb_count rb \<le> S"
    using rb_count_le [OF wf] by (auto simp: m_def S_def)
  have m': "(if rb_count rb < n then rb_count rb else n) = m" by (simp add: m_def)
  have u: "uint (rb_read_index rb) = int R" by (simp add: R_def)
  define r where "r = rb\<lparr>
     rb_read_mirror := (if int S - int R > int m then rb_read_mirror rb else \<not> rb_read_mirror rb),
     rb_read_index := (if int S - int R > int m then of_int (int R + int m) else of_int (int m - (int S - int R)))\<rparr>"
  note adv = index_advance [of R S m]
  have get: "rt_ringbuffer_get n rb = Ok (ring (rb_buffer_ptr rb) R m, r)"
  proof (cases "int S - int R > int m")
    case True
    then have "pool_read (int R) (int m) (rb_buffer_ptr rb) = Ok (ring (rb_buffer_ptr rb) R m)"
      using f(3) by (simp add: pool_read_def ring_straight)
    then show ?thesis
      using True False unfolding rt_ringbuffer_get_def Let_def rb_data_len(1) [OF wf] m' r_def f(6) u by simp
  next
    case n: False
    have le: "S \<le> R + m" using n by linarith
    have eq: "int S - int R = int (S - R)" "int m - int (S - R) = int (R + m - S)" using le f(4) by linarith+
    have rd: "pool_read (int R) (int (S - R)) (rb_buffer_ptr rb) = Ok (take (S - R) (drop R (rb_buffer_ptr rb)))"
      "pool_read (int 0) (int (R + m - S)) (rb_buffer_ptr rb) = Ok (take (R + m - S) (drop 0 (rb_buffer_ptr rb)))"
      using f(3,4) len(2) by (intro pool_read_nat, linarith)+
    have "ring (rb_buffer_ptr rb) R m = take (S - R) (drop R (rb_buffer_ptr rb)) @ take (R + m - S) (drop 0 (rb_buffer_ptr rb))"
      using ring_around [of R "rb_buffer_ptr rb" m] f(3,4) len(2) le by simp
    moreover have "\<not> int (S - R) > int m" using n eq(1) by linarith
    ultimately show ?thesis
      using False rd unfolding rt_ringbuffer_get_def Let_def rb_data_len(1) [OF wf] m' r_def f(6) u eq of_nat_0
      by (simp del: of_nat_diff of_nat_less_iff of_nat_add)
  qed
  have idx: "rb_r r = (R + m) mod S"
    "rb_read_mirror r = (if R + m < S then rb_read_mirror rb else \<not> rb_read_mirror rb)"
    using adv f len by (auto simp: r_def)
  have "rb_wf r \<and> rb_count r = rb_count rb - m"
    using wf f len idx
    by (auto simp: r_def rb_wf_def rb_count_def S_def [symmetric] R_def [symmetric] le_mod_geq split: if_splits)
  moreover have "rb_buffer_ptr r = rb_buffer_ptr rb" by (simp add: r_def)
  moreover have "drop n (rb_bytes rb) = ring (rb_buffer_ptr rb) ((R + m) mod S) (rb_count rb - m)"
    using drop_ring [of m "rb_buffer_ptr rb" R "rb_count rb"] f(3)
    by (cases "n \<le> rb_count rb") (simp_all add: rb_bytes_def m_def R_def)
  moreover have "take n (rb_bytes rb) = ring (rb_buffer_ptr rb) R m"
    using take_ring [of m "rb_count rb" "rb_buffer_ptr rb" R]
    by (cases "n \<le> rb_count rb") (simp_all add: rb_bytes_def m_def R_def)
  moreover have "rb_buffer_size r = rb_buffer_size rb" by (simp add: r_def)
  ultimately show ?thesis using that [of r] get by (simp add: rb_bytes_def idx)
qed

section \<open>Forced writes\<close>

lemma put_force_fits:
  assumes wf: "rb_wf rb" and fits: "length ptr \<le> rb_space rb" "ptr \<noteq> []"
  shows "rt_ringbuffer_put_force ptr rb = rt_ringbuffer_put ptr rb"
proof -
  have "rb_buffer_size rb = int (rb_n rb)" using wf by (auto simp: rb_wf_def)
  then have "\<not> int (length ptr) > rb_buffer_size rb" "\<not> rb_space rb < length ptr" "rb_space rb \<noteq> 0"
    using fits unfolding rb_space_def by (linarith, linarith, auto)
  then show ?thesis
    by (simp add: rt_ringbuffer_put_force_def rt_ringbuffer_put_def Let_def rb_data_len(3) [OF wf, folded rb_space_def])
qed

text \<open>The bytes of a forced write that does not fit: the last \<open>S\<close> bytes of the old contents and the new ones.\<close>

lemma ring_overwrite:
  assumes k: "w < length pool" and n: "length bs \<le> length pool"
  shows "ring (wrap_write pool w bs) ((w + length bs) mod length pool) (length pool) = drop (length bs) (ring pool w (length pool)) @ bs"
proof -
  let ?L = "length pool" and ?k = "(w + length bs) mod length pool"
  have "(?k + (?L - length bs)) mod ?L = w"
    using k n by (subst mod_add_left_eq) simp
  then have "ring (wrap_write pool w bs) ?k (?L - length bs + length bs) = ring pool ?k (?L - length bs) @ bs"
    using ring_wrap_write [of ?k pool "?L - length bs" bs] k n by (simp add: mod_less_divisor [OF order.strict_trans1 [OF le0 k]])
  then show ?thesis using n drop_ring [of "length bs" pool w ?L] by simp
qed

text \<open>
  When both positions are on the same side of the ring, a write that does not fit wraps around, and the
  code turns both mirror bits: the positions are equal on the same side, so all the bytes, old and new, are lost.
\<close>

lemma put_force_loses:
  assumes wf: "rb_wf rb" and same: "rb_read_mirror rb = rb_write_mirror rb" and ne: "rb_bytes rb \<noteq> []" and more: "rb_space rb < length ptr"
  obtains r where "rt_ringbuffer_put_force ptr rb = Ok (min (length ptr) (rb_n rb), r)" "rb_bytes r = []"
    "rt_ringbuffer_status r = RT_RINGBUFFER_EMPTY"
proof -
  define S where "S = rb_n rb"
  define W where "W = rb_w rb"
  define bs where "bs = (if int (length ptr) > int S then drop (nat (int (length ptr) - int S)) ptr else ptr)"
  have f: "0 < S" "length (rb_buffer_ptr rb) = S" "rb_r rb \<le> W" "W < S" "rb_buffer_size rb = int S"
    using wf same by (auto simp: rb_wf_def S_def W_def)
  have sp: "rb_space rb = S - (W - rb_r rb)" using same by (simp add: rb_space_def rb_count_def S_def W_def)
  have u: "uint (rb_write_index rb) = int W" by (simp add: W_def)
  have len: "length bs = min (length ptr) S" by (auto simp: bs_def)
  have "0 < W - rb_r rb" using ne same by (auto simp: rb_bytes_def rb_count_def W_def simp flip: length_0_conv)
  then have gt: "rb_space rb < length bs" using len more sp f by auto
  have n: "\<not> int S - int W > int (length bs)" using gt sp f by linarith
  have around: "rbind (pool_copy (int W) (take (S - W) bs) (rb_buffer_ptr rb)) (pool_copy 0 (drop (S - W) bs))
      = Ok (wrap_write (rb_buffer_ptr rb) W bs)"
  proof (rule pool_copy_around [of W "rb_buffer_ptr rb" bs, unfolded f(2)])
    show "length bs \<le> S" using len by simp
  qed (use f n in linarith)+
  define r where "r = rb\<lparr>rb_buffer_ptr := wrap_write (rb_buffer_ptr rb) W bs,
     rb_read_mirror := \<not> rb_read_mirror rb, rb_read_index := of_int (int (length bs) - (int S - int W)),
     rb_write_mirror := \<not> rb_write_mirror rb, rb_write_index := of_int (int (length bs) - (int S - int W))\<rparr>"
  have dl: "unat (ucast (rt_ringbuffer_space_len rb) :: u16) = rb_space rb" using rb_data_len(3) [OF wf] by (simp add: rb_space_def)
  have "nat (int S - int W) = S - W" by (rule nat_int_diff)
  then have "rt_ringbuffer_put_force ptr rb = Ok (length bs, r)"
    using n gt around unfolding rt_ringbuffer_put_force_def Let_def f(5) bs_def [symmetric] u dl r_def
    by (auto simp: rbind_assoc)
  moreover have "rb_bytes r = []" "rt_ringbuffer_status r = RT_RINGBUFFER_EMPTY"
    using same by (simp_all add: r_def rb_bytes_def rb_count_def rt_ringbuffer_status_def)
  ultimately show ?thesis using that len by (simp add: S_def)
qed

text \<open>With the positions on different sides the last bytes that fit are kept.\<close>

lemma put_force_keeps:
  assumes wf: "rb_wf rb" and diff: "rb_read_mirror rb \<noteq> rb_write_mirror rb" and more: "rb_space rb < length ptr"
  obtains r where "rt_ringbuffer_put_force ptr rb = Ok (min (length ptr) (rb_n rb), r)" "rb_wf r"
    "rb_bytes r = drop (length (rb_bytes rb @ ptr) - rb_n rb) (rb_bytes rb @ ptr)"
proof -
  define S where "S = rb_n rb"
  define W where "W = rb_w rb"
  define bs where "bs = (if int (length ptr) > int S then drop (nat (int (length ptr) - int S)) ptr else ptr)"
  have f: "0 < S" "length (rb_buffer_ptr rb) = S" "W \<le> rb_r rb" "rb_r rb < S" "W < S" "rb_buffer_size rb = int S" "S < 2 ^ 15"
    using wf diff by (auto simp: rb_wf_def S_def W_def)
  have cnt: "rb_count rb = S - rb_r rb + W" and sp: "rb_space rb = rb_r rb - W"
    using diff f by (simp_all add: rb_space_def rb_count_def flip: S_def W_def)
  have u: "uint (rb_write_index rb) = int W" by (simp add: W_def)
  have len: "length bs = min (length ptr) S" by (auto simp: bs_def)
  have gt: "rb_space rb < length bs" using len more sp f by auto
  have dl: "unat (ucast (rt_ringbuffer_space_len rb) :: u16) = rb_space rb"
    using rb_data_len(3) [OF wf] by (simp add: rb_space_def)
  define wi :: u15 where "wi = (if int S - int W > int (length bs) then of_int (int W + int (length bs))
     else of_int (int (length bs) - (int S - int W)))"
  define wrap where "wrap = (\<not> int S - int W > int (length bs))"
  define r where "r = rb\<lparr>rb_buffer_ptr := wrap_write (rb_buffer_ptr rb) W bs,
     rb_read_mirror := (wrap \<noteq> rb_read_mirror rb), rb_read_index := wi,
     rb_write_mirror := (wrap \<noteq> rb_write_mirror rb), rb_write_index := wi\<rparr>"
  have wi: "unat wi = (W + length bs) mod S"
    using index_advance [of W S "length bs"] f len by (simp add: wi_def)
  have "rt_ringbuffer_put_force ptr rb = Ok (length bs, r)"
  proof (cases wrap)
    case False
    then have "pool_copy (int W) bs (rb_buffer_ptr rb) = Ok (wrap_write (rb_buffer_ptr rb) W bs)"
      using f(2) unfolding wrap_def by (intro pool_copy_wrap) linarith
    then show ?thesis
      using False gt unfolding rt_ringbuffer_put_force_def Let_def f(6) bs_def [symmetric] u dl r_def wrap_def wi_def by simp
  next
    case True
    have "rbind (pool_copy (int W) (take (S - W) bs) (rb_buffer_ptr rb)) (pool_copy 0 (drop (S - W) bs))
      = Ok (wrap_write (rb_buffer_ptr rb) W bs)"
    proof (rule pool_copy_around [of W "rb_buffer_ptr rb" bs, unfolded f(2)])
      show "length bs \<le> S" using len by simp
    qed (use f True [unfolded wrap_def] in linarith)+
    moreover have "nat (int S - int W) = S - W" by (rule nat_int_diff)
    ultimately show ?thesis
      using True gt unfolding rt_ringbuffer_put_force_def Let_def f(6) bs_def [symmetric] u dl r_def wrap_def wi_def
      by (auto simp: rbind_assoc)
  qed
  moreover have "rb_wf r" and c: "rb_count r = S"
    using wf f wi diff by (auto simp: r_def rb_wf_def rb_count_def S_def [symmetric])
  moreover have "rb_bytes r = drop (length (rb_bytes rb @ ptr) - S) (rb_bytes rb @ ptr)"
  proof -
    have "rb_bytes r = drop (length bs) (ring (rb_buffer_ptr rb) W S) @ bs"
      using ring_overwrite [of W "rb_buffer_ptr rb" bs] f(2,5) len unfolding rb_bytes_def c by (simp add: r_def wi)
    also have "drop (length bs) (ring (rb_buffer_ptr rb) W S) = drop (length bs - rb_space rb) (drop (rb_space rb) (ring (rb_buffer_ptr rb) W S))"
      using gt by simp
    also have "drop (rb_space rb) (ring (rb_buffer_ptr rb) W S) = rb_bytes rb"
      using f cnt sp by (simp add: drop_ring rb_bytes_def)
    finally show ?thesis using len gt cnt sp f by (auto simp: bs_def rb_bytes_def min_def nat_diff_distrib add.commute)
  qed
  ultimately show ?thesis using that len by (simp add: S_def)
qed

lemma rb_full_iff: "rb_wf rb \<Longrightarrow> rt_ringbuffer_status rb = RT_RINGBUFFER_FULL \<longleftrightarrow> rb_count rb = rb_n rb"
  by (auto simp: rb_wf_def rb_count_def rt_ringbuffer_status_def word_unat_eq_iff)

lemma putchar_force_ok:
  assumes wf: "rb_wf rb"
  obtains r where "rt_ringbuffer_putchar_force ch rb = Ok (1, r)" "rb_wf r"
    "rb_bytes r = (if rb_count rb = rb_n rb then tl (rb_bytes rb) else rb_bytes rb) @ [ch]"
proof (cases "rb_count rb = rb_n rb")
  case False
  then have room: "rb_count rb < rb_n rb" using rb_count_le [OF wf] by simp
  obtain r where r: "rt_ringbuffer_putchar ch rb = Ok (1, r)" "rb_wf r" "rb_bytes r = rb_bytes rb @ [ch]"
    by (rule putchar_ok [OF wf room])
  have "rt_ringbuffer_space_len rb \<noteq> 0" using rb_data_len(2) [OF wf] room by (auto simp: word_unat_eq_iff)
  then have "rt_ringbuffer_putchar_force ch rb = Ok (1, r)"
    using r(1) rb_full_iff [OF wf] False
    by (auto simp: rt_ringbuffer_putchar_def rt_ringbuffer_putchar_force_def Let_def rb_store_def split: if_splits)
  then show ?thesis using that [of r] r False by simp
next
  case True
  have f: "rt_ringbuffer_status rb = RT_RINGBUFFER_FULL" using True rb_full_iff [OF wf] by simp
  then have fl: "rb_read_mirror rb \<noteq> rb_write_mirror rb" "rb_read_index rb = rb_write_index rb"
    by (auto simp: rt_ringbuffer_status_def split: if_splits)
  have w: "rb_w rb < rb_n rb" "length (rb_buffer_ptr rb) = rb_n rb" using wf by (simp_all add: rb_wf_def)
  note step = rb_index_step [OF wf w(1)]
  define wi where "wi = (if Suc (rb_w rb) = rb_n rb then 0 else rb_write_index rb + 1)"
  define r where "r = rb\<lparr>rb_buffer_ptr := (rb_buffer_ptr rb)[rb_w rb := ch],
     rb_read_mirror := ((Suc (rb_w rb) = rb_n rb) \<noteq> rb_read_mirror rb), rb_read_index := wi,
     rb_write_mirror := ((Suc (rb_w rb) = rb_n rb) \<noteq> rb_write_mirror rb), rb_write_index := wi\<rparr>"
  have wi: "unat wi = (rb_w rb + 1) mod rb_n rb" using step(2) w(1) by (auto simp: wi_def)
  have "rt_ringbuffer_putchar_force ch rb = Ok (1, r)"
    using f fl w step(1) by (simp add: rt_ringbuffer_putchar_force_def rb_store_def Let_def r_def wi_def)
  moreover have "rb_wf r" and c: "rb_count r = rb_n rb"
    using wf w wi fl by (auto simp: r_def rb_wf_def rb_count_def)
  moreover have "rb_bytes r = tl (rb_bytes rb) @ [ch]"
    using ring_overwrite [of "rb_w rb" "rb_buffer_ptr rb" "[ch]"] w True fl(2)
    unfolding rb_bytes_def c by (simp add: r_def wi drop_Suc)
  ultimately show ?thesis using that True by simp
qed

text \<open>
  When the second allocation of \<^verbatim>\<open>rt_ringbuffer_create\<close> fails, the control block is freed
  and its address returned all the same.
\<close>

lemma create_dangling:
  assumes "0 < len" "rt_malloc nest 12 h = Ok (Some p, h1)" "rt_malloc nest (ucast (len AND NOT 3)) h1 = Ok (None, h2)"
    "rt_free nest (Some p) h2 = Ok h3"
  shows "rt_ringbuffer_create nest len mem_at h = Ok (Some p, None, h3)"
  using assms by (simp add: rt_ringbuffer_create_def rassert_def)

end
