(* ===== verification/RT_Props_Memory.thy ===== *)
theory RT_Props_Memory
  imports RT_Alloc RT_RingBuffer
begin

text \<open>
  What the system heap, the memory functions and the ring buffers promise. The heap of the instances is
  the one that \<^verbatim>\<open>rt_system_heap_init\<close> sets up between two given addresses.
\<close>

section \<open>A concrete heap\<close>

definition ex_raw :: heap where
  "ex_raw = \<lparr>heap_ptr = 0, heap_end = 0, lfree = 0, mem_size_aligned = 0, used_mem = 0, max_mem = 0,
     blk = (\<lambda>_. \<lparr>hm_magic = 0, hm_used = 0, hm_next = 0, hm_prev = 0\<rparr>)\<rparr>"

definition ex_heap :: heap where
  "ex_heap = (case rt_system_heap_init 0 0x1001 0x1103 ex_raw of Ok h \<Rightarrow> h | Fault f \<Rightarrow> ex_raw)"

lemma ex_heap_init:
  "rt_system_heap_init 0 0x1001 0x1103 ex_raw = Ok ex_heap" "heap_wf ex_heap [0]" "lfree_low ex_heap [0]"
  "allocs ex_heap [0] = {}" "unat (mem_size_aligned ex_heap) = 228"
proof -
  have al: "rt_align 0x1001 = 0x1004" "rt_align_down 0x1103 = 0x1100"
    by (simp_all add: rt_align_def rt_align_down_def)
  obtain h' where h': "rt_system_heap_init 0 0x1001 0x1103 ex_raw = Ok h'" "heap_wf h' [0]" "lfree_low h' [0]" "allocs h' [0] = {}"
      "unat (mem_size_aligned h') + 24 = unat (rt_align_down 0x1103) - unat (rt_align 0x1001)"
    by (rule heap_init_ok [of "0x1001" "0x1103" ex_raw]) (simp_all add: al ex_raw_def)
  moreover have "ex_heap = h'" using h'(1) by (simp add: ex_heap_def)
  ultimately show "rt_system_heap_init 0 0x1001 0x1103 ex_raw = Ok ex_heap" "heap_wf ex_heap [0]" "lfree_low ex_heap [0]"
    "allocs ex_heap [0] = {}" "unat (mem_size_aligned ex_heap) = 228" by (simp_all add: al)
qed

lemma ex_heap_malloc:
  assumes n: "malloc_block n = n" "n \<noteq> 0" "unat n \<le> 200"
  obtains p h1 where "rt_malloc 0 n ex_heap = Ok (Some p, h1)"
proof -
  have sh: "heap_shape ex_heap ([] @ 0 # [])" using ex_heap_init(2) by (simp add: heap_wf_def)
  have "fits ex_heap n 0"
    using shape_next(3) [OF sh] heap_shape_nat(1) [OF sh] ex_heap_init(4,5) n(3) by (simp add: fits_def allocs_def)
  moreover from this have "unat (lfree ex_heap) \<le> unat (0 :: u32)" using ex_heap_init(3) by (auto simp: lfree_low_def fits_def)
  ultimately have "\<not> no_room ex_heap [0] n" using ex_heap_init(5) n(3) by (auto simp: no_room_def)
  moreover obtain r h' bs' where "rt_malloc 0 n ex_heap = Ok (r, h')" "malloc_ok ex_heap [0] (malloc_block n) r h' bs'"
    using n(3) by (auto intro: malloc_spec [OF ex_heap_init(2) n(2)] simp: ex_heap_init(5))
  ultimately show ?thesis using that n(1) by (cases r) (auto simp: malloc_ok_def)
qed

text \<open>The same heap with its first 20 bytes handed out.\<close>

definition ex_used :: heap where
  "ex_used = \<lparr>heap_ptr = 0x1004, heap_end = 240, lfree = 32, mem_size_aligned = 228, used_mem = 32, max_mem = 32,
     blk = (\<lambda>_. \<lparr>hm_magic = HEAP_MAGIC, hm_used = 1, hm_next = 240, hm_prev = 240\<rparr>)
       (0 := \<lparr>hm_magic = HEAP_MAGIC, hm_used = 1, hm_next = 32, hm_prev = 0\<rparr>,
        32 := \<lparr>hm_magic = HEAP_MAGIC, hm_used = 0, hm_next = 240, hm_prev = 0\<rparr>,
        240 := \<lparr>hm_magic = HEAP_MAGIC, hm_used = 1, hm_next = 240, hm_prev = 32\<rparr>)\<rparr>"

lemma ex_used_wf: "heap_wf ex_used [0, 32]"
  by (simp add: heap_wf_def heap_shape_def coal_Cons coal_def blk_ok_def ex_used_def addr_def)



section \<open>The system heap\<close>

text \<open>
  C23. From the heap that \<^verbatim>\<open>rt_system_heap_init\<close> sets up, after any sequence of \<^verbatim>\<open>rt_malloc\<close>, \<^verbatim>\<open>rt_calloc\<close>, \<^verbatim>\<open>rt_realloc\<close> and \<^verbatim>\<open>rt_free\<close>
  on live pointers, the next such call ends without a failed assertion and leaves a well-formed heap:
  the blocks tile it, the links agree in both directions, no two free blocks touch and the count of
  used bytes is right.
\<close>

theorem heap_calls_safe:
  assumes "unat b + 3 < 2 ^ 32" "unat (rt_align b) + 36 \<le> unat (rt_align_down e)" "used_mem h0 = 0"
    and "rt_system_heap_init 0 b e h0 = Ok h1" "heap_reach h1 h m" "heap_call_ok c h"
  shows "\<exists>h' m' bs'. heap_exec c h m = Ok (h', m') \<and> heap_wf h' bs' \<and> heap_frame h1 h'"
proof -
  obtain h' where "rt_system_heap_init 0 b e h0 = Ok h'" "heap_wf h' [0]"
      "unat (mem_size_aligned h') + 24 = unat (rt_align_down e) - unat (rt_align b)"
    by (rule heap_init_ok [OF assms(1-3)])
  then have h1: "heap_wf h1 [0]" "12 \<le> unat (mem_size_aligned h1)" using assms(2,4) by auto
  then obtain bs where bs: "heap_wf h bs" and fr: "heap_frame h1 h" using heap_reach_wf [OF assms(5)] by blast
  have "12 \<le> unat (mem_size_aligned h)" using h1(2) fr by (simp add: heap_frame_def)
  then show ?thesis using heap_exec_ok [OF bs _ assms(6), of m] heap_frame_trans [OF fr] by blast
qed

theorem heap_calls_safe_witness:
  "\<exists>h' m' bs'. heap_exec (Malloc 20) ex_heap (\<lambda>_. 0) = Ok (h', m') \<and> heap_wf h' bs' \<and> heap_frame ex_heap h'"
  by (rule heap_calls_safe [OF _ _ _ ex_heap_init(1) heap_reach.start])
    (simp_all add: rt_align_def rt_align_down_def ex_raw_def)

text \<open>
  C24. \<^verbatim>\<open>rt_malloc\<close> returns a block that is aligned, lies inside the heap, has at least the requested size, and shares no byte with a block that
  is already handed out. It searches from \<^verbatim>\<open>lfree\<close> on and refuses only when no free block there is large enough, except that a
  free block that would have to be used up to the last byte of the heap is passed over. If no free block lies below \<^verbatim>\<open>lfree\<close>, that
  stays so.
\<close>

theorem malloc_returns_fresh_block:
  assumes "heap_wf h bs" "n \<noteq> 0" "unat n + 3 < 2 ^ 32" "12 \<le> unat (mem_size_aligned h)"
  shows "\<exists>r h' bs'. rt_malloc 0 n h = Ok (r, h') \<and> heap_wf h' bs' \<and> (lfree_low h bs \<longrightarrow> lfree_low h' bs') \<and>
    (case r of
       None \<Rightarrow> h' = h \<and> no_room h bs (malloc_block n)
     | Some p \<Rightarrow> \<exists>b e. p = addr h b + SIZEOF_STRUCT_MEM \<and> p AND 3 = 0 \<and> unat b + 12 + unat n \<le> unat e \<and> unat e \<le> unat (heap_end h) \<and>
         allocs h' bs' = insert (b, e) (allocs h bs) \<and>
         (\<forall>(c, d) \<in> allocs h bs. unat e \<le> unat c \<or> unat d \<le> unat b))"
proof -
  obtain r h' bs' where r: "rt_malloc 0 n h = Ok (r, h')" "malloc_ok h bs (malloc_block n) r h' bs'"
    by (rule malloc_spec [OF assms])
  have sh: "heap_shape h bs" "heap_shape h' bs'" using assms(1) r(2) by (auto simp: heap_wf_def malloc_ok_def)
  have le: "unat n \<le> unat (malloc_block n)"
    using rt_align_nat(2) [OF assms(3)] by (auto simp: malloc_block_def Let_def word_less_nat_alt)
  show ?thesis
  proof (cases r)
    case None
    then show ?thesis using r by (auto simp: malloc_ok_def)
  next
    case (Some p)
    then obtain b e where b: "p = addr h b + SIZEOF_STRUCT_MEM" "b \<in> set bs" "fits h (malloc_block n) b"
        "unat b + 12 + unat (malloc_block n) \<le> unat e" "allocs h' bs' = insert (b, e) (allocs h bs)"
      using r(2) by (auto simp: malloc_ok_def)
    have dj: "\<forall>(c, d) \<in> allocs h bs. unat e \<le> unat c \<or> unat d \<le> unat b"
    proof clarify
      fix c d assume cd: "(c, d) \<in> allocs h bs" "\<not> unat d \<le> unat b"
      then have "c \<noteq> b" using b(3) by (auto simp: allocs_iff fits_def)
      then show "unat e \<le> unat c" using allocs_disjoint [OF sh(2), of b e c d] b(5) cd by auto
    qed
    have "(b, e) \<in> allocs h' bs'" using b(5) by simp
    then obtain xs ys where "bs' = xs @ b # ys" "e = hm_next (blk h' b)" by (auto simp: allocs_iff dest: split_list)
    then have "unat e \<le> unat (heap_end h)"
      using shape_next(2) [of h' xs b ys] sh(2) heap_shape_nat(1) [OF sh(2)] r(2) by (simp add: malloc_ok_def heap_frame_def)
    moreover have "lfree_low h bs \<longrightarrow> lfree_low h' bs'" "heap_wf h' bs'" using r(2) by (auto simp: malloc_ok_def)
    moreover have "p AND 3 = 0" "unat b + 12 + unat n \<le> unat e" using heap_addr(3) [OF sh(1) b(2)] b(1,4) le by simp_all
    ultimately show ?thesis
      unfolding Some using r(1) Some b(1,5) dj by (intro exI [of _ "Some p"] exI [of _ h'] exI [of _ bs']) auto
  qed
qed

theorem malloc_returns_fresh_block_witness:
  "\<exists>r h' bs'. rt_malloc 0 20 ex_heap = Ok (r, h') \<and> heap_wf h' bs' \<and> (lfree_low ex_heap [0] \<longrightarrow> lfree_low h' bs') \<and>
    (case r of
       None \<Rightarrow> h' = ex_heap \<and> no_room ex_heap [0] (malloc_block 20)
     | Some p \<Rightarrow> \<exists>b e. p = addr ex_heap b + SIZEOF_STRUCT_MEM \<and> p AND 3 = 0 \<and> unat b + 12 + unat (20 :: u32) \<le> unat e \<and>
         unat e \<le> unat (heap_end ex_heap) \<and>
         allocs h' bs' = insert (b, e) (allocs ex_heap [0]) \<and>
         (\<forall>(c, d) \<in> allocs ex_heap [0]. unat e \<le> unat c \<or> unat d \<le> unat b))"
  by (rule malloc_returns_fresh_block [OF ex_heap_init(2)]) (simp_all add: ex_heap_init(5))

text \<open>
  C25. \<^verbatim>\<open>rt_free\<close> of what \<^verbatim>\<open>rt_malloc\<close> returned gives back exactly that block, with the free neighbours joined: if nothing else is
  handed out, the heap is one free block again and its count of used bytes is 0.
\<close>

theorem malloc_free_roundtrip:
  assumes "heap_wf h bs" "n \<noteq> 0" "unat n + 3 < 2 ^ 32" "12 \<le> unat (mem_size_aligned h)" "rt_malloc 0 n h = Ok (Some p, h1)"
  shows "\<exists>h2 bs2. rt_free 0 (Some p) h1 = Ok h2 \<and> heap_wf h2 bs2 \<and> allocs h2 bs2 = allocs h bs \<and>
    (allocs h bs = {} \<longrightarrow> bs2 = [0] \<and> used_mem h2 = 0)"
  by (rule malloc_then_free [OF assms]) blast

theorem malloc_free_roundtrip_witness:
  "\<exists>p h1 h2 bs2. rt_malloc 0 20 ex_heap = Ok (Some p, h1) \<and> rt_free 0 (Some p) h1 = Ok h2 \<and> heap_wf h2 bs2 \<and>
    bs2 = [0] \<and> used_mem h2 = 0"
proof -
  obtain p h1 where m: "rt_malloc 0 20 ex_heap = Ok (Some p, h1)"
    by (rule ex_heap_malloc [of 20]) (simp_all add: malloc_block_def rt_align_def)
  show ?thesis using malloc_free_roundtrip [OF ex_heap_init(2) _ _ _ m] m by (auto simp: ex_heap_init)
qed

text \<open>
  C26. A block of \<^verbatim>\<open>rt_malloc_align\<close> for a power of two is aligned to it and lies, with the word below it, inside one block newly handed out
  by the heap. As long as that word is not overwritten, \<^verbatim>\<open>rt_free_align\<close> gives back exactly this block.
\<close>

theorem malloc_align_roundtrip:
  assumes "heap_wf h bs" "2 \<le> k" "k < 32" "unat n + 2 ^ k + 6 < 2 ^ 32" "12 \<le> unat (mem_size_aligned h)"
    and "rt_malloc_align 0 n (2 ^ k) h m = Ok (Some q, h1, m1)"
  shows "\<exists>b e bs1. heap_wf h1 bs1 \<and> allocs h1 bs1 = insert (b, e) (allocs h bs) \<and> 2 ^ k dvd unat q \<and>
    unat (heap_ptr h) + unat b + 16 \<le> unat q \<and> unat q + unat n \<le> unat (heap_ptr h) + unat e \<and>
    (\<forall>m2. (\<forall>i<4. m2 (q - 4 + of_nat i) = m1 (q - 4 + of_nat i)) \<longrightarrow>
       (\<exists>h2 bs2. rt_free_align 0 q h1 m2 = Ok h2 \<and> heap_wf h2 bs2 \<and> allocs h2 bs2 = allocs h bs))"
  by (rule malloc_align_ok [OF assms])

theorem malloc_align_roundtrip_witness:
  "\<exists>q h1 m1 h2 bs2. rt_malloc_align 0 20 (2 ^ 5) ex_heap (\<lambda>_. 0) = Ok (Some q, h1, m1) \<and> 2 ^ 5 dvd unat q \<and>
    rt_free_align 0 q h1 m1 = Ok h2 \<and> heap_wf h2 bs2 \<and> allocs h2 bs2 = {}"
proof -
  obtain p h1 where "rt_malloc 0 52 ex_heap = Ok (Some p, h1)"
    by (rule ex_heap_malloc [of 52]) (simp_all add: malloc_block_def rt_align_def)
  then obtain q m1 where m: "rt_malloc_align 0 20 (2 ^ 5) ex_heap (\<lambda>_. 0) = Ok (Some q, h1, m1)"
    by (simp add: rt_malloc_align_def Let_def)
  show ?thesis using malloc_align_roundtrip [OF ex_heap_init(2) _ _ _ _ m] m by (auto simp: ex_heap_init)
qed

text \<open>
  C27. \<^verbatim>\<open>rt_realloc\<close> to a larger size either refuses, when \<^verbatim>\<open>rt_malloc\<close> has no room for the new size, and leaves heap and memory alone;
  or the old block is given back and a different block of at least the new size is handed out instead, which starts with all the
  bytes of the old one. No other block is handed out or given back, and no other byte of the memory changes.
\<close>

theorem realloc_moves_block:
  assumes "heap_wf h bs" "b \<in> set bs" "taken h b" "unat n + 3 < 2 ^ 32" "rt_align n \<le> mem_size_aligned h"
    and "12 \<le> unat (mem_size_aligned h)" "unat (hm_next (blk h b)) < unat b + 12 + unat (rt_align n)"
  shows "rt_realloc 0 (Some (addr h b + SIZEOF_STRUCT_MEM)) n h m = Ok (None, h, m) \<and> no_room h bs (malloc_block n) \<or>
    (\<exists>c e h' bs' m'. rt_realloc 0 (Some (addr h b + SIZEOF_STRUCT_MEM)) n h m = Ok (Some (addr h c + SIZEOF_STRUCT_MEM), h', m') \<and>
       heap_wf h' bs' \<and> heap_frame h h' \<and> c \<noteq> b \<and>
       allocs h' bs' = insert (c, e) (allocs h bs - {(b, hm_next (blk h b))}) \<and> unat c + 12 + unat n \<le> unat e \<and>
       (\<forall>i < unat (hm_next (blk h b)) - unat b - 12.
          m' (addr h c + SIZEOF_STRUCT_MEM + of_nat i) = m (addr h b + SIZEOF_STRUCT_MEM + of_nat i)) \<and>
       (\<forall>x. unat (hm_next (blk h b)) - unat b - 12 \<le> unat (x - (addr h c + SIZEOF_STRUCT_MEM)) \<longrightarrow> m' x = m x))"
  by (rule realloc_grow [OF assms])

theorem realloc_moves_block_witness:
  "\<exists>c e h' bs' m'. rt_realloc 0 (Some 0x1010) 30 ex_used ucast = Ok (Some (addr ex_used c + 12), h', m') \<and>
     heap_wf h' bs' \<and> heap_frame ex_used h' \<and> c \<noteq> 0 \<and> allocs h' bs' = {(c, e)} \<and> 42 + unat c \<le> unat e \<and>
     (\<forall>i < 20. m' (addr ex_used c + 12 + of_nat i) = ucast (0x1010 + of_nat i :: u32)) \<and>
     (\<forall>x. 20 \<le> unat (x - (addr ex_used c + 12)) \<longrightarrow> m' x = ucast x)"
proof -
  have p: "0 \<in> set [0, 32 :: u32]" "taken ex_used 0" "unat (30 :: u32) + 3 < 2 ^ 32" "rt_align 30 \<le> mem_size_aligned ex_used"
      "12 \<le> unat (mem_size_aligned ex_used)" "unat (hm_next (blk ex_used 0)) < unat (0 :: u32) + 12 + unat (rt_align 30)"
    by (simp_all add: ex_used_def rt_align_def)
  have nr: "\<not> no_room ex_used [0, 32] (malloc_block 30)"
    by (simp add: no_room_def fits_def ex_used_def malloc_block_def rt_align_def)
  have e: "allocs ex_used [0, 32] = {(0, 32)}" "addr ex_used 0 + 12 = 0x1010" "hm_next (blk ex_used 0) = 32"
    by (auto simp: allocs_def ex_used_def addr_def)
  then show ?thesis using realloc_moves_block [OF ex_used_wf p, of ucast] nr unfolding e by simp
qed



section \<open>Memory functions\<close>

text \<open>
  C29. \<^verbatim>\<open>rt_memset\<close>, which writes four words, one word or one byte at a time, sets exactly the \<open>n\<close> bytes from its address
  on, and \<^verbatim>\<open>rt_memmove\<close> moves the bytes of one range to another as if through a buffer, also when the
  ranges overlap.
\<close>

theorem memory_functions:
  assumes "n < 2 ^ 32" "unat src + n < 2 ^ 32" "unat dst + n < 2 ^ 32"
  shows "rt_memset dst c n m = (\<lambda>x. if unat (x - dst) < n then c else m x) \<and>
    rt_memmove dst src n m = (\<lambda>x. if unat (x - dst) < n then m (src + (x - dst)) else m x)"
  using rt_memset_fill [of n dst c m] rt_memmove_copied [OF assms, of m] assms(1) by (simp add: fill_def copied_def)

theorem memory_functions_witness:
  "rt_memset 102 9 21 ucast = (\<lambda>x. if unat (x - 102) < 21 then 9 else ucast x) \<and>
    rt_memmove 102 100 21 ucast = (\<lambda>x. if unat (x - 102) < 21 then ucast (100 + (x - 102)) else ucast x)"
  by (rule memory_functions) simp_all

section \<open>Ring buffers\<close>

text \<open>
  C30. \<^verbatim>\<open>rt_ringbuffer_put\<close> stores as many of the bytes as fit and \<^verbatim>\<open>rt_ringbuffer_get\<close> takes them out again, first in, first out,
  across the end of the pool; the indices stay inside the pool.
\<close>

theorem ringbuffer_roundtrip:
  assumes "rb_wf rb"
  shows "\<exists>r1 r2. rt_ringbuffer_put ptr rb = Ok (min (rb_space rb) (length ptr), r1) \<and> rb_wf r1 \<and>
    rt_ringbuffer_get n r1 = Ok (take n (rb_bytes rb @ take (rb_space rb) ptr), r2) \<and> rb_wf r2 \<and>
    rb_bytes r2 = drop n (rb_bytes rb @ take (rb_space rb) ptr)"
proof -
  obtain r1 where r1: "rt_ringbuffer_put ptr rb = Ok (min (rb_space rb) (length ptr), r1)" "rb_wf r1"
      "rb_bytes r1 = rb_bytes rb @ take (rb_space rb) ptr"
    by (rule put_ok [OF assms])
  obtain r2 where "rt_ringbuffer_get n r1 = Ok (take n (rb_bytes r1), r2)" "rb_wf r2" "rb_bytes r2 = drop n (rb_bytes r1)"
    by (rule get_ok [OF r1(2)])
  then show ?thesis using r1 by auto
qed

definition ex_rb :: rt_ringbuffer where
  "ex_rb = \<lparr>rb_buffer_ptr = [1, 2, 3, 4, 5, 6, 7, 8], rb_read_mirror = False, rb_read_index = 2,
     rb_write_mirror = False, rb_write_index = 6, rb_buffer_size = 8\<rparr>"

lemma rb_wf_ex_rb: "rb_wf ex_rb"
  by (simp add: rb_wf_def ex_rb_def)

theorem ringbuffer_roundtrip_witness:
  "\<exists>r1 r2. rt_ringbuffer_put [9, 10, 11] ex_rb = Ok (min (rb_space ex_rb) (length [9 :: u8, 10, 11]), r1) \<and> rb_wf r1 \<and>
    rt_ringbuffer_get 6 r1 = Ok (take 6 (rb_bytes ex_rb @ take (rb_space ex_rb) [9, 10, 11]), r2) \<and> rb_wf r2 \<and>
    rb_bytes r2 = drop 6 (rb_bytes ex_rb @ take (rb_space ex_rb) [9, 10, 11])"
  by (rule ringbuffer_roundtrip [OF rb_wf_ex_rb])

end
