(* ===== verification/RT_Print.thy ===== *)
theory RT_Print
  imports RT_Strings RT_Memory
begin

text \<open>
  Formatted output, \<^verbatim>\<open>src/src/kservice.c\<close> from \<^verbatim>\<open>divide\<close> to \<^verbatim>\<open>rt_sprintf\<close>. The output goes to the bytes from \<^verbatim>\<open>buf\<close>
  on; \<^verbatim>\<open>end\<close> is the last byte that may be written, and every character is counted whether it is written or
  not. The format is a byte sequence; the variable arguments are a list of words, and reading past its
  end is a fault. A string argument is an address and is read from the memory that is being written.
  Widths, precisions and the numbers that \<^verbatim>\<open>skip_atoi\<close> reads are C integers whose overflow C leaves undefined; they are
  \<open>int\<close> here, so that the model is the code as long as they stay within 32 bits. Negating the most negative number,
  undefined as well, gives that number again, as the processor does. Neither
  \<^verbatim>\<open>RT_PRINTF_SPECIAL\<close> nor \<^verbatim>\<open>RT_PRINTF_LONGLONG\<close> is defined.
\<close>

section \<open>Numbers\<close>

abbreviation (input) ZEROPAD :: u8 where "ZEROPAD \<equiv> 1"
abbreviation (input) SIGN :: u8 where "SIGN \<equiv> 2"
abbreviation (input) PLUS :: u8 where "PLUS \<equiv> 4"
abbreviation (input) SPACE :: u8 where "SPACE \<equiv> 8"
abbreviation (input) LEFT :: u8 where "LEFT \<equiv> 16"
abbreviation (input) SPECIAL :: u8 where "SPECIAL \<equiv> 32"
abbreviation (input) LARGE :: u8 where "LARGE \<equiv> 64"

definition isdigit :: "u8 \<Rightarrow> bool" where
  "isdigit c \<longleftrightarrow> (ucast c - 48 :: u32) < 10"

text \<open>The remainder, and what is left in \<^verbatim>\<open>*n\<close>.\<close>

definition divide :: "u32 \<Rightarrow> int \<Rightarrow> u32 \<times> u32" where
  "divide n base = (if base = 10 then (n mod 10, n div 10) else (n mod 16, n div 16))"

partial_function (option) skip_atoi_loop :: "cstr \<Rightarrow> nat \<Rightarrow> int \<Rightarrow> (int \<times> nat) res option" where
  "skip_atoi_loop s p i =
     (if isdigit (s p) then skip_atoi_loop s (p + 1) (i * 10 + uint (s p) - 48) else Some (Ok (i, p)))"

definition skip_atoi :: "cstr \<Rightarrow> nat \<Rightarrow> (int \<times> nat) res" where
  "skip_atoi s p = loop_res (skip_atoi_loop s p 0)"

text \<open>The position \<^verbatim>\<open>str\<close> and the memory: \<^verbatim>\<open>if (str <= end) *str = c; ++ str;\<close>\<close>

type_synonym out = "u32 \<times> mem"

definition put_char :: "u32 \<Rightarrow> u8 \<Rightarrow> out \<Rightarrow> out" where
  "put_char e c o1 = (fst o1 + 1, if fst o1 \<le> e then (snd o1)(fst o1 := c) else snd o1)"

text \<open>\<^verbatim>\<open>while (size-- > 0)\<close>, with the value of \<^verbatim>\<open>size\<close> afterwards.\<close>

function pad :: "u32 \<Rightarrow> u8 \<Rightarrow> int \<Rightarrow> out \<Rightarrow> int \<times> out" where
  "pad e c sz o1 = (if sz > 0 then pad e c (sz - 1) (put_char e c o1) else (sz - 1, o1))"
  by pat_completeness auto
termination by (relation "measure (\<lambda>(e, c, sz, o1). nat sz)") auto

declare pad.simps [simp del]

definition small_digits :: "u8 list" where
  "small_digits = [48, 49, 50, 51, 52, 53, 54, 55, 56, 57, 97, 98, 99, 100, 101, 102]"

definition large_digits :: "u8 list" where
  "large_digits = [48, 49, 50, 51, 52, 53, 54, 55, 56, 57, 65, 66, 67, 68, 69, 70]"

text \<open>What the loop leaves in \<^verbatim>\<open>tmp\<close>, the least significant digit first.\<close>

lemma divide_less: "num \<noteq> 0 \<Longrightarrow> unat (snd (divide num base)) < unat num"
  by (simp add: divide_def unat_div unat_gt_0)

function print_digits :: "u8 list \<Rightarrow> int \<Rightarrow> u32 \<Rightarrow> u8 list" where
  "print_digits digits base num =
     (if num = 0 then []
      else digits ! unat (fst (divide num base)) # print_digits digits base (snd (divide num base)))"
  by pat_completeness auto
termination by (relation "measure (\<lambda>(digits, base, num). unat num)") (auto simp: divide_less)

declare print_digits.simps [simp del]

definition print_sign :: "u32 \<Rightarrow> u8 \<Rightarrow> u8 \<times> u32" where
  "print_sign num type =
     (if type AND SIGN \<noteq> 0
      then if sint num < 0 then (45, - num)
           else if type AND PLUS \<noteq> 0 then (43, num)
           else if type AND SPACE \<noteq> 0 then (32, num)
           else (0, num)
      else (0, num))"

definition print_number :: "u32 \<Rightarrow> u32 \<Rightarrow> int \<Rightarrow> int \<Rightarrow> int \<Rightarrow> u8 \<Rightarrow> out \<Rightarrow> out res" where
  "print_number e num base s precision type o1 =
     (let sz = s;
          digits = (if type AND LARGE \<noteq> 0 then large_digits else small_digits);
          type = (if type AND LEFT \<noteq> 0 then type AND NOT ZEROPAD else type);
          c = (if type AND ZEROPAD \<noteq> 0 then 48 else 32);
          (sign, num) = print_sign num type;
          tmp = (if num = 0 then [48] else print_digits digits base num);
          i = int (length tmp)
      in if length tmp > 16 then Fault Out_Of_Range
         else
           (let precision = (if i > precision then i else precision);
                sz = sz - precision;
                (sz, o1) =
                  (if type AND (ZEROPAD OR LEFT) = 0
                   then pad e 32 (if sign \<noteq> 0 \<and> sz > 0 then sz - 1 else sz) o1 else (sz, o1));
                (sz, o1) =
                  (if sign \<noteq> 0 then (if fst o1 \<le> e then sz - 1 else sz, put_char e sign o1) else (sz, o1));
                (sz, o1) = (if type AND LEFT = 0 then pad e c sz o1 else (sz, o1));
                (zeros, o1) = pad e 48 (precision - i) o1;
                o1 = fold (put_char e) (rev tmp) o1;
                (sz, o1) = pad e 32 sz o1
            in Ok o1))"

section \<open>Directives\<close>

definition va_arg :: "u32 list \<Rightarrow> (u32 \<times> u32 list) res" where
  "va_arg args = (case args of [] \<Rightarrow> Fault Out_Of_Range | a # args \<Rightarrow> Ok (a, args))"

partial_function (option) fmt_flags :: "cstr \<Rightarrow> nat \<Rightarrow> u8 \<Rightarrow> (nat \<times> u8) res option" where
  "fmt_flags fmt i flags =
     (let i = i + 1
      in if fmt i = 45 then fmt_flags fmt i (flags OR LEFT)
         else if fmt i = 43 then fmt_flags fmt i (flags OR PLUS)
         else if fmt i = 32 then fmt_flags fmt i (flags OR SPACE)
         else if fmt i = 35 then fmt_flags fmt i (flags OR SPECIAL)
         else if fmt i = 48 then fmt_flags fmt i (flags OR ZEROPAD)
         else Some (Ok (i, flags)))"

definition fmt_width :: "cstr \<Rightarrow> nat \<Rightarrow> u8 \<Rightarrow> u32 list \<Rightarrow> (int \<times> nat \<times> u8 \<times> u32 list) res" where
  "fmt_width fmt i flags args =
     (if isdigit (fmt i) then rbind (skip_atoi fmt i) (\<lambda>(w, i). Ok (w, i, flags, args))
      else if fmt i = 42 then
        rbind (va_arg args) (\<lambda>(w, args).
        if sint w < 0 then Ok (- sint w, i + 1, flags OR LEFT, args) else Ok (sint w, i + 1, flags, args))
      else Ok (- 1, i, flags, args))"

definition fmt_precision :: "cstr \<Rightarrow> nat \<Rightarrow> u32 list \<Rightarrow> (int \<times> nat \<times> u32 list) res" where
  "fmt_precision fmt i args =
     (if fmt i = 46 then
        rbind
          (if isdigit (fmt (i + 1)) then rbind (skip_atoi fmt (i + 1)) (\<lambda>(p, i). Ok (p, i, args))
           else if fmt (i + 1) = 42 then rbind (va_arg args) (\<lambda>(p, args). Ok (sint p, i + 2, args))
           else Ok (- 1, i + 1, args)) (\<lambda>(p, i, args).
        Ok (if p < 0 then 0 else p, i, args))
      else Ok (- 1, i, args))"

definition fmt_qualifier :: "cstr \<Rightarrow> nat \<Rightarrow> u8 \<times> nat" where
  "fmt_qualifier fmt i = (if fmt i = 104 \<or> fmt i = 108 then (fmt i, i + 1) else (0, i))"

text \<open>\<^verbatim>\<open>while (--field_width > 0)\<close>\<close>

function pad_char :: "u32 \<Rightarrow> int \<Rightarrow> out \<Rightarrow> int \<times> out" where
  "pad_char e width o1 = (if width - 1 > 0 then pad_char e (width - 1) (put_char e 32 o1) else (width - 1, o1))"
  by pat_completeness auto
termination by (relation "measure (\<lambda>(e, width, o1). nat width)") auto

declare pad_char.simps [simp del]

definition fmt_char :: "u32 \<Rightarrow> u8 \<Rightarrow> int \<Rightarrow> u32 list \<Rightarrow> out \<Rightarrow> (u32 list \<times> out) res" where
  "fmt_char e flags width args o1 =
     (let (width, o1) = (if flags AND LEFT = 0 then pad_char e width o1 else (width, o1))
      in rbind (va_arg args) (\<lambda>(a, args).
         let o1 = put_char e (ucast a) o1;
             (width, o1) = pad_char e width o1
         in Ok (args, o1)))"

text \<open>The text of a string argument: byte \<open>i\<close> of it in a given memory.\<close>

definition str_arg :: "u32 \<Rightarrow> nat \<Rightarrow> mem \<Rightarrow> u8" where
  "str_arg s i m = (if s = 0 then cstr_of [40, 78, 85, 76, 76, 41] i else m (s + of_nat i))"

fun copy_str :: "u32 \<Rightarrow> u32 \<Rightarrow> nat \<Rightarrow> nat \<Rightarrow> out \<Rightarrow> out" where
  "copy_str e s i 0 o1 = o1"
| "copy_str e s i (Suc n) o1 = copy_str e s (i + 1) n (put_char e (str_arg s i (snd o1)) o1)"

definition fmt_string :: "u32 \<Rightarrow> u8 \<Rightarrow> int \<Rightarrow> int \<Rightarrow> u32 list \<Rightarrow> out \<Rightarrow> (u32 list \<times> out) res" where
  "fmt_string e flags width precision args o1 =
     rbind (va_arg args) (\<lambda>(s, args).
     rbind (loop_res (map_option Ok (rt_strlen (\<lambda>i. str_arg s i (snd o1))))) (\<lambda>n.
     let len = sint (of_nat n :: u32);
         len = (if precision > 0 \<and> len > precision then precision else len);
         (rest, o1) = (if flags AND LEFT = 0 then pad e 32 (width - len) o1 else (width - len, o1));
         o1 = copy_str e s 0 (nat len) o1;
         (rest, o1) = pad e 32 rest o1
     in Ok (args, o1)))"

definition fmt_int :: "u32 \<Rightarrow> u8 \<Rightarrow> int \<Rightarrow> int \<Rightarrow> u8 \<Rightarrow> int \<Rightarrow> u32 list \<Rightarrow> out \<Rightarrow> (u32 list \<times> out) res" where
  "fmt_int e flags width precision qualifier base args o1 =
     rbind (va_arg args) (\<lambda>(a, args).
     let num = (if qualifier = 104
                then if flags AND SIGN \<noteq> 0 then scast (ucast a :: u16) else ucast (ucast a :: u16)
                else a)
     in rbind (print_number e num base width precision flags o1) (\<lambda>o1. Ok (args, o1)))"

text \<open>The \<^verbatim>\<open>switch\<close>; the result has the position of the last character of the directive.\<close>

definition fmt_convert ::
    "u32 \<Rightarrow> cstr \<Rightarrow> nat \<Rightarrow> u8 \<Rightarrow> int \<Rightarrow> int \<Rightarrow> u8 \<Rightarrow> u32 list \<Rightarrow> out \<Rightarrow> (nat \<times> u32 list \<times> out) res" where
  "fmt_convert e fmt i flags width precision qualifier args o1 =
     (let fin = (\<lambda>(args, o1). Ok (i, args, o1));
          c = fmt i
      in if c = 99 then rbind (fmt_char e flags width args o1) fin
         else if c = 115 then rbind (fmt_string e flags width precision args o1) fin
         else if c = 112 then
           (let (width, flags) = (if width = - 1 then (8, flags OR ZEROPAD) else (width, flags))
            in rbind (va_arg args) (\<lambda>(a, args).
               rbind (print_number e a 16 width precision flags o1) (\<lambda>o1. Ok (i, args, o1))))
         else if c = 37 then Ok (i, args, put_char e 37 o1)
         else if c = 111 then rbind (fmt_int e flags width precision qualifier 8 args o1) fin
         else if c = 88 then rbind (fmt_int e (flags OR LARGE) width precision qualifier 16 args o1) fin
         else if c = 120 then rbind (fmt_int e flags width precision qualifier 16 args o1) fin
         else if c = 100 \<or> c = 105 then rbind (fmt_int e (flags OR SIGN) width precision qualifier 10 args o1) fin
         else if c = 117 then rbind (fmt_int e flags width precision qualifier 10 args o1) fin
         else if c \<noteq> 0 then Ok (i, args, put_char e c (put_char e 37 o1))
         else Ok (i - 1, args, put_char e 37 o1))"

definition fmt_directive :: "u32 \<Rightarrow> cstr \<Rightarrow> nat \<Rightarrow> u32 list \<Rightarrow> out \<Rightarrow> (nat \<times> u32 list \<times> out) res" where
  "fmt_directive e fmt i args o1 =
     rbind (loop_res (fmt_flags fmt i 0)) (\<lambda>(i, flags).
     rbind (fmt_width fmt i flags args) (\<lambda>(width, i, flags, args).
     rbind (fmt_precision fmt i args) (\<lambda>(precision, i, args).
     let (qualifier, i) = fmt_qualifier fmt i
     in fmt_convert e fmt i flags width precision qualifier args o1)))"

section \<open>The functions\<close>

partial_function (option) vsnprintf_loop :: "u32 \<Rightarrow> cstr \<Rightarrow> nat \<Rightarrow> u32 list \<Rightarrow> out \<Rightarrow> out res option" where
  "vsnprintf_loop e fmt i args o1 =
     (if fmt i = 0 then Some (Ok o1)
      else if fmt i \<noteq> 37 then vsnprintf_loop e fmt (i + 1) args (put_char e (fmt i) o1)
      else (case fmt_directive e fmt i args o1 of
              Fault f \<Rightarrow> Some (Fault f)
            | Ok (i, args, o1) \<Rightarrow> vsnprintf_loop e fmt (i + 1) args o1))"

definition rt_vsnprintf :: "u32 \<Rightarrow> u32 \<Rightarrow> cstr \<Rightarrow> u32 list \<Rightarrow> mem \<Rightarrow> (u32 \<times> mem) res" where
  "rt_vsnprintf buf sz fmt args m =
     (let e = buf + sz - 1;
          e = (if e < buf then - 1 else e)
      in rbind (loop_res (vsnprintf_loop e fmt 0 args (buf, m))) (\<lambda>(str, m).
         Ok (str - buf, if str \<le> e then m(str := 0) else m(e := 0))))"

definition rt_snprintf :: "u32 \<Rightarrow> u32 \<Rightarrow> cstr \<Rightarrow> u32 list \<Rightarrow> mem \<Rightarrow> (u32 \<times> mem) res" where
  "rt_snprintf buf sz fmt args m = rt_vsnprintf buf sz fmt args m"

definition rt_vsprintf :: "u32 \<Rightarrow> cstr \<Rightarrow> u32 list \<Rightarrow> mem \<Rightarrow> (u32 \<times> mem) res" where
  "rt_vsprintf buf format args m = rt_vsnprintf buf (- 1) format args m"

definition rt_sprintf :: "u32 \<Rightarrow> cstr \<Rightarrow> u32 list \<Rightarrow> mem \<Rightarrow> (u32 \<times> mem) res" where
  "rt_sprintf buf format args m = rt_vsprintf buf format args m"

section \<open>Every function only emits characters\<close>

abbreviation emit :: "u32 \<Rightarrow> u8 list \<Rightarrow> out \<Rightarrow> out" where
  "emit e cs o1 \<equiv> fold (put_char e) cs o1"

lemma pad_emit: "pad e c n o1 = (if n > 0 then - 1 else n - 1, emit e (replicate (nat n) c) o1)"
proof (induction e c n o1 rule: pad.induct)
  case (1 e c n o1)
  show ?case
  proof (cases "n > 0")
    case True
    then have "nat n = Suc (nat (n - 1))" by simp
    then show ?thesis using 1 True by (simp add: pad.simps [of e c n])
  qed (simp add: pad.simps)
qed

lemma pad_char_emit: "pad_char e n o1 = (if n > 0 then 0 else n - 1, emit e (replicate (nat (n - 1)) 32) o1)"
proof (induction e n o1 rule: pad_char.induct)
  case (1 e n o1)
  show ?case
  proof (cases "n - 1 > 0")
    case True
    then have "nat (n - 1) = Suc (nat (n - 1 - 1))" by simp
    then show ?thesis using 1 True by (simp add: pad_char.simps [of e n])
  qed (auto simp: pad_char.simps)
qed

lemma copy_str_emit: "\<exists>cs. copy_str e s i n o1 = emit e cs o1 \<and> length cs = n"
proof (induction n arbitrary: i o1)
  case (Suc n)
  obtain cs where "copy_str e s (i + 1) n (put_char e (str_arg s i (snd o1)) o1) = emit e cs (put_char e (str_arg s i (snd o1)) o1)" "length cs = n"
    using Suc by blast
  then show ?case by (intro exI [of _ "str_arg s i (snd o1) # cs"]) simp
qed simp

lemma print_digits_length: "unat num < 10 ^ k \<Longrightarrow> length (print_digits digits base num) \<le> k"
proof (induction k arbitrary: num)
  case 0
  then show ?case by (simp add: print_digits.simps unat_eq_zero)
next
  case (Suc k)
  have "unat num div 16 \<le> unat num div 10" by (rule div_le_mono2) simp_all
  moreover have "unat num div 10 < 10 ^ k" using Suc.prems by (simp add: less_mult_imp_div_less mult.commute)
  ultimately have "unat (snd (divide num base)) < 10 ^ k" by (simp add: divide_def unat_div)
  then show ?case using Suc.IH by (simp add: print_digits.simps [of digits base num])
qed

lemma tmp_fits: "length (print_digits digits base num) \<le> 16"
proof -
  have "unat num < 2 ^ 32" using unsigned_less [of num] by simp
  then have "unat num < 10 ^ 16" by simp
  then show ?thesis by (rule print_digits_length)
qed

definition emits :: "u32 \<Rightarrow> out \<Rightarrow> out \<Rightarrow> bool" where
  "emits e o1 o2 \<longleftrightarrow> (\<exists>cs. o2 = emit e cs o1)"

named_theorems emits_intros \<open>what only emits characters\<close>

lemma emits_refl [emits_intros]: "emits e o1 o1"
  unfolding emits_def by (intro exI [of _ "[]"]) simp

lemma emits_trans: "emits e o1 o2 \<Longrightarrow> emits e o2 o3 \<Longrightarrow> emits e o1 o3"
  unfolding emits_def by (metis fold_append comp_apply)

lemma emits_emit [emits_intros]: "emits e o1 o2 \<Longrightarrow> emits e o1 (emit e cs o2)"
  by (rule emits_trans) (auto simp: emits_def)

lemma emits_put [emits_intros]: "emits e o1 o2 \<Longrightarrow> emits e o1 (put_char e c o2)"
  using emits_emit [of e o1 o2 "[c]"] by simp

lemma emits_copy [emits_intros]: "emits e o1 o2 \<Longrightarrow> emits e o1 (copy_str e s i n o2)"
  using copy_str_emit [of e s i n o2] emits_emit by metis

lemma emits_pad [emits_intros]: "emits e o1 o2 \<Longrightarrow> emits e o1 (snd (pad e c n o2))"
  and emits_pad_char [emits_intros]: "emits e o1 o2 \<Longrightarrow> emits e o1 (snd (pad_char e n o2))"
  unfolding pad_emit pad_char_emit snd_conv by (erule emits_emit)+

lemma emits_if [emits_intros]: "emits e o1 (snd a) \<Longrightarrow> emits e o1 (snd b) \<Longrightarrow> emits e o1 (snd (if c then a else b))"
  by simp

lemma emits_pair [emits_intros]: "emits e o1 b \<Longrightarrow> emits e o1 (snd (a, b))"
  by simp

lemma print_number_emits: "\<exists>o2. print_number e num base s precision type o1 = Ok o2 \<and> emits e o1 o2"
proof -
  have t: "\<not> 16 < length (if n = 0 then [48] else print_digits digits base n)" for n digits
    using tmp_fits by (simp add: not_less)
  show ?thesis
    unfolding print_number_def Let_def case_prod_beta if_not_P [OF t] by (rule exI, rule conjI, rule refl) (intro emits_intros)
qed

section \<open>The functions end\<close>

lemma emits_beyond: "emits e o1 o2 \<Longrightarrow> e < z \<Longrightarrow> snd o2 z = snd o1 z"
proof -
  have "e < z \<Longrightarrow> snd (emit e cs o1) z = snd o1 z" for cs
    by (induction cs arbitrary: o1) (auto simp: put_char_def)
  then show "emits e o1 o2 \<Longrightarrow> e < z \<Longrightarrow> snd o2 z = snd o1 z" by (auto simp: emits_def)
qed

text \<open>A zero byte anywhere ends every string: addresses wrap.\<close>

lemma strlen_total:
  assumes "s i = 0"
  shows "\<exists>n. rt_strlen s = Some n"
proof -
  define k where "k = (LEAST i. s i = 0)"
  have k: "s k = 0" "\<And>j. j < k \<Longrightarrow> s j \<noteq> 0" using assms not_less_Least unfolding k_def by (auto intro: LeastI)
  have "cstring s (map s [0..<k])" using k unfolding cstring_def by (auto simp: in_set_conv_nth)
  then show ?thesis using rt_strlen_cstring by blast
qed

lemma str_arg_total:
  assumes "m z = 0"
  shows "\<exists>n. rt_strlen (\<lambda>i. str_arg s i m) = Some n"
proof (cases "s = 0")
  case True
  then show ?thesis by (intro strlen_total [of _ 6]) (simp add: str_arg_def cstr_of_def)
next
  case False
  then show ?thesis using assms by (intro strlen_total [of _ "unat (z - s)"]) (simp add: str_arg_def)
qed

lemma cstring_inside: "cstring fmt xs \<Longrightarrow> i \<le> length xs \<Longrightarrow> fmt i \<noteq> 0 \<Longrightarrow> i < length xs"
  by (cases "i = length xs") (auto simp: cstring_def)

lemma fmt_flags_total:
  assumes "cstring fmt xs" "i < length xs"
  shows "\<exists>j flags'. fmt_flags fmt i flags = Some (Ok (j, flags')) \<and> i < j \<and> j \<le> length xs"
  using assms(2)
proof (induction "length xs - i" arbitrary: i flags rule: less_induct)
  case less
  show ?case
  proof (cases "fmt (i + 1) \<in> {45, 43, 32, 35, 48}")
    case True
    then have "i + 1 \<noteq> length xs" using assms(1) by (auto simp: cstring_def)
    then have i: "i + 1 < length xs" using less.prems by simp
    then have "\<exists>j flags'. fmt_flags fmt (i + 1) f = Some (Ok (j, flags')) \<and> i + 1 < j \<and> j \<le> length xs" for f
      by (intro less.hyps) simp_all
    then show ?thesis using True by (subst fmt_flags.simps) (fastforce simp: Let_def)
  next
    case False
    then show ?thesis using less.prems by (subst fmt_flags.simps) (auto simp: Let_def)
  qed
qed

lemma isdigit_0: "\<not> isdigit 0"
  by (simp add: isdigit_def)

lemma skip_atoi_total:
  assumes "cstring fmt xs" "i \<le> length xs"
  shows "\<exists>w j. skip_atoi fmt i = Ok (w, j) \<and> i \<le> j \<and> j \<le> length xs"
proof -
  have "\<exists>w j. skip_atoi_loop fmt i v = Some (Ok (w, j)) \<and> i \<le> j \<and> j \<le> length xs" for v
    using assms(2)
  proof (induction "length xs - i" arbitrary: i v rule: less_induct)
    case less
    show ?case
    proof (cases "isdigit (fmt i)")
      case True
      then have "i \<noteq> length xs" using assms(1) isdigit_0 by (auto simp: cstring_def)
      then have "\<exists>w j. skip_atoi_loop fmt (i + 1) (v * 10 + uint (fmt i) - 48) = Some (Ok (w, j)) \<and> i + 1 \<le> j \<and> j \<le> length xs"
        using less.prems by (intro less.hyps) simp_all
      then show ?thesis using True by (subst skip_atoi_loop.simps) auto
    next
      case False
      then show ?thesis using less.prems by (subst skip_atoi_loop.simps) simp
    qed
  qed
  from this [of 0] show ?thesis by (auto simp: skip_atoi_def)
qed

lemma fmt_width_total:
  assumes "cstring fmt xs" "i \<le> length xs" "args \<noteq> []"
  shows "\<exists>w j flags' args'. fmt_width fmt i flags args = Ok (w, j, flags', args') \<and> i \<le> j \<and> j \<le> length xs \<and>
    length args \<le> length args' + 1"
proof (cases "isdigit (fmt i)")
  case True
  then show ?thesis using skip_atoi_total [OF assms(1,2)] by (auto simp: fmt_width_def)
next
  case False
  moreover have "fmt i \<noteq> 0 \<Longrightarrow> i + 1 \<le> length xs" using cstring_inside [OF assms(1,2)] by simp
  ultimately show ?thesis
    using assms(2,3) by (cases args) (auto simp: fmt_width_def va_arg_def)
qed

lemma fmt_precision_total:
  assumes "cstring fmt xs" "i \<le> length xs" "args \<noteq> []"
  shows "\<exists>p j args'. fmt_precision fmt i args = Ok (p, j, args') \<and> i \<le> j \<and> j \<le> length xs \<and> length args \<le> length args' + 1"
proof (cases "fmt i = 46")
  case True
  have nz: "fmt k \<noteq> 0 \<Longrightarrow> k \<le> length xs \<Longrightarrow> k + 1 \<le> length xs" for k
    using cstring_inside [OF assms(1)] by fastforce
  have i1: "i + 1 \<le> length xs" using nz [of i] True assms(2) by simp
  consider "isdigit (fmt (i + 1))" | "\<not> isdigit (fmt (i + 1))" "fmt (i + 1) = 42" | "\<not> isdigit (fmt (i + 1))" "fmt (i + 1) \<noteq> 42"
    by blast
  then show ?thesis
  proof cases
    case 1
    obtain w j where "skip_atoi fmt (i + 1) = Ok (w, j)" "i + 1 \<le> j" "j \<le> length xs" using skip_atoi_total [OF assms(1) i1] by blast
    then show ?thesis using True 1 by (simp add: fmt_precision_def)
  next
    case 2
    then show ?thesis using True nz [OF _ i1] assms(3) by (cases args) (simp_all add: fmt_precision_def va_arg_def)
  next
    case 3
    then show ?thesis using True i1 by (simp add: fmt_precision_def)
  qed
qed (use assms(2) in \<open>simp add: fmt_precision_def\<close>)

lemma va_arg_Ok: "args \<noteq> [] \<Longrightarrow> va_arg args = Ok (hd args, tl args)"
  by (cases args) (simp_all add: va_arg_def)

lemma fmt_char_emits:
  assumes "args \<noteq> []"
  shows "\<exists>o2. fmt_char e flags width args o1 = Ok (tl args, o2) \<and> emits e o1 o2"
  unfolding fmt_char_def Let_def case_prod_beta va_arg_Ok [OF assms] rbind.simps fst_conv snd_conv
  by (rule exI, rule conjI, rule refl) (intro emits_intros)

lemma fmt_string_emits:
  assumes "args \<noteq> []" "snd o1 z = 0"
  shows "\<exists>o2. fmt_string e flags width precision args o1 = Ok (tl args, o2) \<and> emits e o1 o2"
proof -
  obtain n where n: "rt_strlen (\<lambda>i. str_arg (hd args) i (snd o1)) = Some n" using str_arg_total [of "snd o1" z] assms(2) by blast
  show ?thesis
    unfolding fmt_string_def Let_def case_prod_beta va_arg_Ok [OF assms(1)] rbind.simps fst_conv n option.map loop_res_Some snd_conv
    by (rule exI, rule conjI, rule refl) (intro emits_intros)
qed

lemma fmt_int_emits:
  assumes "args \<noteq> []"
  shows "\<exists>o2. fmt_int e flags width precision qualifier base args o1 = Ok (tl args, o2) \<and> emits e o1 o2"
proof -
  define num :: u32 where "num = (if qualifier = 104
                then if flags AND SIGN \<noteq> 0 then scast (ucast (hd args) :: u16) else ucast (ucast (hd args) :: u16)
                else hd args)"
  obtain o2 where "print_number e num base width precision flags o1 = Ok o2" "emits e o1 o2" using print_number_emits by blast
  then show ?thesis using assms by (simp add: fmt_int_def va_arg_Ok num_def [symmetric])
qed

lemma fmt_convert_total:
  assumes "cstring fmt xs" "i \<le> length xs" "0 < i" "args \<noteq> []" "snd o1 z = 0"
  shows "\<exists>j args' o2. fmt_convert e fmt i flags width precision qualifier args o1 = Ok (j, args', o2) \<and>
    i \<le> j + 1 \<and> j < length xs \<and> length args \<le> length args' + 1 \<and> emits e o1 o2"
proof -
  have nz: "fmt i \<noteq> 0 \<Longrightarrow> i < length xs" by (rule cstring_inside [OF assms(1,2)])
  obtain o3 where o3: "print_number e (hd args) 16 (if width = - 1 then 8 else width) precision
      (if width = - 1 then flags OR ZEROPAD else flags) o1 = Ok o3" "emits e o1 o3"
    using print_number_emits by blast
  have p: "emits e o1 (put_char e 37 o1)" "emits e o1 (put_char e c (put_char e 37 o1))" for c by (intro emits_intros)+
  obtain oc os where oc: "fmt_char e flags width args o1 = Ok (tl args, oc)" "emits e o1 oc"
    and os: "fmt_string e flags width precision args o1 = Ok (tl args, os)" "emits e o1 os"
    using fmt_char_emits [OF assms(4)] fmt_string_emits [OF assms(4,5)] by meson
  have "\<forall>x. \<exists>o2. fmt_int e (fst x) width precision qualifier (snd x) args o1 = Ok (tl args, o2) \<and> emits e o1 o2"
    using fmt_int_emits [OF assms(4)] by blast
  from choice [OF this] obtain f where f: "fmt_int e fl width precision qualifier b args o1 = Ok (tl args, f (fl, b))" "emits e o1 (f (fl, b))" for fl b
    by fastforce
  define G where "G r \<longleftrightarrow> (\<exists>j args' o2. r = Ok (j, args', o2) \<and> i \<le> j + 1 \<and> j < length xs \<and>
    length args \<le> length (args' :: u32 list) + 1 \<and> emits e o1 o2)" for r
  have G: "fmt i \<noteq> 0 \<Longrightarrow> emits e o1 o2 \<Longrightarrow> G (Ok (i, tl args, o2))" "fmt i \<noteq> 0 \<Longrightarrow> emits e o1 o2 \<Longrightarrow> G (Ok (i, args, o2))"
      "emits e o1 o2 \<Longrightarrow> G (Ok (i - 1, args, o2))" for o2
    using nz assms(2,3) by (auto simp: G_def)
  have pv: "(case if width = - 1 then (8, flags OR ZEROPAD) else (width, flags) of (width, flags) \<Rightarrow>
      rbind (print_number e (hd args) 16 width precision flags o1) (\<lambda>o1. Ok (i, tl args, o1))) = Ok (i, tl args, o3)"
    using o3(1) by (cases "width = - 1") simp_all
  have "G (fmt_convert e fmt i flags width precision qualifier args o1)"
    unfolding fmt_convert_def Let_def oc(1) os(1) f(1) va_arg_Ok [OF assms(4)] rbind.simps prod.case pv
    by (auto intro!: G(1,2) oc(2) os(2) f(2) o3(2) p) (rule G(3) [OF p(1), unfolded One_nat_def])
  then show ?thesis by (simp add: G_def)
qed

lemma fmt_directive_total:
  assumes "cstring fmt xs" "i < length xs" "3 \<le> length args" "snd o1 z = 0"
  shows "\<exists>j args' o2. fmt_directive e fmt i args o1 = Ok (j, args', o2) \<and> i \<le> j \<and> j < length xs \<and>
    length args \<le> length args' + 3 \<and> emits e o1 o2"
proof -
  obtain j1 f1 where 1: "fmt_flags fmt i 0 = Some (Ok (j1, f1))" "i < j1" "j1 \<le> length xs" using fmt_flags_total [OF assms(1,2)] by blast
  have "args \<noteq> []" using assms(3) by auto
  then obtain w j2 f2 a2 where 2: "fmt_width fmt j1 f1 args = Ok (w, j2, f2, a2)" "j1 \<le> j2" "j2 \<le> length xs" "length args \<le> length a2 + 1"
    using fmt_width_total [OF assms(1) 1(3)] by blast
  have "a2 \<noteq> []" using assms(3) 2(4) by auto
  then obtain p j3 a3 where 3: "fmt_precision fmt j2 a2 = Ok (p, j3, a3)" "j2 \<le> j3" "j3 \<le> length xs" "length a2 \<le> length a3 + 1"
    using fmt_precision_total [OF assms(1) 2(3)] by blast
  obtain q j4 where 4: "fmt_qualifier fmt j3 = (q, j4)" by (cases "fmt_qualifier fmt j3")
  then have j4: "j3 \<le> j4" "j4 \<le> length xs"
    using 3(3) cstring_inside [OF assms(1) 3(3)] by (auto simp: fmt_qualifier_def split: if_splits)
  have "a3 \<noteq> []" "0 < j4" using assms(3) 1 2 3 j4 by auto
  then obtain j args' o2 where "fmt_convert e fmt j4 f2 w p q a3 o1 = Ok (j, args', o2)" "j4 \<le> j + 1" "j < length xs"
      "length a3 \<le> length args' + 1" "emits e o1 o2"
    using fmt_convert_total [OF assms(1) j4(2) _ _ assms(4), of a3 e f2 w p q] by blast
  then show ?thesis using 1 2 3 4 j4 by (simp add: fmt_directive_def)
qed

lemma vsnprintf_loop_total:
  assumes "cstring fmt xs" "i \<le> length xs" "3 * (length xs - i) \<le> length args" "snd o1 z = 0" "e < z"
  shows "\<exists>o2. vsnprintf_loop e fmt i args o1 = Some (Ok o2) \<and> emits e o1 o2"
  using assms(2-4)
proof (induction "length xs - i" arbitrary: i args o1 rule: less_induct)
  case less
  consider "fmt i = 0" | "fmt i \<noteq> 0" "i < length xs" using cstring_inside [OF assms(1) less.prems(1)] by blast
  then show ?case
  proof cases
    case 1
    then show ?thesis by (subst vsnprintf_loop.simps) (simp add: emits_refl)
  next
    case 2
    show ?thesis
    proof (cases "fmt i = 37")
      case False
      define o2 where "o2 = put_char e (fmt i) o1"
      have o2: "emits e o1 o2" unfolding o2_def by (intro emits_intros)
      have arg_le: "3 * (length xs - (i + 1)) \<le> length args" using less.prems(2) by linarith
      have "snd o2 z = 0" using emits_beyond [OF o2] assms(5) less.prems(3) by metis
      then obtain o3 where "vsnprintf_loop e fmt (i + 1) args o2 = Some (Ok o3)" "emits e o2 o3"
        using less.hyps [of "i + 1" args o2, OF diff_less_mono2 [OF less_add_one 2(2)] _ arg_le] 2(2) by auto
      then show ?thesis using 2 False emits_trans [OF o2] by (subst vsnprintf_loop.simps) (simp add: o2_def)
    next
      case True
      have "3 \<le> length args" using less.prems(2) 2(2) by linarith
      then obtain j args' o2 where d: "fmt_directive e fmt i args o1 = Ok (j, args', o2)" "i \<le> j" "j < length xs"
          "length args \<le> length args' + 3" and o2: "emits e o1 o2"
        using fmt_directive_total [OF assms(1) 2(2) _ less.prems(3)] by blast
      have "snd o2 z = 0" using emits_beyond [OF o2] assms(5) less.prems(3) by metis
      moreover have "3 * (length xs - (j + 1)) \<le> length args'" using d(2,3,4) less.prems(2) by linarith
      ultimately obtain o3 where "vsnprintf_loop e fmt (j + 1) args' o2 = Some (Ok o3)" "emits e o2 o3"
        using less.hyps [of "j + 1" args' o2, OF diff_less_mono2] d by (auto simp: less_Suc_eq_le)
      then show ?thesis using 2 True d(1) emits_trans [OF o2] by (subst vsnprintf_loop.simps) simp
    qed
  qed
qed

section \<open>What is in the buffer\<close>

lemma emit_mem:
  assumes "length cs \<le> 2 ^ 32"
  shows "emit e cs (str, m) =
    (str + of_nat (length cs), \<lambda>x. if unat (x - str) < length cs \<and> x \<le> e then cs ! unat (x - str) else m x)"
  using assms
proof (induction cs arbitrary: str m)
  case (Cons c cs)
  have step: "unat (x - (str + 1)) = unat (x - str) - 1" if "x \<noteq> str" for x :: u32
  proof -
    have "1 \<le> x - str" using that by (simp add: word_le_nat_alt unat_gt_0 Suc_le_eq)
    then have "unat (x - str - 1) = unat (x - str) - 1" by (simp add: unat_sub)
    then show ?thesis by (simp add: algebra_simps)
  qed
  have last: "unat (str - (str + 1)) = 2 ^ 32 - 1" by (simp add: unsigned_minus_1_eq_mask mask_eq_exp_minus_1)
  have pos: "0 < unat (x - str)" if "x \<noteq> str" for x :: u32 using that by (simp add: unat_gt_0)
  show ?case
    using Cons last
    by (auto simp: put_char_def fun_eq_iff step nth_Cons' unat_eq_zero dest: pos)
qed simp

text \<open>What a buffer of \<open>n\<close> bytes holds when \<open>cs\<close> was printed into it: as much as fits, and a zero.\<close>

definition printed :: "u32 \<Rightarrow> nat \<Rightarrow> u8 list \<Rightarrow> mem \<Rightarrow> mem" where
  "printed buf n cs m = (\<lambda>x.
     if unat (x - buf) < min (length cs) (n - 1) then cs ! unat (x - buf)
     else if unat (x - buf) = min (length cs) (n - 1) then 0 else m x)"

lemma offset_nat:
  fixes x buf :: u32
  assumes "unat buf + unat (x - buf) < 2 ^ 32"
  shows "unat x = unat buf + unat (x - buf)"
  using unat_word_ariths(1) [of buf "x - buf"] assms by simp

lemma emit_printed:
  fixes buf sz e :: u32
  assumes sz: "0 < unat sz" "unat buf + unat sz \<le> 2 ^ 32" and e: "e = buf + sz - 1" and len: "unat buf + length cs < 2 ^ 32"
  shows "(case emit e cs (buf, m) of (str, m) \<Rightarrow> (str, if str \<le> e then m(str := 0) else m(e := 0))) =
    (buf + of_nat (length cs), printed buf (unat sz) cs m)"
proof -
  have ed: "unat (e - buf) = unat sz - 1" using sz(1) unat_minus_one [of sz] by (cases "sz = 0") (simp_all add: e)
  have en: "unat e = unat buf + (unat sz - 1)" using offset_nat [of buf e] sz ed by simp
  define str :: u32 where "str = buf + of_nat (length cs)"
  have sd: "unat (str - buf) = length cs" using len by (simp add: str_def unat_of_nat take_bit_nat_eq_self)
  have sn: "unat str = unat buf + length cs" using offset_nat [of buf str] sd len by simp
  have le: "x \<le> e \<longleftrightarrow> unat (x - buf) \<le> unat sz - 1" if "unat (x - buf) \<le> length cs" for x
    using offset_nat [of buf x] that len en by (simp add: word_le_nat_alt)
  have eq: "x = y \<longleftrightarrow> unat (x - buf) = unat (y - buf)" for x y :: u32
    by (metis diff_add_cancel word_unat_eq_iff)
  have "(if str \<le> e then (\<lambda>x. if unat (x - buf) < length cs \<and> x \<le> e then cs ! unat (x - buf) else m x)(str := 0)
      else (\<lambda>x. if unat (x - buf) < length cs \<and> x \<le> e then cs ! unat (x - buf) else m x)(e := 0)) x = printed buf (unat sz) cs m x" for x
    using sd ed le [of x] le [of str] eq [of x str] eq [of x e] by (auto simp: printed_def min_def)
  then have written: "(if str \<le> e then (\<lambda>x. if unat (x - buf) < length cs \<and> x \<le> e then cs ! unat (x - buf) else m x)(str := 0)
      else (\<lambda>x. if unat (x - buf) < length cs \<and> x \<le> e then cs ! unat (x - buf) else m x)(e := 0)) = printed buf (unat sz) cs m"
    by (rule ext)
  have "length cs \<le> 2 ^ 32" using len by linarith
  from emit_mem [OF this, of e buf m] show ?thesis using written unfolding str_def by (simp only: prod.case)
qed

text \<open>The characters \<open>cs\<close> are what the loop over the format puts out, those that do not fit included.\<close>

definition prints :: "u32 \<Rightarrow> u32 \<Rightarrow> cstr \<Rightarrow> u32 list \<Rightarrow> mem \<Rightarrow> u8 list \<Rightarrow> bool" where
  "prints buf sz fmt args m cs \<longleftrightarrow>
     vsnprintf_loop (buf + sz - 1) fmt 0 args (buf, m) = Some (Ok (emit (buf + sz - 1) cs (buf, m)))"

lemma end_not_below:
  fixes buf sz :: u32
  assumes "0 < unat sz" "unat buf + unat sz \<le> 2 ^ 32"
  shows "\<not> buf + sz - 1 < buf"
proof -
  have "unat (buf + sz - 1 - buf) = unat sz - 1" using assms(1) unat_minus_one [of sz] by (cases "sz = 0") simp_all
  then have "unat (buf + sz - 1) = unat buf + (unat sz - 1)" using offset_nat [of buf "buf + sz - 1"] assms by simp
  then show ?thesis by (simp add: word_less_nat_alt)
qed

lemma vsnprintf_total:
  assumes fmt: "cstring fmt xs" and args: "3 * length xs \<le> length args"
    and sz: "0 < unat sz" "unat buf + unat sz \<le> 2 ^ 32" and z: "buf + sz - 1 < z" "m z = 0"
  shows "\<exists>cs m'. prints buf sz fmt args m cs \<and> rt_vsnprintf buf sz fmt args m = Ok (of_nat (length cs), m')"
proof -
  define e where "e = buf + sz - 1"
  obtain o2 where l: "vsnprintf_loop e fmt 0 args (buf, m) = Some (Ok o2)" "emits e (buf, m) o2"
    using vsnprintf_loop_total [OF fmt, of 0 args "(buf, m)" z e] args z by (auto simp: e_def)
  then obtain cs where cs: "o2 = emit e cs (buf, m)" by (auto simp: emits_def)
  have fst: "fst (emit e bs (str, mm)) = str + of_nat (length bs)" for bs str mm
    by (induction bs arbitrary: str mm) (simp_all add: put_char_def)
  show ?thesis
    using fst [of cs buf m] l(1) end_not_below [OF sz]
    by (cases "emit e cs (buf, m)", intro exI [of _ cs]) (auto simp: prints_def rt_vsnprintf_def e_def [symmetric] Let_def cs)
qed

lemma vsnprintf_prints:
  assumes "prints buf sz fmt args m cs" "0 < unat sz" "unat buf + unat sz \<le> 2 ^ 32" "unat buf + length cs < 2 ^ 32"
  shows "rt_vsnprintf buf sz fmt args m = Ok (of_nat (length cs), printed buf (unat sz) cs m)"
proof -
  define e where "e = buf + sz - 1"
  show ?thesis
    using emit_printed [OF assms(2,3) e_def assms(4), of m] end_not_below [OF assms(2,3)] assms(1)
    by (cases "emit e cs (buf, m)") (auto simp: prints_def rt_vsnprintf_def e_def [symmetric] Let_def)
qed

text \<open>A format without directives puts out itself.\<close>

lemma loop_literal:
  "(\<forall>c \<in> set xs. c \<noteq> 0 \<and> c \<noteq> 37) \<Longrightarrow> (\<And>j. j < length xs \<Longrightarrow> fmt (i + j) = xs ! j) \<Longrightarrow> fmt (i + length xs) = 0 \<Longrightarrow>
    vsnprintf_loop e fmt i args o1 = Some (Ok (emit e xs o1))"
proof (induction xs arbitrary: i o1)
  case Nil
  then show ?case by (simp add: vsnprintf_loop.simps)
next
  case (Cons y ys)
  have "fmt i = y" using Cons.prems(2) [of 0] by simp
  moreover have "vsnprintf_loop e fmt (i + 1) args (put_char e y o1) = Some (Ok (emit e ys (put_char e y o1)))"
  proof (rule Cons.IH)
    show "fmt (i + 1 + j) = ys ! j" if "j < length ys" for j using Cons.prems(2) [of "Suc j"] that by simp
  qed (use Cons.prems in simp_all)
  ultimately show ?case using Cons.prems(1) by (simp add: vsnprintf_loop.simps [of e fmt i])
qed

lemma prints_literal: "(\<forall>c \<in> set xs. c \<noteq> 0 \<and> c \<noteq> 37) \<Longrightarrow> prints buf sz (cstr_of xs) args m xs"
  unfolding prints_def by (rule loop_literal) (simp_all add: cstr_of_def)

text \<open>A buffer of size 0 is taken for one that reaches to the end of the memory.\<close>

lemma vsnprintf_zero:
  assumes "buf \<noteq> 0"
  shows "rt_vsnprintf buf 0 fmt args m = rt_vsnprintf buf (- buf) fmt args m"
proof -
  have "buf - 1 < buf" using assms by (simp add: word_less_nat_alt unat_minus_one unat_gt_0)
  moreover have "\<not> (- 1 :: u32) < buf" by (simp add: not_less)
  ultimately show ?thesis by (simp add: rt_vsnprintf_def Let_def)
qed

section \<open>Printing and reading numbers\<close>

lemma print_digits_value: "foldl (\<lambda>i c. i * 10 + uint c - 48) 0 (rev (print_digits small_digits 10 num)) = uint num"
proof (induction "unat num" arbitrary: num rule: less_induct)
  case less
  show ?case
  proof (cases "num = 0")
    case True
    then show ?thesis by (simp add: print_digits.simps)
  next
    case False
    have dg: "uint (small_digits ! unat r) = uint r + 48" if "unat r < 10" for r :: u32
    proof -
      have "unat r \<in> {0, 1, 2, 3, 4, 5, 6, 7, 8, 9}" using that by auto
      then have "r \<in> {0, 1, 2, 3, 4, 5, 6, 7, 8, 9}" by (simp add: word_unat_eq_iff)
      then show ?thesis by (auto simp: small_digits_def)
    qed
    have "unat (num mod 10) < 10" by (simp add: unat_mod)
    moreover have "foldl (\<lambda>i c. i * 10 + uint c - 48) 0 (rev (print_digits small_digits 10 (num div 10))) = uint (num div 10)"
      using divide_less [OF False, of 10] by (intro less) (simp add: divide_def)
    ultimately show ?thesis
      using False div_mult_mod_eq [of "uint num" 10] by (simp add: print_digits.simps [of _ _ num] divide_def dg uint_div uint_mod)
  qed
qed

lemma print_digits_isdigit: "c \<in> set (print_digits small_digits 10 num) \<Longrightarrow> isdigit c \<and> c \<noteq> 0"
proof (induction "unat num" arbitrary: num rule: less_induct)
  case less
  then have "num \<noteq> 0" by (auto simp: print_digits.simps)
  moreover have "isdigit (small_digits ! k) \<and> small_digits ! k \<noteq> 0" if "k < 10" for k
  proof -
    have "k \<in> {0, 1, 2, 3, 4, 5, 6, 7, 8, 9}" using that by auto
    then show ?thesis by (auto simp: small_digits_def isdigit_def)
  qed
  then have "isdigit (small_digits ! unat (num mod 10)) \<and> small_digits ! unat (num mod 10) \<noteq> 0" by (simp add: unat_mod)
  ultimately show ?case
    using less(2) less(1) [of "num div 10"] divide_less [of num 10] by (auto simp: print_digits.simps [of _ _ num] divide_def)
qed

lemma skip_atoi_digits:
  assumes "\<forall>k < length ds. s (p + k) = ds ! k" "\<forall>c \<in> set ds. isdigit c" "\<not> isdigit (s (p + length ds))"
  shows "skip_atoi_loop s p i = Some (Ok (foldl (\<lambda>i c. i * 10 + uint c - 48) i ds, p + length ds))"
  using assms
proof (induction ds arbitrary: p i)
  case Nil
  then show ?case by (subst skip_atoi_loop.simps) simp
next
  case (Cons d ds)
  have "s p = d" using Cons.prems(1) by force
  moreover have "skip_atoi_loop s (p + 1) (i * 10 + uint d - 48) =
      Some (Ok (foldl (\<lambda>i c. i * 10 + uint c - 48) (i * 10 + uint d - 48) ds, p + 1 + length ds))"
  proof (rule Cons.IH)
    show "\<forall>k < length ds. s (p + 1 + k) = ds ! k" using Cons.prems(1) by fastforce
  qed (use Cons.prems(2,3) in simp_all)
  ultimately show ?case using Cons.prems(2) by (subst skip_atoi_loop.simps) simp
qed

text \<open>The decimal digits of a number, as \<^verbatim>\<open>%u\<close> prints them.\<close>

definition decimal :: "u32 \<Rightarrow> u8 list" where
  "decimal num = (if num = 0 then [48] else rev (print_digits small_digits 10 num))"

lemma decimal_digits: "\<forall>c \<in> set (decimal num). isdigit c \<and> c \<noteq> 0"
  using print_digits_isdigit by (auto simp: decimal_def isdigit_def)

lemma decimal_value: "foldl (\<lambda>i c. i * 10 + uint c - 48) 0 (decimal num) = uint num"
  using print_digits_value by (simp add: decimal_def)

lemma decimal_length: "length (decimal num) \<le> 10" "0 < length (decimal num)"
proof -
  have "unat num < 2 ^ 32" using unsigned_less [of num] by simp
  then have "unat num < 10 ^ 10" by simp
  then show "length (decimal num) \<le> 10" using print_digits_length by (simp add: decimal_def)
  show "0 < length (decimal num)" by (simp add: decimal_def print_digits.simps [of _ _ num])
qed

lemma print_number_decimal: "print_number e num 10 (- 1) (- 1) 0 o1 = Ok (emit e (decimal num) o1)"
proof -
  define tmp where "tmp = (if num = 0 then [48] else print_digits small_digits 10 num)"
  have "\<not> 16 < length tmp" "rev tmp = decimal num" using tmp_fits by (simp_all add: tmp_def decimal_def not_less)
  moreover have "print_sign num 0 = (0, num)" by (simp add: print_sign_def)
  ultimately show ?thesis
    by (simp add: print_number_def tmp_def [symmetric] Let_def pad_emit)
qed

lemma vsnprintf_decimal:
  assumes sz: "0 < unat sz" "unat buf + unat sz \<le> 2 ^ 32" and room: "unat buf + 11 \<le> 2 ^ 32"
  shows "rt_vsnprintf buf sz (cstr_of [37, 117]) [num] m = Ok (of_nat (length (decimal num)), printed buf (unat sz) (decimal num) m)"
proof -
  define fmt where "fmt = cstr_of [37, 117]"
  have f: "fmt 0 = 37" "fmt (Suc 0) = 117" "fmt (Suc (Suc 0)) = 0" by (simp_all add: fmt_def cstr_of_def)
  define e where "e = buf + sz - 1"
  have ed: "unat (e - buf) = unat sz - 1" using sz(1) unat_minus_one [of sz] by (cases "sz = 0") (simp_all add: e_def)
  have "unat e = unat buf + (unat sz - 1)" using offset_nat [of buf e] sz ed by simp
  then have ne: "\<not> e < buf" by (simp add: word_less_nat_alt)
  have "fmt_flags fmt 0 0 = Some (Ok (1, 0))" by (subst fmt_flags.simps) (simp add: f)
  then have d: "fmt_directive e fmt 0 [num] o1 = Ok (1, [], emit e (decimal num) o1)" for o1
    by (simp add: fmt_directive_def fmt_width_def fmt_precision_def fmt_qualifier_def fmt_convert_def fmt_int_def va_arg_def
        f isdigit_def print_number_decimal)
  have "vsnprintf_loop e fmt 0 [num] (buf, m) = Some (Ok (emit e (decimal num) (buf, m)))"
    by (subst vsnprintf_loop.simps, simp add: f d, subst vsnprintf_loop.simps, simp add: f)
  moreover have "unat buf + length (decimal num) < 2 ^ 32" using decimal_length(1) [of num] room by linarith
  ultimately show ?thesis
    using emit_printed [OF sz e_def, of "decimal num" m] ne
    by (cases "emit e (decimal num) (buf, m)") (auto simp: rt_vsnprintf_def e_def [symmetric] Let_def fmt_def [symmetric])
qed

lemma printed_nth:
  assumes "length cs < n" "k \<le> length cs" "length cs < 2 ^ 32"
  shows "printed buf n cs m (buf + of_nat k) = (if k < length cs then cs ! k else 0)"
proof -
  have "unat (of_nat k :: u32) = k" using assms(2,3) by (simp add: unat_of_nat take_bit_nat_eq_self)
  moreover have "min (length cs) (n - 1) = length cs" using assms(1) by simp
  ultimately show ?thesis using assms(2) by (auto simp: printed_def)
qed

lemma print_read:
  assumes sz: "11 \<le> unat sz" "unat buf + unat sz \<le> 2 ^ 32"
  shows "\<exists>m'. rt_vsnprintf buf sz (cstr_of [37, 117]) [num] m = Ok (of_nat (length (decimal num)), m') \<and>
    skip_atoi (\<lambda>i. m' (buf + of_nat i)) 0 = Ok (uint num, length (decimal num))"
proof -
  define m' where "m' = printed buf (unat sz) (decimal num) m"
  have l: "length (decimal num) < unat sz" "length (decimal num) < 2 ^ 32" using decimal_length(1) [of num] sz by linarith+
  have nth: "m' (buf + of_nat k) = (if k < length (decimal num) then decimal num ! k else 0)" if "k \<le> length (decimal num)" for k
    using printed_nth [OF l(1) that l(2)] by (simp add: m'_def)
  have "skip_atoi_loop (\<lambda>i. m' (buf + of_nat i)) 0 0 = Some (Ok (uint num, 0 + length (decimal num)))"
    using nth decimal_digits skip_atoi_digits [of "decimal num" "\<lambda>i. m' (buf + of_nat i)" 0 0] isdigit_0
    by (simp add: decimal_value)
  then show ?thesis using vsnprintf_decimal [of sz buf num m] sz by (simp add: skip_atoi_def m'_def)
qed

text \<open>\<^verbatim>\<open>%o\<close> prints what \<^verbatim>\<open>%x\<close> prints: \<^verbatim>\<open>divide\<close> knows the bases 10 and 16 only.\<close>

lemma print_digits_octal: "print_digits digits 8 num = print_digits digits 16 num"
proof (induction "unat num" arbitrary: num rule: less_induct)
  case less
  have "divide num 8 = divide num 16" by (simp add: divide_def)
  then show ?case using less divide_less [of num 16] by (simp add: print_digits.simps [of _ _ num])
qed

lemma print_number_octal: "print_number e num 8 s precision type o1 = print_number e num 16 s precision type o1"
  unfolding print_number_def print_digits_octal ..

end
