(* ===== verification/RT_DataQueue.thy ===== *)
theory RT_DataQueue
  imports RT_IPC RT_Contracts
begin

text \<open>
  \<^verbatim>\<open>src/components/drivers/src/completion.c\<close> and \<^verbatim>\<open>src/components/drivers/src/dataqueue.c\<close>: what device drivers use to wait
  for an interrupt and to pass buffers. The structure is an argument and a result beside the kernel state; \<open>i\<close>
  names its waiting lists. \<open>notify\<close> is the queue's \<^verbatim>\<open>evt_notify\<close>, driver code, \<open>None\<close> for \<^verbatim>\<open>RT_NULL\<close>.
\<close>

section \<open>Completions\<close>

abbreviation (input) RT_COMPLETED :: u32 where "RT_COMPLETED \<equiv> 1"
abbreviation (input) RT_UNCOMPLETED :: u32 where "RT_UNCOMPLETED \<equiv> 0"

definition rt_completion_init :: "nat \<Rightarrow> kstate \<Rightarrow> u32 \<times> kstate" where
  "rt_completion_init i s = (RT_UNCOMPLETED, upd_links (rt_list_init (Suspend_thread (Completion i))) s)"

text \<open>The steps from clearing the error number to the switch.\<close>

definition wait_on :: "node \<Rightarrow> thread_id \<Rightarrow> u32 \<Rightarrow> cont \<Rightarrow> kstate \<Rightarrow> ('a option \<times> kstate) res" where
  "wait_on h t timeout c s =
     (let s = upd_thread t (\<lambda>th. th\<lparr>th_error := RT_EOK\<rparr>) s;
          s = snd (rt_thread_suspend t s);
          s = upd_links (rt_list_insert_before h (Tlist t)) s
      in rbind (rassert (not_in_interrupt s) s) (\<lambda>s.
         rbind (wait_timer t timeout s) (\<lambda>s. block t c s)))"

definition rt_completion_wait :: "nat \<Rightarrow> u32 \<Rightarrow> u32 \<times> kstate \<Rightarrow> (int option \<times> u32 \<times> kstate) res" where
  "rt_completion_wait i timeout = (\<lambda>(flag, s).
     if flag \<noteq> RT_COMPLETED then
       rbind (rassert (rt_list_isempty (Suspend_thread (Completion i)) (links s)) s) (\<lambda>s.
       if timeout = 0 then Ok (Some (- RT_ETIMEOUT), flag, s)
       else
         (case rt_thread_self s of
            None \<Rightarrow> Fault Null_Pointer
          | Some t \<Rightarrow>
              rbind (wait_on (Suspend_thread (Completion i)) t timeout (C_completion_wait i) s) (\<lambda>(r, s). Ok (r, flag, s))))
     else Ok (Some RT_EOK, RT_UNCOMPLETED, s))"

definition rt_completion_wait_resume :: "thread_id \<Rightarrow> u32 \<times> kstate \<Rightarrow> (int option \<times> u32 \<times> kstate) res" where
  "rt_completion_wait_resume t = (\<lambda>(flag, s).
     Ok (Some (th_error (thread s t)), RT_UNCOMPLETED, s\<lparr>cont := (cont s)(t := None)\<rparr>))"

definition rt_completion_done :: "nat \<Rightarrow> u32 \<times> kstate \<Rightarrow> (u32 \<times> kstate) res" where
  "rt_completion_done i = (\<lambda>(flag, s).
     if flag = RT_COMPLETED then Ok (flag, s)
     else if \<not> rt_list_isempty (Suspend_thread (Completion i)) (links s) then
       rbind (thread_entry (lnext (links s) (Suspend_thread (Completion i)))) (\<lambda>t.
       (let s = snd (rt_thread_resume t s)
        in rbind (rt_schedule s) (\<lambda>s. Ok (RT_COMPLETED, s))))
     else Ok (RT_COMPLETED, s))"

section \<open>Data queues\<close>

record rt_data_queue =
  dq_size :: u16
  dq_lwm :: u16
  dq_get_index :: u16
  dq_put_index :: u16
  dq_queue :: "(u32 \<times> u32) list"

datatype dq_event = RT_DATAQUEUE_EVENT_POP | RT_DATAQUEUE_EVENT_PUSH | RT_DATAQUEUE_EVENT_LWM

type_synonym dq_state = "rt_data_queue \<times> kstate"
type_synonym dq_notify = "(dq_event \<Rightarrow> dq_state \<Rightarrow> dq_state res) option"

text \<open>\<open>malloc\<close> is what \<^verbatim>\<open>rt_malloc\<close> returned: no memory, or the uninitialised items.\<close>

definition rt_data_queue_init :: "(u32 \<times> u32) list option \<Rightarrow> nat \<Rightarrow> u16 \<Rightarrow> u16 \<Rightarrow> dq_state \<Rightarrow> int \<times> dq_state" where
  "rt_data_queue_init malloc i sz lwm = (\<lambda>(q, s).
     let q = q\<lparr>dq_size := sz, dq_lwm := lwm, dq_get_index := 0, dq_put_index := 0\<rparr>;
         s = upd_links (rt_list_init (Suspend_thread (Data_push i))) s;
         s = upd_links (rt_list_init (Suspend_thread (Data_pop i))) s
     in case malloc of
          None \<Rightarrow> (- RT_ENOMEM, q\<lparr>dq_queue := []\<rparr>, s)
        | Some items \<Rightarrow> (RT_EOK, q\<lparr>dq_queue := items\<rparr>, s))"

definition dq_notified :: "dq_notify \<Rightarrow> dq_event \<Rightarrow> dq_state \<Rightarrow> dq_state res" where
  "dq_notified notify ev x = (case notify of None \<Rightarrow> Ok x | Some f \<Rightarrow> f ev x)"

text \<open>The indices are 16-bit integers; the difference of two of them is an \<^verbatim>\<open>int\<close>.\<close>

definition dq_full :: "rt_data_queue \<Rightarrow> bool" where
  "dq_full q \<longleftrightarrow> uint (dq_put_index q) - uint (dq_get_index q) = uint (dq_size q)"

definition dq_slot :: "u16 \<Rightarrow> rt_data_queue \<Rightarrow> nat res" where
  "dq_slot k q =
     (if dq_size q = 0 \<or> length (dq_queue q) \<le> unat k mod unat (dq_size q) then Fault Out_Of_Range
      else Ok (unat k mod unat (dq_size q)))"

definition dq_wake :: "node \<Rightarrow> kstate \<Rightarrow> kstate res" where
  "dq_wake h s =
     rbind (thread_entry (lnext (links s) h)) (\<lambda>t. rt_schedule (snd (rt_thread_resume t s)))"

definition data_push_loop ::
    "dq_notify \<Rightarrow> nat \<Rightarrow> u32 \<Rightarrow> u32 \<Rightarrow> u32 \<Rightarrow> thread_id option \<Rightarrow> dq_state \<Rightarrow> (int option \<times> dq_state) res" where
  "data_push_loop notify i data_ptr data_size timeout self = (\<lambda>(q, s).
     if dq_full q then
       (if timeout = 0 then Ok (Some (- RT_ETIMEOUT), q, s)
        else
          rbind (rassert (not_in_interrupt s) s) (\<lambda>s.
          case self of
            None \<Rightarrow> Fault Null_Pointer
          | Some t \<Rightarrow>
              rbind (wait_on (Suspend_thread (Data_push i)) t timeout (C_data_push i data_ptr data_size timeout) s) (\<lambda>(r, s).
              Ok (r, q, s))))
     else
       rbind (dq_slot (dq_put_index q) q) (\<lambda>k.
       (let q = q\<lparr>dq_queue := (dq_queue q)[k := (data_ptr, data_size)]\<rparr>;
            q = q\<lparr>dq_put_index := dq_put_index q + 1\<rparr>
        in if \<not> rt_list_isempty (Suspend_thread (Data_pop i)) (links s)
           then rbind (dq_wake (Suspend_thread (Data_pop i)) s) (\<lambda>s. Ok (Some RT_EOK, q, s))
           else rbind (dq_notified notify RT_DATAQUEUE_EVENT_PUSH (q, s)) (\<lambda>x. Ok (Some RT_EOK, x)))))"

definition rt_data_queue_push ::
    "dq_notify \<Rightarrow> nat \<Rightarrow> u32 \<Rightarrow> u32 \<Rightarrow> u32 \<Rightarrow> dq_state \<Rightarrow> (int option \<times> dq_state) res" where
  "rt_data_queue_push notify i data_ptr data_size timeout x =
     data_push_loop notify i data_ptr data_size timeout (rt_thread_self (snd x)) x"

definition rt_data_queue_push_resume ::
    "dq_notify \<Rightarrow> thread_id \<Rightarrow> nat \<Rightarrow> u32 \<Rightarrow> u32 \<Rightarrow> u32 \<Rightarrow> dq_state \<Rightarrow> (int option \<times> dq_state) res" where
  "rt_data_queue_push_resume notify t i data_ptr data_size timeout = (\<lambda>(q, s).
     let s = s\<lparr>cont := (cont s)(t := None)\<rparr>
     in if th_error (thread s t) \<noteq> RT_EOK then Ok (Some (th_error (thread s t)), q, s)
        else data_push_loop notify i data_ptr data_size timeout (Some t) (q, s))"

text \<open>The result of a pop has the item when there is one.\<close>

definition data_pop_loop ::
    "dq_notify \<Rightarrow> nat \<Rightarrow> u32 \<Rightarrow> thread_id option \<Rightarrow> dq_state \<Rightarrow> ((int \<times> (u32 \<times> u32) option) option \<times> dq_state) res" where
  "data_pop_loop notify i timeout self = (\<lambda>(q, s).
     if dq_get_index q = dq_put_index q then
       (if timeout = 0 then Ok (Some (- RT_ETIMEOUT, None), q, s)
        else
          rbind (rassert (not_in_interrupt s) s) (\<lambda>s.
          case self of
            None \<Rightarrow> Fault Null_Pointer
          | Some t \<Rightarrow>
              rbind (wait_on (Suspend_thread (Data_pop i)) t timeout (C_data_pop i timeout) s) (\<lambda>(r, s). Ok (r, q, s))))
     else
       rbind (dq_slot (dq_get_index q) q) (\<lambda>k.
       (let item = dq_queue q ! k;
            q = q\<lparr>dq_get_index := dq_get_index q + 1\<rparr>
        in if uint (dq_put_index q) - uint (dq_get_index q) \<le> uint (dq_lwm q)
           then
             rbind (if \<not> rt_list_isempty (Suspend_thread (Data_push i)) (links s)
                    then dq_wake (Suspend_thread (Data_push i)) s else Ok s) (\<lambda>s.
             rbind (dq_notified notify RT_DATAQUEUE_EVENT_LWM (q, s)) (\<lambda>x. Ok (Some (RT_EOK, Some item), x)))
           else rbind (dq_notified notify RT_DATAQUEUE_EVENT_POP (q, s)) (\<lambda>x. Ok (Some (RT_EOK, Some item), x)))))"

definition rt_data_queue_pop ::
    "dq_notify \<Rightarrow> nat \<Rightarrow> u32 \<Rightarrow> dq_state \<Rightarrow> ((int \<times> (u32 \<times> u32) option) option \<times> dq_state) res" where
  "rt_data_queue_pop notify i timeout x = data_pop_loop notify i timeout (rt_thread_self (snd x)) x"

definition rt_data_queue_pop_resume ::
    "dq_notify \<Rightarrow> thread_id \<Rightarrow> nat \<Rightarrow> u32 \<Rightarrow> dq_state \<Rightarrow> ((int \<times> (u32 \<times> u32) option) option \<times> dq_state) res" where
  "rt_data_queue_pop_resume notify t i timeout = (\<lambda>(q, s).
     let s = s\<lparr>cont := (cont s)(t := None)\<rparr>
     in if th_error (thread s t) \<noteq> RT_EOK then Ok (Some (th_error (thread s t), None), q, s)
        else data_pop_loop notify i timeout (Some t) (q, s))"

definition rt_data_queue_peak :: "rt_data_queue \<Rightarrow> (int \<times> (u32 \<times> u32) option) res" where
  "rt_data_queue_peak q =
     (if dq_get_index q = dq_put_index q then Ok (- RT_EEMPTY, None)
      else rbind (dq_slot (dq_get_index q) q) (\<lambda>k. Ok (RT_EOK, Some (dq_queue q ! k))))"

text \<open>Both loops of \<^verbatim>\<open>rt_data_queue_reset\<close> are the one of \<^verbatim>\<open>rt_ipc_list_resume_all\<close>.\<close>

definition rt_data_queue_reset :: "nat \<Rightarrow> kstate \<Rightarrow> kstate res" where
  "rt_data_queue_reset i s =
     rbind (rt_ipc_list_resume_all (Suspend_thread (Data_pop i)) (rt_enter_critical s)) (\<lambda>s.
     rbind (rt_ipc_list_resume_all (Suspend_thread (Data_push i)) s) (\<lambda>s.
     rbind (rt_exit_critical s) rt_schedule))"

section \<open>Waiting\<close>

lemma schedule_thread: "rt_schedule s = Ok s' \<Longrightarrow> thread s' = thread s"
  by (auto simp: rt_schedule_def rt_scheduler_stack_check_def Let_def split: if_splits option.splits)

lemma suspend_error: "th_error (thread (snd (rt_thread_suspend t s)) u) = th_error (thread s u)"
  by (auto simp: rt_thread_suspend_def rt_schedule_remove_thread_def rt_timer_stop_def rt_timer_remove_def Let_def)

lemma wait_on_ok:
  assumes inv: "kinv s F" and cb: "can_block s t" and h: "wait_head h" and ws: "waiters F h ws" and time: "timeout \<noteq> 0x7fffffff"
  shows "\<exists>s' F'. wait_on h t timeout c s = Ok (None, s') \<and> blocked_on s F t h (ws @ [t]) timeout c s' F' \<and>
    th_error (thread s' t) = RT_EOK"
proof -
  define s0 where "s0 = upd_thread t (\<lambda>th. th\<lparr>th_error := RT_EOK\<rparr>) s"
  have inv0: "kinv s0 F" and cb0: "can_block s0 t" using kinv_error [OF inv] can_block_error [OF cb] by (simp_all add: s0_def)
  then have r0: "ready s0 t" by (simp add: can_block_def)
  define s1 where "s1 = upd_links (rt_list_insert_before h (Tlist t)) (snd (rt_thread_suspend t s0))"
  have s1: "kinv s1 ((drop_thread t F)(h := map Tlist (ws @ [t])))" "suspended s1 t"
    by (rule ipc_list_suspend_ok [OF inv0 r0 h ws, of RT_IPC_FLAG_FIFO],
        simp_all add: rt_ipc_list_suspend_def case_prod_beta s1_def enqueue_def)+
  have eq1: "s1 = (snd (rt_thread_suspend t s0))\<lparr>links := links s1\<rparr>" by (simp add: s1_def)
  obtain s' F' where b: "rbind (wait_timer t timeout s1) (\<lambda>s. block t c s) = Ok (None :: 'a option, s')"
      "blocked_on s0 F t h (ws @ [t]) timeout c s' F'"
    using wait_block_blocked [OF inv0 cb0 h time s1(2,1) eq1, of c] by blast
  have "not_in_interrupt s1"
    using ipc_frame_suspend [of s0 t] cb0 by (simp add: s1_def not_in_interrupt_def ipc_frame_def can_block_def)
  then have w: "wait_on h t timeout c s = Ok (None :: 'a option, s')"
    using b(1) unfolding wait_on_def Let_def s0_def [symmetric] s1_def [symmetric] by simp
  have "detached F (Row (Thread_timer t) 0)" using kinv_ready_timer_off [OF inv0, of t] r0 by simp
  then have off: "detached ((drop_thread t F)(h := map Tlist (ws @ [t]))) (Row (Thread_timer t) 0)" by (auto dest: drop_subset)
  obtain s2 where s2: "wait_timer t timeout s1 = Ok s2" "thread s2 = thread s1" by (rule wait_timer_ok [OF s1(1,2) time off]) blast
  have "thread s' = thread s2" using b(1) s2(1) schedule_thread by (auto simp: block_def)
  then have "th_error (thread s' t) = RT_EOK" using s2(2) by (simp add: s1_def s0_def suspend_error)
  then show ?thesis using w b(2) blocked_on_error unfolding s0_def by blast
qed

lemma dq_wake_woken:
  assumes "kinv s F" "kgood s" "wait_head h" "waiters F h (t # ws)"
  shows "\<exists>s' F'. dq_wake h s = Ok s' \<and> woken s F t h ws s' F'"
proof -
  have "rt_ipc_list_resume h s = rbind (thread_entry (lnext (links s) h)) (\<lambda>t. Ok (snd (rt_thread_resume t s)))"
    by (simp add: rt_ipc_list_resume_def case_prod_beta)
  then show ?thesis using ipc_wake_woken [OF assms] by (auto simp: dq_wake_def)
qed

section \<open>What a completion promises\<close>

lemma completion_done_eq:
  "rt_completion_done i (flag, s) =
     (if flag = RT_COMPLETED then Ok (flag, s)
      else if \<not> rt_list_isempty (Suspend_thread (Completion i)) (links s)
      then rbind (dq_wake (Suspend_thread (Completion i)) s) (\<lambda>s. Ok (RT_COMPLETED, s))
      else Ok (RT_COMPLETED, s))"
  by (simp add: rt_completion_done_def dq_wake_def Let_def rbind_assoc)

lemma waiters_isempty:
  assumes "kinv s F" "wait_head h" "waiters F h ws"
  shows "rt_list_isempty h (links s) \<longleftrightarrow> ws = []"
  using lists_wf_isempty [OF kinv_wf [OF assms(1)], of h] assms(2,3) wait_head_is_head by simp

lemma completion_wait_done:
  assumes inv: "kinv s F" and cb: "can_block s t" and ws: "waiters F (Suspend_thread (Completion i)) []"
    and time: "timeout \<noteq> 0" "timeout \<noteq> 0x7fffffff" and flag: "flag \<noteq> RT_COMPLETED"
  shows "\<exists>s1 F1 s2. rt_completion_wait i timeout (flag, s) = Ok (None, flag, s1) \<and>
    blocked_on s F t (Suspend_thread (Completion i)) [t] timeout (C_completion_wait i) s1 F1 \<and>
    rt_completion_done i (flag, s1) = Ok (RT_COMPLETED, s2) \<and> ready s2 t \<and>
    (\<exists>F2. kinv s2 F2 \<and> waiters F2 (Suspend_thread (Completion i)) []) \<and>
    (\<exists>s3. rt_completion_wait_resume t (RT_COMPLETED, s2) = Ok (Some RT_EOK, RT_UNCOMPLETED, s3))"
proof -
  let ?h = "Suspend_thread (Completion i)"
  obtain s1 F1 where s1: "wait_on ?h t timeout (C_completion_wait i) s = Ok (None :: int option, s1)"
      "blocked_on s F t ?h [t] timeout (C_completion_wait i) s1 F1" "th_error (thread s1 t) = RT_EOK"
    using wait_on_ok [OF inv cb wait_head_simps(1) ws time(2)] by fastforce
  have self: "rt_thread_self s = Some t" using cb by (simp add: can_block_def rt_thread_self_def)
  have "rt_list_isempty ?h (links s)" using waiters_isempty [OF inv _ ws] by simp
  then have w: "rt_completion_wait i timeout (flag, s) = Ok (None, flag, s1)"
    using s1(1) self flag time(1) by (simp add: rt_completion_wait_def)
  have k1: "kinv s1 F1" "kgood s1" "waiters F1 ?h [t]" using s1(2) by (simp_all add: blocked_on_def)
  obtain s2 F2 where s2: "dq_wake ?h s1 = Ok s2" "woken s1 F1 t ?h [] s2 F2" using dq_wake_woken [OF k1(1,2) _ k1(3)] by auto
  have "rt_completion_done i (flag, s1) = Ok (RT_COMPLETED, s2)"
    using s2(1) waiters_isempty [OF k1(1) _ k1(3)] flag by (simp add: completion_done_eq)
  moreover have "ready s2 t" "kinv s2 F2" "waiters F2 ?h []" "th_error (thread s2 t) = RT_EOK"
    using s2(2) s1(3) by (simp_all add: woken_def)
  ultimately show ?thesis using w s1(2) by (auto simp: rt_completion_wait_resume_def)
qed

text \<open>A completion that comes first is kept for the next wait, once.\<close>

lemma completion_done_wait:
  assumes inv: "kinv s F" and ws: "waiters F (Suspend_thread (Completion i)) []"
  shows "rt_completion_done i (flag, s) = Ok (RT_COMPLETED, s)"
    and "rt_completion_wait i timeout (RT_COMPLETED, s) = Ok (Some RT_EOK, RT_UNCOMPLETED, s)"
  using waiters_isempty [OF inv _ ws] by (simp_all add: completion_done_eq rt_completion_wait_def)

section \<open>What a data queue promises\<close>

abbreviation dq_n :: "rt_data_queue \<Rightarrow> nat" where "dq_n q \<equiv> unat (dq_size q)"
abbreviation dq_g :: "rt_data_queue \<Rightarrow> nat" where "dq_g q \<equiv> unat (dq_get_index q)"
abbreviation dq_p :: "rt_data_queue \<Rightarrow> nat" where "dq_p q \<equiv> unat (dq_put_index q)"

text \<open>As long as the put index has not passed the get index around the end of its 16 bits.\<close>

definition dq_wf :: "rt_data_queue \<Rightarrow> bool" where
  "dq_wf q \<longleftrightarrow> 0 < dq_n q \<and> length (dq_queue q) = dq_n q \<and> dq_g q \<le> dq_p q \<and> dq_p q - dq_g q \<le> dq_n q"

definition dq_items :: "rt_data_queue \<Rightarrow> (u32 \<times> u32) list" where
  "dq_items q = ring (dq_queue q) (dq_g q mod dq_n q) (dq_p q - dq_g q)"

lemma dq_tests:
  assumes "dq_wf q"
  shows "dq_full q \<longleftrightarrow> length (dq_items q) = dq_n q" "dq_get_index q = dq_put_index q \<longleftrightarrow> dq_items q = []"
    "length (dq_items q) \<le> dq_n q" "dq_slot k q = Ok (unat k mod dq_n q)"
proof -
  have "int (dq_p q - dq_g q) = int (dq_p q) - int (dq_g q)" using assms by (simp add: dq_wf_def of_nat_diff)
  then show "dq_full q \<longleftrightarrow> length (dq_items q) = dq_n q"
    unfolding dq_full_def dq_items_def length_ring uint_nat by linarith
  show "dq_get_index q = dq_put_index q \<longleftrightarrow> dq_items q = []"
    using assms by (auto simp: dq_items_def dq_wf_def word_unat_eq_iff simp flip: length_0_conv)
  show "length (dq_items q) \<le> dq_n q" "dq_slot k q = Ok (unat k mod dq_n q)"
    using assms by (auto simp: dq_items_def dq_wf_def dq_slot_def not_le)
qed

lemma u16_succ:
  assumes "unat (k :: u16) + 1 < 2 ^ 16"
  shows "unat (k + 1) = unat k + 1"
  using assms by (simp add: unat_word_ariths)

lemma dq_put_items:
  assumes wf: "dq_wf q" and room: "\<not> dq_full q" and p: "dq_p q + 1 < 2 ^ 16"
    and q': "q' = q\<lparr>dq_queue := (dq_queue q)[dq_p q mod dq_n q := v], dq_put_index := dq_put_index q + 1\<rparr>"
  shows "dq_wf q'" "dq_items q' = dq_items q @ [v]"
proof -
  define k where "k = dq_p q - dq_g q"
  have u: "unat (dq_put_index q + 1) = dq_p q + 1" using p by (rule u16_succ)
  have k: "k < dq_n q" "dq_g q \<le> dq_p q" "length (dq_queue q) = dq_n q" "0 < dq_n q"
    using wf dq_tests(1,3) [OF wf] room by (auto simp: dq_wf_def k_def dq_items_def)
  then show "dq_wf q'" using u by (auto simp: q' dq_wf_def k_def)
  have "dq_p q = dq_g q + k" using k(2) by (simp add: k_def)
  then have "dq_p q mod dq_n q = (dq_g q mod dq_n q + k) mod dq_n q" by (metis mod_add_left_eq)
  moreover have "dq_p q + 1 - dq_g q = Suc k" using k(2) by (simp add: k_def)
  ultimately show "dq_items q' = dq_items q @ [v]"
    using ring_put [of "dq_g q mod dq_n q" "dq_queue q" k v] k u by (simp add: q' dq_items_def k_def [symmetric])
qed

lemma dq_get_items:
  assumes wf: "dq_wf q" and ne: "dq_items q \<noteq> []" and q': "q' = q\<lparr>dq_get_index := dq_get_index q + 1\<rparr>"
  shows "dq_wf q'" "dq_items q = dq_queue q ! (dq_g q mod dq_n q) # dq_items q'"
proof -
  define k where "k = dq_p q - dq_g q"
  have k: "0 < k" "dq_g q \<le> dq_p q" "length (dq_queue q) = dq_n q" "0 < dq_n q" "k \<le> dq_n q"
    using wf ne by (auto simp: dq_wf_def k_def dq_items_def simp flip: length_0_conv)
  have "dq_p q < 2 ^ 16" using unsigned_less [of "dq_put_index q"] by simp
  then have u: "unat (dq_get_index q + 1) = dq_g q + 1" using k by (intro u16_succ) (simp add: k_def)
  show "dq_wf q'" using k u by (auto simp: q' dq_wf_def k_def)
  have "dq_p q - (dq_g q + 1) = k - 1" by (simp add: k_def)
  then show "dq_items q = dq_queue q ! (dq_g q mod dq_n q) # dq_items q'"
    using ring_get [of k "dq_g q mod dq_n q" "dq_queue q"] k u by (simp add: q' dq_items_def k_def [symmetric] mod_Suc_eq)
qed

definition dq_ready :: "dq_state \<Rightarrow> bool" where
  "dq_ready x \<longleftrightarrow> dq_wf (fst x) \<and> (\<exists>F. kinv (snd x) F) \<and> kgood (snd x)"

lemma dq_wake_ready:
  assumes "\<exists>F. kinv s F" "kgood s"
  shows "\<exists>s'. (if \<not> rt_list_isempty (Suspend_thread r) (links s) then dq_wake (Suspend_thread r) s else Ok s) = Ok s' \<and>
    (\<exists>F. kinv s' F) \<and> kgood s'"
proof -
  obtain F where inv: "kinv s F" using assms(1) by blast
  obtain ws where ws: "waiters F (Suspend_thread r) ws" by (rule kinv_waiters [OF inv wait_head_simps(1)])
  show ?thesis
  proof (cases ws)
    case Nil
    then show ?thesis using waiters_isempty [OF inv _ ws] assms by simp
  next
    case (Cons t us)
    then show ?thesis
      using dq_wake_woken [OF inv assms(2) wait_head_simps(1)] ws waiters_isempty [OF inv _ ws] by (fastforce simp: woken_def)
  qed
qed

lemma dq_push_ok:
  assumes rdy: "dq_ready (q, s)" and room: "\<not> dq_full q" and p: "dq_p q + 1 < 2 ^ 16"
  shows "\<exists>q' s'. rt_data_queue_push None i (fst v) (snd v) timeout (q, s) = Ok (Some RT_EOK, q', s') \<and> dq_ready (q', s') \<and>
    dq_items q' = dq_items q @ [v] \<and> dq_size q' = dq_size q \<and> dq_p q' = dq_p q + 1"
proof -
  have wf: "dq_wf q" using rdy by (simp add: dq_ready_def)
  define q' where "q' = q\<lparr>dq_queue := (dq_queue q)[dq_p q mod dq_n q := v], dq_put_index := dq_put_index q + 1\<rparr>"
  note q = dq_put_items [OF wf room p q'_def]
  obtain s' where s': "(if \<not> rt_list_isempty (Suspend_thread (Data_pop i)) (links s) then dq_wake (Suspend_thread (Data_pop i)) s else Ok s) = Ok s'"
      "\<exists>F. kinv s' F" "kgood s'"
    using dq_wake_ready [of s] rdy by (auto simp: dq_ready_def)
  have "rt_data_queue_push None i (fst v) (snd v) timeout (q, s) = Ok (Some RT_EOK, q', s')"
    using s'(1) room dq_tests(4) [OF wf]
    by (auto simp: rt_data_queue_push_def data_push_loop_def dq_notified_def q'_def split: if_splits)
  then show ?thesis using q s' u16_succ [OF p] by (auto simp: dq_ready_def q'_def)
qed

lemma dq_pop_ok:
  assumes rdy: "dq_ready (q, s)" and items: "dq_items q = v # vs"
  shows "\<exists>q' s'. rt_data_queue_pop None i timeout (q, s) = Ok (Some (RT_EOK, Some v), q', s') \<and> dq_ready (q', s') \<and>
    dq_items q' = vs \<and> dq_size q' = dq_size q \<and> dq_p q' = dq_p q"
proof -
  have wf: "dq_wf q" using rdy by (simp add: dq_ready_def)
  define q' where "q' = q\<lparr>dq_get_index := dq_get_index q + 1\<rparr>"
  have "dq_items q \<noteq> []" using items by simp
  note q = dq_get_items [OF wf this q'_def] this
  have v: "dq_queue q ! (dq_g q mod dq_n q) = v" "dq_items q' = vs" using q(2) items by simp_all
  have ne: "dq_get_index q \<noteq> dq_put_index q" using dq_tests(2) [OF wf] q(3) by simp
  obtain s1 where s1: "(if \<not> rt_list_isempty (Suspend_thread (Data_push i)) (links s) then dq_wake (Suspend_thread (Data_push i)) s else Ok s) = Ok s1"
      "\<exists>F. kinv s1 F" "kgood s1"
    using dq_wake_ready [of s] rdy by (auto simp: dq_ready_def)
  define s' where "s' = (if uint (dq_put_index q') - uint (dq_get_index q') \<le> uint (dq_lwm q') then s1 else s)"
  have "rt_data_queue_pop None i timeout (q, s) = Ok (Some (RT_EOK, Some v), q', s')"
    using s1(1) ne dq_tests(4) [OF wf] v(1)
    by (simp add: rt_data_queue_pop_def data_pop_loop_def dq_notified_def q'_def [symmetric] Let_def s'_def)
  moreover have "dq_ready (q', s')" using q(1) s1 rdy by (auto simp: dq_ready_def s'_def)
  ultimately show ?thesis using v(2) by (auto simp: q'_def)
qed

definition dq_pushing :: "nat \<Rightarrow> u32 \<times> u32 \<Rightarrow> dq_state \<Rightarrow> dq_state option" where
  "dq_pushing i v x =
     (case rt_data_queue_push None i (fst v) (snd v) 0 x of Ok (Some r, x') \<Rightarrow> if r = RT_EOK then Some x' else None | _ \<Rightarrow> None)"

definition dq_popping :: "nat \<Rightarrow> dq_state \<Rightarrow> ((u32 \<times> u32) \<times> dq_state) option" where
  "dq_popping i x =
     (case rt_data_queue_pop None i 0 x of Ok (Some (r, Some v), x') \<Rightarrow> if r = RT_EOK then Some (v, x') else None | _ \<Rightarrow> None)"

lemma dq_refuses:
  "dq_full q \<Longrightarrow> dq_pushing i v (q, s) = None" "dq_wf q \<Longrightarrow> dq_items q = [] \<Longrightarrow> dq_popping i (q, s) = None"
  by (simp_all add: dq_pushing_def dq_popping_def rt_data_queue_push_def data_push_loop_def rt_data_queue_pop_def data_pop_loop_def
      dq_tests(2) [symmetric])

lemma data_queue_run:
  assumes "dq_ready (q, s)" "dq_p q + length (fifo_puts ops) < 2 ^ 16"
  shows "if fifo_fits (length (dq_items q)) (dq_n q) ops
    then \<exists>ys q' s'. service_run (dq_pushing i) (dq_popping i) ops (q, s) = Some (ys, q', s') \<and> dq_ready (q', s') \<and>
      dq_items q @ fifo_puts ops = ys @ dq_items q'
    else service_run (dq_pushing i) (dq_popping i) ops (q, s) = None"
  using assms
proof (induction ops arbitrary: q s)
  case (Cons op ops)
  have wf: "dq_wf q" using Cons.prems(1) by (simp add: dq_ready_def)
  show ?case
  proof (cases op)
    case (Put v)
    show ?thesis
    proof (cases "dq_full q")
      case True
      then show ?thesis using dq_refuses(1) dq_tests(1) [OF wf] Put by simp
    next
      case False
      have lt: "length (dq_items q) < dq_n q" using False dq_tests(1,3) [OF wf] by simp
      have p: "dq_p q + 1 < 2 ^ 16" using Cons.prems(2) Put by simp
      from dq_push_ok [OF Cons.prems(1) False p, of i v 0] obtain q1 s1 where
        1: "rt_data_queue_push None i (fst v) (snd v) 0 (q, s) = Ok (Some RT_EOK, q1, s1)" "dq_ready (q1, s1)"
          "dq_items q1 = dq_items q @ [v]" "dq_size q1 = dq_size q" "dq_p q1 = dq_p q + 1" by blast
      have "dq_pushing i v (q, s) = Some (q1, s1)" using 1(1) by (simp add: dq_pushing_def)
      then show ?thesis using Cons.IH [OF 1(2)] 1(3,4,5) Cons.prems(2) lt Put by (auto split: if_splits)
    qed
  next
    case Get
    show ?thesis
    proof (cases "dq_items q")
      case Nil
      then show ?thesis using dq_refuses(2) [OF wf] Get by simp
    next
      case (Cons v vs)
      from dq_pop_ok [OF Cons.prems(1) this, of i 0] obtain q1 s1 where
        1: "rt_data_queue_pop None i 0 (q, s) = Ok (Some (RT_EOK, Some v), q1, s1)" "dq_ready (q1, s1)" "dq_items q1 = vs"
          "dq_size q1 = dq_size q" "dq_p q1 = dq_p q" by blast
      have "dq_popping i (q, s) = Some (v, q1, s1)" using 1(1) by (simp add: dq_popping_def)
      then show ?thesis using Cons.IH [OF 1(2)] 1(3,4,5) Cons.prems(2) Get Cons by (auto split: if_splits)
    qed
  qed
qed simp

text \<open>
  Once the put index has wrapped and the get index has not, their difference as an \<^verbatim>\<open>int\<close> is negative and the
  queue never counts as full: the next push overwrites the oldest item.
\<close>

lemma dq_wrap_overwrites:
  assumes n: "0 < dq_n q" "dq_n q dvd 2 ^ 16" "length (dq_queue q) = dq_n q"
    and full: "dq_p q < dq_g q" "dq_p q + (2 ^ 16 - dq_g q) = dq_n q" and ws: "rt_list_isempty (Suspend_thread (Data_pop i)) (links s)"
  shows "rt_data_queue_push None i ptr len timeout (q, s) =
      Ok (Some RT_EOK, q\<lparr>dq_queue := (dq_queue q)[dq_g q mod dq_n q := (ptr, len)], dq_put_index := dq_put_index q + 1\<rparr>, s)"
proof -
  have g: "dq_g q < 2 ^ 16" using unsigned_less [of "dq_get_index q"] by simp
  have nf: "\<not> dq_full q" using full(1) unfolding dq_full_def uint_nat by linarith
  have "dq_p q + 2 ^ 16 = dq_n q + dq_g q" using full(2) g by linarith
  then have "(dq_p q + 2 ^ 16) mod dq_n q = dq_g q mod dq_n q" by simp
  moreover have "(dq_p q + 2 ^ 16) mod dq_n q = dq_p q mod dq_n q"
    using n(2) by (metis add.commute dvd_imp_mod_0 mod_add_left_eq add_0)
  ultimately have "dq_slot (dq_put_index q) q = Ok (dq_g q mod dq_n q)" using n by (auto simp: dq_slot_def not_le)
  then show ?thesis using nf ws by (simp add: rt_data_queue_push_def data_push_loop_def dq_notified_def)
qed

end
