(* ===== verification/RT_WorkQueue.thy ===== *)
theory RT_WorkQueue
  imports RT_Semaphore RT_DataQueue
begin

text \<open>
  \<^verbatim>\<open>src/components/drivers/src/workqueue.c\<close>: a thread that executes work items in the order they were handed in. The list
  of work items is a link store of its own; the kernel's semaphore \<open>j\<close> is the queue's \<^verbatim>\<open>sem\<close>. The thread
  can lose the processor wherever interrupts are enabled: \<open>wq_step\<close> runs from one such point to the
  next. \<open>work\<close> stands for the work functions, which are driver code.
\<close>

section \<open>Operations\<close>

datatype wnode = Work_list | Work nat

record rt_workqueue =
  wq_links :: "wnode links"
  wq_work_current :: "nat option"
  wq_work_thread :: thread_id

type_synonym wq_state = "rt_workqueue \<times> kstate"

abbreviation (input) RT_EBUSY :: int where "RT_EBUSY \<equiv> 7"

definition upd_work :: "(wnode links \<Rightarrow> wnode links) \<Rightarrow> rt_workqueue \<Rightarrow> rt_workqueue" where
  [simp]: "upd_work f w = w\<lparr>wq_links := f (wq_links w)\<rparr>"

fun work_entry :: "wnode \<Rightarrow> nat res" where
  "work_entry (Work k) = Ok k"
| "work_entry Work_list = Fault Bad_Entry"

partial_function (option) work_completion_loop :: "nat \<Rightarrow> kstate \<Rightarrow> (int \<times> kstate) res option" where
  "work_completion_loop j s =
     (case rt_sem_trytake j s of
        Fault e \<Rightarrow> Some (Fault e)
      | Ok (r, s) \<Rightarrow>
          if r = Some (- RT_ETIMEOUT) then
            (case rt_sem_release j s of Fault e \<Rightarrow> Some (Fault e) | Ok (r, s) \<Rightarrow> work_completion_loop j s)
          else if r = Some RT_EOK then Some (Ok (RT_EOK, s))
          else Some (Ok (- RT_ERROR, s)))"

definition workqueue_work_completion :: "nat \<Rightarrow> kstate \<Rightarrow> (int \<times> kstate) res" where
  "workqueue_work_completion j s =
     rbind (loop_res (work_completion_loop j (rt_enter_critical s))) (\<lambda>(r, s).
     rbind (rt_exit_critical s) (\<lambda>s. Ok (r, s)))"

text \<open>Where the thread is: before the test of the list, about to suspend itself, suspended and about to call the scheduler, about to take an item, about to
  call its function, about to clear the current item, about to acknowledge it.\<close>

datatype wq_pc = W_test | W_suspend | W_schedule | W_take | W_call nat | W_clear | W_ack

fun wq_step :: "(nat \<Rightarrow> wq_state \<Rightarrow> wq_state res) \<Rightarrow> nat \<Rightarrow> wq_pc \<Rightarrow> wq_state \<Rightarrow> (wq_pc \<times> wq_state) res" where
  "wq_step work j W_test (w, s) = Ok (if rt_list_isempty Work_list (wq_links w) then W_suspend else W_take, w, s)"
| "wq_step work j W_suspend (w, s) =
     (case rt_thread_self s of
        None \<Rightarrow> Fault Null_Pointer
      | Some t \<Rightarrow> Ok (W_schedule, w, snd (rt_thread_suspend t s)))"
| "wq_step work j W_schedule (w, s) = rbind (rt_schedule s) (\<lambda>s. Ok (W_take, w, s))"
| "wq_step work j W_take (w, s) =
     rbind (work_entry (lnext (wq_links w) Work_list)) (\<lambda>k.
     (let w = upd_work (rt_list_remove (Work k)) w
      in Ok (W_call k, w\<lparr>wq_work_current := Some k\<rparr>, s)))"
| "wq_step work j (W_call k) x = rbind (work k x) (\<lambda>x. Ok (W_clear, x))"
| "wq_step work j W_clear (w, s) = Ok (W_ack, w\<lparr>wq_work_current := None\<rparr>, s)"
| "wq_step work j W_ack (w, s) = rbind (workqueue_work_completion j s) (\<lambda>(r, s). Ok (W_test, w, s))"

text \<open>
  \<open>malloc\<close>, \<open>tmalloc\<close> and \<open>stack\<close> are the results of the three allocations, \<open>entry\<close> and \<open>parameter\<close> the addresses of
  \<^verbatim>\<open>_workqueue_thread_entry\<close> and of the queue.
\<close>

definition rt_workqueue_create ::
    "bool \<Rightarrow> u32 \<Rightarrow> thread_id option \<Rightarrow> u32 option \<Rightarrow> u32 \<Rightarrow> u32 \<Rightarrow> nat \<Rightarrow> cstr \<Rightarrow> u16 \<Rightarrow> u8 \<Rightarrow> wq_state \<Rightarrow> (bool \<times> wq_state) res" where
  "rt_workqueue_create malloc texit tmalloc stack entry parameter j name stack_size priority = (\<lambda>(w, s).
     if \<not> malloc then Ok (False, w, s)
     else
       (let w = upd_work (rt_list_init Work_list) w;
            w = w\<lparr>wq_work_current := None\<rparr>
        in rbind (rt_sem_init j (cstr_of [119, 113, 117, 101, 117, 101]) 0 RT_IPC_FLAG_FIFO s) (\<lambda>(r, s).
           rbind (rt_thread_create texit tmalloc stack name entry parameter (ucast stack_size) priority 10 s) (\<lambda>(t, s).
           case t of
             None \<Rightarrow> Ok (False, w, kernel_free (K_workqueue j) s)
           | Some t \<Rightarrow> rbind (rt_thread_startup t s) (\<lambda>(r, s). Ok (True, w\<lparr>wq_work_thread := t\<rparr>, s))))))"

definition rt_workqueue_destroy :: "nat \<Rightarrow> wq_state \<Rightarrow> int \<times> wq_state" where
  "rt_workqueue_destroy j = (\<lambda>(w, s).
     let (r, s) = rt_thread_delete (wq_work_thread w) s
     in (RT_EOK, w, kernel_free (K_workqueue j) s))"

definition rt_work_init :: "nat \<Rightarrow> rt_workqueue \<Rightarrow> rt_workqueue" where
  "rt_work_init k w = upd_work (rt_list_init (Work k)) w"

definition rt_workqueue_dowork :: "nat \<Rightarrow> wq_state \<Rightarrow> (int \<times> wq_state) res" where
  "rt_workqueue_dowork k = (\<lambda>(w, s).
     if wq_work_current w = Some k then Ok (- RT_EBUSY, w, s)
     else
       (let w = upd_work (rt_list_remove (Work k)) w;
            w = upd_work (rt_list_insert_after (lprev (wq_links w) Work_list) (Work k)) w
        in if wq_work_current w = None
           then rbind (rt_schedule (snd (rt_thread_resume (wq_work_thread w) s))) (\<lambda>s. Ok (RT_EOK, w, s))
           else Ok (RT_EOK, w, s)))"

definition rt_workqueue_critical_work :: "nat \<Rightarrow> wq_state \<Rightarrow> (int \<times> wq_state) res" where
  "rt_workqueue_critical_work k = (\<lambda>(w, s).
     if wq_work_current w = Some k then Ok (- RT_EBUSY, w, s)
     else
       (let w = upd_work (rt_list_remove (Work k)) w;
            w = upd_work (rt_list_insert_after (lprev (wq_links w) Work_list) (Work k)) w
        in if wq_work_current w = None
           then rbind (rt_schedule (snd (rt_thread_resume (wq_work_thread w) s))) (\<lambda>s. Ok (RT_EOK, w, s))
           else Ok (RT_EOK, w, s)))"

definition rt_workqueue_cancel_work :: "nat \<Rightarrow> rt_workqueue \<Rightarrow> int \<times> rt_workqueue" where
  "rt_workqueue_cancel_work k w =
     (if wq_work_current w = Some k then (- RT_EBUSY, w) else (RT_EOK, upd_work (rt_list_remove (Work k)) w))"

text \<open>\<open>None\<close>: the caller waits on the semaphore.\<close>

definition rt_workqueue_cancel_work_sync :: "nat \<Rightarrow> nat \<Rightarrow> wq_state \<Rightarrow> (int option \<times> wq_state) res" where
  "rt_workqueue_cancel_work_sync j k = (\<lambda>(w, s).
     if wq_work_current w = Some k
     then rbind (rt_sem_take j (- 1) s) (\<lambda>(r, s). Ok (map_option (\<lambda>_. RT_EOK) r, w, s))
     else Ok (Some RT_EOK, upd_work (rt_list_remove (Work k)) w, s))"

partial_function (option) cancel_all_loop :: "wnode \<Rightarrow> rt_workqueue \<Rightarrow> rt_workqueue option" where
  "cancel_all_loop n w =
     (if n = Work_list then Some w
      else cancel_all_loop (lnext (wq_links w) n) (upd_work (rt_list_remove n) w))"

definition rt_workqueue_cancel_all_work :: "wq_state \<Rightarrow> (int \<times> wq_state) res" where
  "rt_workqueue_cancel_all_work = (\<lambda>(w, s).
     (let s = rt_enter_critical s
      in rbind (loop_res (map_option Ok (cancel_all_loop (lnext (wq_links w) Work_list) w))) (\<lambda>w.
         rbind (rt_exit_critical s) (\<lambda>s. Ok (RT_EOK, w, s)))))"

section \<open>The list of work items\<close>

definition wq_works :: "rt_workqueue \<Rightarrow> nat list \<Rightarrow> bool" where
  "wq_works w ks \<longleftrightarrow> lists_wf {Work_list} (wq_links w) ((\<lambda>_. [])(Work_list := map Work ks))"

lemma wq_works_isempty: "wq_works w ks \<Longrightarrow> rt_list_isempty Work_list (wq_links w) \<longleftrightarrow> ks = []"
  using lists_wf_isempty [of "{Work_list}" "wq_links w" _ Work_list] by (auto simp: wq_works_def)

lemma wq_works_first:
  assumes "wq_works w ks"
  shows "lnext (wq_links w) Work_list = hd (map Work ks @ [Work_list])" "lprev (wq_links w) Work_list = last (Work_list # map Work ks)"
  using lists_wf_next [of "{Work_list}" "wq_links w" _ Work_list "[]" "map Work ks"]
    lists_wf_prev [of "{Work_list}" "wq_links w" _ Work_list "map Work ks" "[]"] assms by (simp_all add: wq_works_def)

lemma remove1_map: "inj f \<Longrightarrow> remove1 (f k) (map f ks) = map f (remove1 k ks)"
  by (induction ks) (auto simp: inj_eq)

lemma wq_works_remove:
  assumes "wq_works w ks"
  shows "wq_works (upd_work (rt_list_remove (Work k)) w) (remove1 k ks)"
proof -
  have eq: "(\<lambda>h. remove1 (Work k) (((\<lambda>_. [])(Work_list := map Work ks)) h)) = (\<lambda>_. [])(Work_list := map Work (remove1 k ks))"
    using remove1_map [of Work k ks] by (auto simp: fun_eq_iff inj_def)
  have "lists_wf {Work_list} (rt_list_remove (Work k) (wq_links w)) (\<lambda>h. remove1 (Work k) (((\<lambda>_. [])(Work_list := map Work ks)) h))"
    by (rule lists_wf_remove [OF assms [unfolded wq_works_def]]) simp
  then show ?thesis unfolding eq by (simp add: wq_works_def)
qed

lemma wq_works_append:
  assumes "wq_works w ks" "k \<notin> set ks"
  shows "wq_works (upd_work (rt_list_insert_after (lprev (wq_links w) Work_list) (Work k)) w) (ks @ [k])"
proof -
  have "Work k \<notin> Work ` set ks" using assms(2) by blast
  then show ?thesis
    using lists_wf_insert_gap(1) [of "{Work_list}" "wq_links w" "(\<lambda>_. [])(Work_list := map Work ks)" Work_list "Work k" "map Work ks" "[]"]
      wq_works_first(2) [OF assms(1)] assms(1) by (simp add: wq_works_def)
qed

lemma wq_works_distinct: "wq_works w ks \<Longrightarrow> distinct ks"
  using lists_wf_distinct [of "{Work_list}" "wq_links w" _ Work_list] by (fastforce simp: wq_works_def distinct_map)

lemma wq_works_requeue:
  fixes k
  assumes "wq_works w ks"
  defines "w1 \<equiv> upd_work (rt_list_remove (Work k)) w"
  shows "wq_works (upd_work (rt_list_insert_after (lprev (wq_links w1) Work_list) (Work k)) w1) (remove1 k ks @ [k])"
  using wq_works_append [OF wq_works_remove [OF assms(1)], of k k] wq_works_distinct [OF assms(1)] by (simp add: w1_def)

section \<open>What a work queue promises\<close>

text \<open>Handing in an item puts it last and wakes the thread when it waits for work.\<close>

lemma dowork_ok:
  assumes ks: "wq_works w ks" and cur: "wq_work_current w = None" and inv: "kinv s F" and good: "kgood s"
    and sus: "suspended s (wq_work_thread w)"
  shows "\<exists>w' s' F'. rt_workqueue_dowork k (w, s) = Ok (RT_EOK, w', s') \<and> wq_works w' (remove1 k ks @ [k]) \<and>
    wq_work_current w' = None \<and> kinv s' F' \<and> kgood s' \<and> ready s' (wq_work_thread w)"
proof -
  let ?t = "wq_work_thread w"
  define s1 where "s1 = snd (rt_thread_resume ?t s)"
  have 1: "kinv s1 (make_ready s ?t F)" "kgood s1" "ready s1 ?t"
    using kinv_thread_resume(1) [OF inv sus] kgood_resume [OF good sus] resume_ready [OF sus] by (simp_all add: s1_def)
  obtain s' where s': "rt_schedule s1 = Ok s'" "kinv s' (make_ready s ?t F)" "rt_current_thread s' \<noteq> None"
      "s' = s1\<lparr>rt_current_priority := rt_current_priority s', rt_current_thread := rt_current_thread s'\<rparr>"
    by (rule schedule_total [OF 1]) blast
  define w1 where "w1 = upd_work (rt_list_remove (Work k)) w"
  define w' where "w' = upd_work (rt_list_insert_after (lprev (wq_links w1) Work_list) (Work k)) w1"
  have "rt_workqueue_dowork k (w, s) = Ok (RT_EOK, w', s')"
    using s'(1) cur unfolding rt_workqueue_dowork_def Let_def prod.case w1_def [symmetric] w'_def [symmetric]
    by (simp add: w'_def w1_def s1_def)
  moreover have "wq_works w' (remove1 k ks @ [k])" unfolding w'_def w1_def by (rule wq_works_requeue [OF ks])
  moreover have "kgood s'" by (rule kgood_schedule [OF 1(2) s'(3,4)])
  moreover have "ready s' ?t" using 1(3) schedule_thread [OF s'(1)] by simp
  ultimately show ?thesis using s'(2) cur by (auto simp: w'_def w1_def)
qed

text \<open>While an item is executed, handing in another one only queues it.\<close>

lemma dowork_busy:
  assumes "wq_works w ks" "wq_work_current w = Some c" "c \<noteq> k"
  shows "\<exists>w'. rt_workqueue_dowork k (w, s) = Ok (RT_EOK, w', s) \<and> wq_works w' (remove1 k ks @ [k]) \<and> wq_work_current w' = Some c"
  using wq_works_requeue [OF assms(1), of k] assms(2,3) by (simp add: rt_workqueue_dowork_def Let_def)

lemma wq_take_first:
  assumes "wq_works w (k # ks)"
  shows "\<exists>w'. wq_step work j W_take (w, s) = Ok (W_call k, w', s) \<and> wq_works w' ks \<and> wq_work_current w' = Some k"
  using wq_works_first(1) [OF assms] wq_works_remove [OF assms, of k] by (simp add: wq_works_def)

lemma wq_take_empty: "wq_works w [] \<Longrightarrow> wq_step work j W_take (w, s) = Fault Bad_Entry"
  using wq_works_first(1) [of w "[]"] by simp

text \<open>
  The test of the list and the suspension are two steps with interrupts enabled: an item that is handed in
  between them finds a thread that is not suspended, and the thread then suspends itself beside the item.
\<close>

lemma wq_lost_wakeup:
  assumes w: "wq_works w []" "wq_work_current w = None" "wq_work_thread w = t"
    and inv: "kinv s F" and cb: "can_block s t" and nt: "next_thread F t p"
  shows "wq_step work j W_test (w, s) = Ok (W_suspend, w, s)"
    and "\<exists>w' s1 s'. rt_workqueue_dowork k (w, s) = Ok (RT_EOK, w', s) \<and> wq_works w' [k] \<and>
      wq_step work j W_suspend (w', s) = Ok (W_schedule, w', s1) \<and>
      wq_step work j W_schedule (w', s1) = Ok (W_take, w', s') \<and> suspended s' t"
proof -
  show "wq_step work j W_test (w, s) = Ok (W_suspend, w, s)" using wq_works_isempty [OF w(1)] by simp
  have b: "kgood s" "rt_current_thread s = Some t" "ready s t" "rt_scheduler_lock_nest s = 0" using cb by (simp_all add: can_block_def)
  have sch: "rt_schedule s = Ok s" using rt_schedule_switches [OF kinv_queue [OF inv] b(4,2) nt] by simp
  have "rt_thread_resume t s = (- RT_ERROR, s)" using b(3) by (simp add: rt_thread_resume_def)
  then obtain w' where w': "rt_workqueue_dowork k (w, s) = Ok (RT_EOK, w', s)" "wq_works w' [k]"
    using wq_works_requeue [OF w(1), of k] w(2,3) sch by (simp add: rt_workqueue_dowork_def Let_def)
  define s1 where "s1 = snd (rt_thread_suspend t s)"
  have s1: "kinv s1 (drop_thread t F)" "suspended s1 t" "kgood s1"
    using kinv_thread_suspend(1,2) [OF inv b(3)] kgood_suspend [OF b(1,3)] by (simp_all add: s1_def)
  obtain u where u: "u \<noteq> t" "ready s u" using cb by (auto simp: can_block_def)
  then have "ready s1 u" using suspend_frame(5) [OF u(1), of s] by (simp add: s1_def)
  then obtain s' where s': "rt_schedule s1 = Ok s'" by (rule schedule_total [OF s1(1,3)]) blast
  have "suspended s' t" using s1(2) schedule_thread [OF s'] by simp
  then show "\<exists>w' s1 s'. rt_workqueue_dowork k (w, s) = Ok (RT_EOK, w', s) \<and> wq_works w' [k] \<and>
      wq_step work j W_suspend (w', s) = Ok (W_schedule, w', s1) \<and>
      wq_step work j W_schedule (w', s1) = Ok (W_take, w', s') \<and> suspended s' t"
    using w' s' b(2) by (auto simp: rt_thread_self_def s1_def)
qed

text \<open>
  The thread does not test the list again after it was resumed: an item that is handed in and cancelled before
  the thread runs leaves it taking the head of the list for an item.
\<close>

lemma wq_cancel_before_run:
  assumes w: "wq_works w []" "wq_work_current w = None" and inv: "kinv s F" and good: "kgood s"
    and sus: "suspended s (wq_work_thread w)"
  shows "\<exists>w1 s1 w2. rt_workqueue_dowork k (w, s) = Ok (RT_EOK, w1, s1) \<and> ready s1 (wq_work_thread w) \<and>
    rt_workqueue_cancel_work k w1 = (RT_EOK, w2) \<and> wq_step work j W_take (w2, s1) = Fault Bad_Entry"
proof -
  obtain w1 s1 where 1: "rt_workqueue_dowork k (w, s) = Ok (RT_EOK, w1, s1)" "wq_works w1 [k]" "wq_work_current w1 = None"
      "ready s1 (wq_work_thread w)"
    using dowork_ok [OF w inv good sus, of k] by auto
  define w2 where "w2 = upd_work (rt_list_remove (Work k)) w1"
  have "wq_works w2 []" using wq_works_remove [OF 1(2), of k] by (simp add: w2_def)
  then have "wq_step work j W_take (w2, s1) = Fault Bad_Entry" by (rule wq_take_empty)
  moreover have "rt_workqueue_cancel_work k w1 = (RT_EOK, w2)" using 1(3) by (simp add: rt_workqueue_cancel_work_def w2_def)
  ultimately show ?thesis using 1 by blast
qed

text \<open>The acknowledgement wakes every caller that waits for the item, and leaves the semaphore at 0.\<close>

lemma work_completion_loop_ok:
  assumes "kinv s F" "kgood s" "waiters F (Suspend_thread (Sem j)) ws" "sem_value (sem s j) = 0"
  shows "\<exists>s' F'. work_completion_loop j s = Some (Ok (RT_EOK, s')) \<and> kinv s' F' \<and> kgood s' \<and>
    F' (Suspend_thread (Sem j)) = [] \<and> (\<forall>t \<in> set ws. ready s' t) \<and> (\<forall>t. ready s t \<longrightarrow> ready s' t) \<and>
    sem s' = sem s \<and> rt_scheduler_lock_nest s' = rt_scheduler_lock_nest s"
  using assms
proof (induction ws arbitrary: s F)
  case Nil
  have tk: "rt_sem_trytake j s = Ok (Some (- RT_ETIMEOUT), s)" using Nil.prems(4) by (simp add: rt_sem_trytake_def rt_sem_take_def)
  define s1 where "s1 = upd_sem j (\<lambda>sm. sm\<lparr>sem_value := sem_value sm + 1\<rparr>) s"
  have rl: "rt_sem_release j s = Ok (RT_EOK, s1)" using sem_release_free [OF Nil.prems(1)] Nil.prems(3) by (simp add: s1_def)
  have "sem s j\<lparr>sem_value := 0\<rparr> = sem s j" using Nil.prems(4) by (cases "sem s j") simp
  then have same: "s\<lparr>sem := (sem s)(j := sem s j\<lparr>sem_value := 0\<rparr>)\<rparr> = s" by simp
  have "rt_sem_trytake j s1 = Ok (Some RT_EOK, s)"
    using Nil.prems(4) same by (simp add: rt_sem_trytake_def rt_sem_take_def s1_def)
  then have "work_completion_loop j s1 = Some (Ok (RT_EOK, s))" by (subst work_completion_loop.simps) simp
  then have "work_completion_loop j s = Some (Ok (RT_EOK, s))"
    using tk rl by (subst work_completion_loop.simps) simp
  then show ?case using Nil.prems by auto
next
  case (Cons t ws)
  have tk: "rt_sem_trytake j s = Ok (Some (- RT_ETIMEOUT), s)" using Cons.prems(4) by (simp add: rt_sem_trytake_def rt_sem_take_def)
  obtain s1 F1 where rl: "rt_sem_release j s = Ok (RT_EOK, s1)" and wk: "woken s F t (Suspend_thread (Sem j)) ws s1 F1"
    using sem_release_waiter [OF Cons.prems(1,2,3)] by blast
  have 1: "kinv s1 F1" "kgood s1" "waiters F1 (Suspend_thread (Sem j)) ws" "sem s1 = sem s" "ready s1 t"
      "rt_scheduler_lock_nest s1 = rt_scheduler_lock_nest s" "\<And>u. u \<noteq> t \<Longrightarrow> thread s1 u = thread s u"
    using wk by (simp_all add: woken_def ipc_frame_def)
  have "ready s1 u" if "ready s u" for u using 1(5,7) that by (cases "u = t") auto
  moreover obtain s' F' where "work_completion_loop j s1 = Some (Ok (RT_EOK, s'))" "kinv s' F'" "kgood s'"
      "F' (Suspend_thread (Sem j)) = []" "\<forall>t \<in> set ws. ready s' t" "\<forall>t. ready s1 t \<longrightarrow> ready s' t" "sem s' = sem s1"
      "rt_scheduler_lock_nest s' = rt_scheduler_lock_nest s1"
    using Cons.IH [OF 1(1-3)] 1(4) Cons.prems(4) by auto
  moreover have "work_completion_loop j s = work_completion_loop j s1"
    using tk rl by (subst work_completion_loop.simps) simp
  ultimately show ?case using 1(4-6) by auto
qed

lemma work_completion_ok:
  assumes inv: "kinv s F" and good: "kgood s" and ws: "waiters F (Suspend_thread (Sem j)) ws" and v: "sem_value (sem s j) = 0"
    and lock: "rt_scheduler_lock_nest s = 0" and u: "ready s u"
  shows "\<exists>s' F'. workqueue_work_completion j s = Ok (RT_EOK, s') \<and> kinv s' F' \<and> kgood s' \<and>
    F' (Suspend_thread (Sem j)) = [] \<and> (\<forall>t \<in> set ws. ready s' t) \<and> sem s' = sem s \<and> rt_scheduler_lock_nest s' = 0"
proof -
  define s0 where "s0 = rt_enter_critical s"
  have 0: "kinv s0 F" "kgood s0" "sem s0 = sem s" "rt_scheduler_lock_nest s0 = 1" "thread s0 = thread s"
    using kinv_cong [OF inv, of s0] kgood_cong [OF good, of s0] lock by (simp_all add: s0_def rt_enter_critical_def same_defs)
  obtain s1 F1 where 1: "work_completion_loop j s0 = Some (Ok (RT_EOK, s1))" "kinv s1 F1" "kgood s1"
      "F1 (Suspend_thread (Sem j)) = []" "\<forall>t \<in> set ws. ready s1 t" "\<forall>t. ready s0 t \<longrightarrow> ready s1 t" "sem s1 = sem s0"
      "rt_scheduler_lock_nest s1 = rt_scheduler_lock_nest s0"
    using work_completion_loop_ok [OF 0(1,2) ws] v 0(3) by auto
  define s2 where "s2 = s1\<lparr>rt_scheduler_lock_nest := 0\<rparr>"
  have 2: "kinv s2 F1" "kgood s2" "thread s2 = thread s1"
    using kinv_cong [OF 1(2), of s2] kgood_cong [OF 1(3), of s2] by (simp_all add: s2_def same_defs)
  have "ready s2 u" using u 1(6) 0(5) 2(3) by simp
  then obtain s' where s': "rt_schedule s2 = Ok s'" "kinv s' F1" "rt_current_thread s' \<noteq> None"
      "s' = s2\<lparr>rt_current_priority := rt_current_priority s', rt_current_thread := rt_current_thread s'\<rparr>"
    by (rule schedule_total [OF 2(1,2)]) blast
  have "kgood s'" by (rule kgood_schedule [OF 2(2) s'(3,4)])
  moreover have "workqueue_work_completion j s = Ok (RT_EOK, s')"
    using 1(1,8) 0(4) s'(1) by (simp add: workqueue_work_completion_def s0_def [symmetric] rt_exit_critical_def s2_def)
  moreover have "sem s' = sem s" "rt_scheduler_lock_nest s' = 0" by (subst s'(4), simp add: s2_def 1(7) 0(3))+
  ultimately show ?thesis using s'(2) 1(4,5) schedule_thread [OF s'(1)] 2(3) by auto
qed

end
