(* ===== verification/RT_Props_Services.thy ===== *)
theory RT_Props_Services
  imports RT_Example RT_Print RT_WorkQueue
begin

text \<open>
  What formatted output and the services for device drivers promise: completions, data queues and work queues.
\<close>

section \<open>Formatted output\<close>

text \<open>
  C31. \<^verbatim>\<open>rt_vsnprintf\<close> returns for every terminated format with enough arguments, and its result is the length of what the
  conversions put out. Unless that is longer than the memory above the buffer, the buffer then holds as much of it as fits,
  ended by a zero byte, and no other byte has changed.
\<close>

theorem vsnprintf_fits_buffer:
  assumes "cstring fmt xs" "3 * length xs \<le> length args" "0 < unat sz" "unat buf + unat sz \<le> 2 ^ 32"
    and "buf + sz - 1 < z" "m z = 0"
  shows "(\<exists>cs m'. prints buf sz fmt args m cs \<and> rt_vsnprintf buf sz fmt args m = Ok (of_nat (length cs), m')) \<and>
    (\<forall>cs. prints buf sz fmt args m cs \<and> unat buf + length cs < 2 ^ 32 \<longrightarrow>
       rt_vsnprintf buf sz fmt args m = Ok (of_nat (length cs),
         \<lambda>x. if unat (x - buf) < min (length cs) (unat sz - 1) then cs ! unat (x - buf)
             else if unat (x - buf) = min (length cs) (unat sz - 1) then 0 else m x))"
  using vsnprintf_total [OF assms(1-5), of m] assms(6) vsnprintf_prints [OF _ assms(3,4), of fmt args m] unfolding printed_def by blast

theorem vsnprintf_fits_buffer_witness:
  "rt_vsnprintf 0x2000 4 (cstr_of [97, 98, 99, 100, 101]) (replicate 15 7) (\<lambda>_. 0) = Ok (of_nat (length [97, 98, 99, 100, 101 :: u8]),
     \<lambda>x. if unat (x - 0x2000) < min (length [97, 98, 99, 100, 101 :: u8]) (unat (4 :: u32) - 1)
         then [97, 98, 99, 100, 101] ! unat (x - 0x2000)
         else if unat (x - 0x2000) = min (length [97, 98, 99, 100, 101 :: u8]) (unat (4 :: u32) - 1) then 0 else (\<lambda>_. 0) x)"
  by (rule vsnprintf_fits_buffer [of _ "[97, 98, 99, 100, 101]" _ _ _ "0x3000", THEN conjunct2, rule_format])
    (simp_all add: cstring_cstr_of prints_literal)

text \<open>
  C32. What \<^verbatim>\<open>%u\<close> prints, the number reader \<^verbatim>\<open>skip_atoi\<close> of the same file reads back, for every number that the reader can hold:
  it adds a digit character before it subtracts \<^verbatim>\<open>'0'\<close>, and the sum must fit into an \<^verbatim>\<open>int\<close>.
\<close>

theorem print_read_roundtrip:
  assumes "11 \<le> unat sz" "unat buf + unat sz \<le> 2 ^ 32" "unat num + 48 < 2 ^ 31"
  shows "\<exists>n m'. rt_snprintf buf sz (cstr_of [37, 117]) [num] m = Ok (of_nat n, m') \<and>
    skip_atoi (\<lambda>i. m' (buf + of_nat i)) 0 = Ok (uint num, n)"
  using print_read [OF assms(1,2), of num m] by (auto simp: rt_snprintf_def)

theorem print_read_roundtrip_witness:
  "\<exists>n m'. rt_snprintf 0x2000 16 (cstr_of [37, 117]) [2147483599] (\<lambda>_. 0) = Ok (of_nat n, m') \<and>
    skip_atoi (\<lambda>i. m' (0x2000 + of_nat i)) 0 = Ok (uint (2147483599 :: u32), n)"
  by (rule print_read_roundtrip) simp_all

section \<open>Completions\<close>

text \<open>
  C33. A thread that waits for a completion is suspended with its timer running; \<^verbatim>\<open>rt_completion_done\<close> makes it ready and its
  call returns \<^verbatim>\<open>RT_EOK\<close> with the completion used up.
\<close>

theorem completion_handshake:
  assumes "kinv s F" "can_block s t" "waiters F (Suspend_thread (Completion i)) []" "timeout \<noteq> 0" "timeout \<noteq> 0x7fffffff"
    and "flag \<noteq> RT_COMPLETED"
  shows "\<exists>s1 s2 s3. rt_completion_wait i timeout (flag, s) = Ok (None, flag, s1) \<and> suspended s1 t \<and>
    (sint timeout > 0 \<longrightarrow> tm_timeout_tick (timer s1 (Thread_timer t)) = rt_tick s + timeout) \<and>
    rt_completion_done i (flag, s1) = Ok (RT_COMPLETED, s2) \<and> ready s2 t \<and> (\<exists>F2. kinv s2 F2) \<and>
    rt_completion_wait_resume t (RT_COMPLETED, s2) = Ok (Some RT_EOK, RT_UNCOMPLETED, s3)"
  using completion_wait_done [OF assms] by (fastforce simp: blocked_on_def)

theorem completion_handshake_witness:
  "\<exists>s1 s2 s3. rt_completion_wait 0 5 (0, ex_run) = Ok (None, 0, s1) \<and> suspended s1 2 \<and>
    (sint (5 :: u32) > 0 \<longrightarrow> tm_timeout_tick (timer s1 (Thread_timer 2)) = rt_tick ex_run + 5) \<and>
    rt_completion_done 0 (0, s1) = Ok (RT_COMPLETED, s2) \<and> ready s2 2 \<and> (\<exists>F2. kinv s2 F2) \<and>
    rt_completion_wait_resume 2 (RT_COMPLETED, s2) = Ok (Some RT_EOK, RT_UNCOMPLETED, s3)"
  by (rule completion_handshake [OF kinv_ex_run ex_run_can_block]) (simp_all add: ex_lists_def)

section \<open>Data queues\<close>

text \<open>
  C34. Items come out of a data queue in the order they were pushed, none lost, and a run of pushes and pops succeeds exactly
  when no push finds the queue full and no pop finds it empty, as long as the put index does not
  reach the end of its 16 bits.
\<close>

theorem data_queue_fifo:
  assumes "dq_wf q" "kinv s F" "kgood s" "unat (dq_put_index q) + length (fifo_puts ops) < 2 ^ 16"
  shows "if fifo_fits (length (dq_items q)) (unat (dq_size q)) ops
    then \<exists>ys q' s'. service_run (dq_pushing i) (dq_popping i) ops (q, s) = Some (ys, q', s') \<and> dq_wf q' \<and>
      dq_items q @ fifo_puts ops = ys @ dq_items q'
    else service_run (dq_pushing i) (dq_popping i) ops (q, s) = None"
proof -
  have "dq_ready (q, s)" using assms(1-3) by (auto simp: dq_ready_def)
  from data_queue_run [OF this assms(4), of i] show ?thesis by (auto simp: dq_ready_def split: if_splits)
qed

definition ex_dq :: rt_data_queue where
  "ex_dq = \<lparr>dq_size = 4, dq_lwm = 1, dq_get_index = 65530, dq_put_index = 65531, dq_queue = [(1, 1), (2, 2), (3, 3), (4, 4)]\<rparr>"

lemma dq_wf_ex_dq: "dq_wf ex_dq" "dq_items ex_dq = [(3, 3)]"
  by (simp_all add: dq_wf_def dq_items_def ex_dq_def ring_def)

theorem data_queue_fifo_witness:
  "\<exists>ys q' s'. service_run (dq_pushing 0) (dq_popping 0) [Put (7, 8), Get, Get] (ex_dq, ex_run) = Some (ys, q', s') \<and> dq_wf q' \<and>
    [(3, 3)] @ [(7, 8)] = ys @ dq_items q'"
proof -
  have "unat (dq_size ex_dq) = 4" "unat (dq_put_index ex_dq) = 65531" by (simp_all add: ex_dq_def)
  then show ?thesis
    using data_queue_fifo [OF dq_wf_ex_dq(1) kinv_ex_run ex_run_kgood, of "[Put (7, 8), Get, Get]" 0] by (simp add: dq_wf_ex_dq(2))
qed

section \<open>Work queues\<close>

text \<open>
  C35. Between the test of an empty list and the suspension, the thread of a work queue can be given an item without being woken:
  it suspends itself with the item on its list.
\<close>

theorem workqueue_loses_wakeup:
  assumes "wq_works w []" "wq_work_current w = None" "wq_work_thread w = t" "kinv s F" "can_block s t" "next_thread F t p"
  shows "wq_step work j W_test (w, s) = Ok (W_suspend, w, s) \<and>
    (\<exists>w' s1 s'. rt_workqueue_dowork k (w, s) = Ok (RT_EOK, w', s) \<and> wq_works w' [k] \<and>
      wq_step work j W_suspend (w', s) = Ok (W_schedule, w', s1) \<and>
      wq_step work j W_schedule (w', s1) = Ok (W_take, w', s') \<and> suspended s' t)"
  using wq_lost_wakeup [OF assms] by blast

definition ex_wq :: "thread_id \<Rightarrow> rt_workqueue" where
  "ex_wq t = \<lparr>wq_links = \<lparr>lnext = id, lprev = id\<rparr>, wq_work_current = None, wq_work_thread = t\<rparr>"

lemma ex_wq_works: "wq_works (ex_wq t) []"
  by (simp add: wq_works_def ex_wq_def lists_wf_def)

theorem workqueue_loses_wakeup_witness:
  "wq_step (\<lambda>k. Ok) 0 W_test (ex_wq 2, ex_run) = Ok (W_suspend, ex_wq 2, ex_run) \<and>
    (\<exists>w' s1 s'. rt_workqueue_dowork 5 (ex_wq 2, ex_run) = Ok (RT_EOK, w', ex_run) \<and> wq_works w' [5] \<and>
      wq_step (\<lambda>k. Ok) 0 W_suspend (w', ex_run) = Ok (W_schedule, w', s1) \<and>
      wq_step (\<lambda>k. Ok) 0 W_schedule (w', s1) = Ok (W_take, w', s') \<and> suspended s' 2)"
  by (rule workqueue_loses_wakeup [OF ex_wq_works _ _ kinv_ex_run ex_run_can_block, where p = 10])
    (auto simp: ex_wq_def next_thread_def highest_queue_def ex_lists_def)

end
