(* ===== verification/RT_Device.thy ===== *)
theory RT_Device
  imports RT_IPC RT_Print RT_MemPool
begin

text \<open>
  \<^verbatim>\<open>src/src/device.c\<close> and the console of \<^verbatim>\<open>src/src/kservice.c\<close>. A device is known by its number, so it is never
  \<^verbatim>\<open>RT_NULL\<close> where the code asserts that. The functions of its driver are a parameter, \<open>None\<close> where the driver leaves the
  pointer \<^verbatim>\<open>RT_NULL\<close>; they work on the same state as the device layer. So are the addresses of the static line buffer and
  of the devices' names. \<^verbatim>\<open>RT_USING_POSIX\<close> is not configured, and no file overrides the empty \<^verbatim>\<open>rt_hw_console_output\<close>.
\<close>

section \<open>Devices\<close>

record rt_device =
  dv_type :: u32
  dv_flag :: u16
  dv_open_flag :: u16
  dv_ref_count :: u8
  dv_device_id :: u8
  dv_rx_indicate :: u32
  dv_tx_complete :: u32
  dv_user_data :: u32

record dstate =
  dev :: "nat \<Rightarrow> rt_device"
  console_device :: "nat option"
  kst :: kstate

record dops =
  op_init :: "(dstate \<Rightarrow> (int \<times> dstate) res) option"
  op_open :: "(u16 \<Rightarrow> dstate \<Rightarrow> (int \<times> dstate) res) option"
  op_close :: "(dstate \<Rightarrow> (int \<times> dstate) res) option"
  op_read :: "(u32 \<Rightarrow> u32 \<Rightarrow> u32 \<Rightarrow> dstate \<Rightarrow> (u32 \<times> dstate) res) option"
  op_write :: "(u32 \<Rightarrow> u32 \<Rightarrow> u32 \<Rightarrow> dstate \<Rightarrow> (u32 \<times> dstate) res) option"
  op_control :: "(u32 \<Rightarrow> u32 \<Rightarrow> dstate \<Rightarrow> (int \<times> dstate) res) option"

record dconf =
  drv :: "nat \<Rightarrow> dops"
  rt_log_buf :: u32
  name_addr :: "nat \<Rightarrow> u32"

abbreviation (input) RT_ENOSYS :: int where "RT_ENOSYS \<equiv> 6"
abbreviation (input) RT_EBUSY :: int where "RT_EBUSY \<equiv> 7"
abbreviation (input) RT_DEVICE_FLAG_STANDALONE :: u16 where "RT_DEVICE_FLAG_STANDALONE \<equiv> 0x008"
abbreviation (input) RT_DEVICE_FLAG_ACTIVATED :: u16 where "RT_DEVICE_FLAG_ACTIVATED \<equiv> 0x010"
abbreviation (input) RT_DEVICE_FLAG_STREAM :: u16 where "RT_DEVICE_FLAG_STREAM \<equiv> 0x040"
abbreviation (input) RT_DEVICE_OFLAG_CLOSE :: u16 where "RT_DEVICE_OFLAG_CLOSE \<equiv> 0x000"
abbreviation (input) RT_DEVICE_OFLAG_RDWR :: u16 where "RT_DEVICE_OFLAG_RDWR \<equiv> 0x003"
abbreviation (input) RT_DEVICE_OFLAG_OPEN :: u16 where "RT_DEVICE_OFLAG_OPEN \<equiv> 0x008"
abbreviation (input) RT_DEVICE_OFLAG_MASK :: u16 where "RT_DEVICE_OFLAG_MASK \<equiv> 0xf0f"

definition upd_dev :: "nat \<Rightarrow> (rt_device \<Rightarrow> rt_device) \<Rightarrow> dstate \<Rightarrow> dstate" where
  [simp]: "upd_dev i f x = x\<lparr>dev := (dev x)(i := f (dev x i))\<rparr>"

definition on_kernel :: "(kstate \<Rightarrow> ('a \<times> kstate) res) \<Rightarrow> dstate \<Rightarrow> ('a \<times> dstate) res" where
  "on_kernel f x = rbind (f (kst x)) (\<lambda>(r, s). Ok (r, x\<lparr>kst := s\<rparr>))"

text \<open>The cast of the object found to a device.\<close>

definition device_entry :: "obj_ref option \<Rightarrow> nat option res" where
  "device_entry ob =
     (case ob of None \<Rightarrow> Ok None | Some (O_device i) \<Rightarrow> Ok (Some i) | Some _ \<Rightarrow> Fault Bad_Entry)"

definition rt_device_find :: "cstr \<Rightarrow> kstate \<Rightarrow> (nat option \<times> kstate) res" where
  "rt_device_find name s =
     (let s = (if rt_thread_self s \<noteq> None then rt_enter_critical s else s)
      in case rt_object_get_information (class_code Class_Device) of
           None \<Rightarrow> Fault Assert_Failed
         | Some information \<Rightarrow>
             rbind (loop_res (object_find_loop (Object_list information) name s
                      (lnext (links s) (Object_list information)))) (\<lambda>ob.
             rbind (device_entry ob) (\<lambda>r.
             if rt_thread_self s \<noteq> None
             then rbind (rt_exit_critical s) (\<lambda>s. Ok (r, s))
             else Ok (r, s))))"

definition rt_device_register :: "nat option \<Rightarrow> cstr \<Rightarrow> u16 \<Rightarrow> dstate \<Rightarrow> (int \<times> dstate) res" where
  "rt_device_register d name flags x =
     (case d of
        None \<Rightarrow> Ok (- RT_ERROR, x)
      | Some i \<Rightarrow>
          rbind (on_kernel (rt_device_find name) x) (\<lambda>(r, x).
          if r \<noteq> None then Ok (- RT_ERROR, x)
          else
            rbind (rt_object_init (O_device i) Class_Device name (kst x)) (\<lambda>s.
            Ok (RT_EOK, upd_dev i (\<lambda>d. d\<lparr>dv_flag := flags, dv_ref_count := 0, dv_open_flag := 0\<rparr>) (x\<lparr>kst := s\<rparr>)))))"

definition rt_device_unregister :: "nat \<Rightarrow> dstate \<Rightarrow> int \<times> dstate" where
  "rt_device_unregister i x = (RT_EOK, x\<lparr>kst := rt_object_detach (O_device i) (kst x)\<rparr>)"

definition rt_device_init_all :: int where
  "rt_device_init_all = RT_EOK"

text \<open>
  \<open>malloc\<close> is \<^verbatim>\<open>rt_malloc\<close> and \<open>sizeof_device\<close> the size of the structure. The driver stores its functions in the cleared
  structure before it registers the device, and only a registered device is unregistered or destroyed: the list node of
  the cleared structure holds null pointers.
\<close>

definition rt_device_create :: "(u32 \<Rightarrow> nat option) \<Rightarrow> u32 \<Rightarrow> u32 \<Rightarrow> u32 \<Rightarrow> dstate \<Rightarrow> nat option \<times> dstate" where
  "rt_device_create malloc sizeof_device type attach_size x =
     (let sz = (sizeof_device + 3) AND NOT 3;
          sz = sz + attach_size
      in case malloc sz of
           None \<Rightarrow> (None, x)
         | Some i \<Rightarrow>
             (let x = x\<lparr>kst := upd_object (O_device i) (\<lambda>r. r\<lparr>ob_name := (\<lambda>_. 0), ob_type := 0, ob_flag := 0\<rparr>) (kst x)\<rparr>;
                  x = upd_dev i (\<lambda>_. \<lparr>dv_type = 0, dv_flag = 0, dv_open_flag = 0, dv_ref_count = 0, dv_device_id = 0,
                        dv_rx_indicate = 0, dv_tx_complete = 0, dv_user_data = 0\<rparr>) x
              in (Some i, upd_dev i (\<lambda>d. d\<lparr>dv_type := type\<rparr>) x)))"

definition rt_device_destroy :: "nat \<Rightarrow> dstate \<Rightarrow> dstate" where
  "rt_device_destroy i x =
     (let (r, x) = rt_device_unregister i x
      in x\<lparr>kst := kernel_free (K_object (O_device i)) (kst x)\<rparr>)"

definition rt_device_write :: "dconf \<Rightarrow> nat \<Rightarrow> u32 \<Rightarrow> u32 \<Rightarrow> u32 \<Rightarrow> dstate \<Rightarrow> (u32 \<times> dstate) res" where
  "rt_device_write c i pos buffer len x =
     (if dv_ref_count (dev x i) = 0 then Ok (0, x\<lparr>kst := rt_set_errno (- RT_ERROR) (kst x)\<rparr>)
      else case op_write (drv c i) of
             Some f \<Rightarrow> f pos buffer len x
           | None \<Rightarrow> Ok (0, x\<lparr>kst := rt_set_errno (- RT_ENOSYS) (kst x)\<rparr>))"

section \<open>Console output\<close>

text \<open>Writing to the console device with the stream flag set; \<open>None\<close>: the empty \<^verbatim>\<open>rt_hw_console_output\<close>.\<close>

definition console_write :: "dconf \<Rightarrow> u32 \<Rightarrow> u32 \<Rightarrow> dstate \<Rightarrow> dstate res" where
  "console_write c buffer len x =
     (case console_device x of
        None \<Rightarrow> Ok x
      | Some i \<Rightarrow>
          (let old_flag = dv_open_flag (dev x i);
               x = upd_dev i (\<lambda>d. d\<lparr>dv_open_flag := dv_open_flag d OR RT_DEVICE_FLAG_STREAM\<rparr>) x
           in rbind (rt_device_write c i 0 buffer len x) (\<lambda>(r, x).
              case console_device x of
                None \<Rightarrow> Fault Null_Pointer
              | Some j \<Rightarrow> Ok (upd_dev j (\<lambda>d. d\<lparr>dv_open_flag := old_flag\<rparr>) x))))"

definition rt_kputs :: "dconf \<Rightarrow> u32 \<Rightarrow> dstate \<Rightarrow> dstate res" where
  "rt_kputs c str x =
     (if str = 0 \<or> console_device x = None then Ok x
      else rbind (loop_res (map_option Ok (rt_strlen (\<lambda>k. mem (kst x) (str + of_nat k))))) (\<lambda>n.
           console_write c str (of_nat n) x))"

abbreviation (input) RT_CONSOLEBUF_SIZE :: u32 where "RT_CONSOLEBUF_SIZE \<equiv> 1024"

definition rt_kprintf :: "dconf \<Rightarrow> cstr \<Rightarrow> u32 list \<Rightarrow> dstate \<Rightarrow> dstate res" where
  "rt_kprintf c fmt args x =
     rbind (rt_vsnprintf (rt_log_buf c) (RT_CONSOLEBUF_SIZE - 1) fmt args (mem (kst x))) (\<lambda>(length, m).
     let length = (if length > RT_CONSOLEBUF_SIZE - 1 then RT_CONSOLEBUF_SIZE - 1 else length)
     in console_write c (rt_log_buf c) length (x\<lparr>kst := (kst x)\<lparr>mem := m\<rparr>\<rparr>))"

text \<open>"To initialize device:\<open>%s\<close> failed. The error code is \<open>%d\<close>" and a newline.\<close>

definition init_failed_fmt :: cstr where
  "init_failed_fmt = cstr_of [84, 111, 32, 105, 110, 105, 116, 105, 97, 108, 105, 122, 101, 32, 100, 101, 118, 105, 99, 101, 58, 37, 115, 32, 102, 97, 105, 108, 101, 100, 46, 32, 84, 104, 101, 32, 101, 114, 114, 111, 114, 32, 99, 111, 100, 101, 32, 105, 115, 32, 37, 100, 10]"

definition init_failed :: "dconf \<Rightarrow> nat \<Rightarrow> int \<Rightarrow> dstate \<Rightarrow> dstate res" where
  "init_failed c i result x = rt_kprintf c init_failed_fmt [name_addr c i, of_int result] x"

section \<open>Opening and closing\<close>

definition rt_device_init :: "dconf \<Rightarrow> nat \<Rightarrow> dstate \<Rightarrow> (int \<times> dstate) res" where
  "rt_device_init c i x =
     (case op_init (drv c i) of
        None \<Rightarrow> Ok (RT_EOK, x)
      | Some f \<Rightarrow>
          if dv_flag (dev x i) AND RT_DEVICE_FLAG_ACTIVATED = 0
          then rbind (f x) (\<lambda>(result, x).
               if result \<noteq> RT_EOK then rbind (init_failed c i result x) (\<lambda>x. Ok (result, x))
               else Ok (result, upd_dev i (\<lambda>d. d\<lparr>dv_flag := dv_flag d OR RT_DEVICE_FLAG_ACTIVATED\<rparr>) x))
          else Ok (RT_EOK, x))"

text \<open>The second half of \<^verbatim>\<open>rt_device_open\<close>, on an initialised device.\<close>

definition device_open_active :: "dconf \<Rightarrow> nat \<Rightarrow> u16 \<Rightarrow> int \<Rightarrow> dstate \<Rightarrow> (int \<times> dstate) res" where
  "device_open_active c i oflag result x =
     (if dv_flag (dev x i) AND RT_DEVICE_FLAG_STANDALONE \<noteq> 0 \<and> dv_open_flag (dev x i) AND RT_DEVICE_OFLAG_OPEN \<noteq> 0
      then Ok (- RT_EBUSY, x)
      else
        rbind (case op_open (drv c i) of
                 Some f \<Rightarrow> f oflag x
               | None \<Rightarrow> Ok (result, upd_dev i (\<lambda>d. d\<lparr>dv_open_flag := oflag AND RT_DEVICE_OFLAG_MASK\<rparr>) x)) (\<lambda>(result, x).
        if result = RT_EOK \<or> result = - RT_ENOSYS then
          (let x = upd_dev i (\<lambda>d. d\<lparr>dv_open_flag := dv_open_flag d OR RT_DEVICE_OFLAG_OPEN\<rparr>) x;
               x = upd_dev i (\<lambda>d. d\<lparr>dv_ref_count := dv_ref_count d + 1\<rparr>) x
           in rbind (rassert (dv_ref_count (dev x i) \<noteq> 0) x) (\<lambda>x. Ok (result, x)))
        else Ok (result, x)))"

definition rt_device_open :: "dconf \<Rightarrow> nat \<Rightarrow> u16 \<Rightarrow> dstate \<Rightarrow> (int \<times> dstate) res" where
  "rt_device_open c i oflag x =
     (if dv_flag (dev x i) AND RT_DEVICE_FLAG_ACTIVATED = 0
      then
        rbind (case op_init (drv c i) of Some f \<Rightarrow> f x | None \<Rightarrow> Ok (RT_EOK, x)) (\<lambda>(result, x).
        if result \<noteq> RT_EOK then rbind (init_failed c i result x) (\<lambda>x. Ok (result, x))
        else device_open_active c i oflag result
               (upd_dev i (\<lambda>d. d\<lparr>dv_flag := dv_flag d OR RT_DEVICE_FLAG_ACTIVATED\<rparr>) x))
      else device_open_active c i oflag RT_EOK x)"

definition rt_device_close :: "dconf \<Rightarrow> nat \<Rightarrow> dstate \<Rightarrow> (int \<times> dstate) res" where
  "rt_device_close c i x =
     (if dv_ref_count (dev x i) = 0 then Ok (- RT_ERROR, x)
      else
        (let x = upd_dev i (\<lambda>d. d\<lparr>dv_ref_count := dv_ref_count d - 1\<rparr>) x
         in if dv_ref_count (dev x i) \<noteq> 0 then Ok (RT_EOK, x)
            else
              rbind (case op_close (drv c i) of Some f \<Rightarrow> f x | None \<Rightarrow> Ok (RT_EOK, x)) (\<lambda>(result, x).
              if result = RT_EOK \<or> result = - RT_ENOSYS
              then Ok (result, upd_dev i (\<lambda>d. d\<lparr>dv_open_flag := RT_DEVICE_OFLAG_CLOSE\<rparr>) x)
              else Ok (result, x))))"

definition rt_device_read :: "dconf \<Rightarrow> nat \<Rightarrow> u32 \<Rightarrow> u32 \<Rightarrow> u32 \<Rightarrow> dstate \<Rightarrow> (u32 \<times> dstate) res" where
  "rt_device_read c i pos buffer len x =
     (if dv_ref_count (dev x i) = 0 then Ok (0, x\<lparr>kst := rt_set_errno (- RT_ERROR) (kst x)\<rparr>)
      else case op_read (drv c i) of
             Some f \<Rightarrow> f pos buffer len x
           | None \<Rightarrow> Ok (0, x\<lparr>kst := rt_set_errno (- RT_ENOSYS) (kst x)\<rparr>))"

definition rt_device_control :: "dconf \<Rightarrow> nat \<Rightarrow> u32 \<Rightarrow> u32 \<Rightarrow> dstate \<Rightarrow> (int \<times> dstate) res" where
  "rt_device_control c i cmd arg x =
     (case op_control (drv c i) of Some f \<Rightarrow> f cmd arg x | None \<Rightarrow> Ok (- RT_ENOSYS, x))"

definition rt_device_set_rx_indicate :: "nat \<Rightarrow> u32 \<Rightarrow> dstate \<Rightarrow> int \<times> dstate" where
  "rt_device_set_rx_indicate i rx_ind x = (RT_EOK, upd_dev i (\<lambda>d. d\<lparr>dv_rx_indicate := rx_ind\<rparr>) x)"

definition rt_device_set_tx_complete :: "nat \<Rightarrow> u32 \<Rightarrow> dstate \<Rightarrow> int \<times> dstate" where
  "rt_device_set_tx_complete i tx_done x = (RT_EOK, upd_dev i (\<lambda>d. d\<lparr>dv_tx_complete := tx_done\<rparr>) x)"

section \<open>The console device\<close>

definition rt_console_get_device :: "dstate \<Rightarrow> nat option" where
  "rt_console_get_device x = console_device x"

definition rt_console_set_device :: "dconf \<Rightarrow> cstr \<Rightarrow> dstate \<Rightarrow> (nat option \<times> dstate) res" where
  "rt_console_set_device c name x =
     (let old = console_device x
      in rbind (on_kernel (rt_device_find name) x) (\<lambda>(new, x).
         case new of
           None \<Rightarrow> Ok (old, x)
         | Some i \<Rightarrow>
             rbind (case console_device x of Some j \<Rightarrow> rt_device_close c j x | None \<Rightarrow> Ok (RT_EOK, x)) (\<lambda>(r, x).
             rbind (rt_device_open c i (RT_DEVICE_OFLAG_RDWR OR RT_DEVICE_FLAG_STREAM) x) (\<lambda>(r, x).
             Ok (old, x\<lparr>console_device := Some i\<rparr>)))))"

section \<open>Devices by name\<close>

definition device_named :: "cstr \<Rightarrow> kstate \<Rightarrow> nat \<Rightarrow> bool" where
  "device_named name s i \<longleftrightarrow> same_upto (ob_name (object s (O_device i))) name RT_NAME_MAX"

lemma find_map: "find P (map f xs) = map_option f (find (P \<circ> f) xs)"
  by (induction xs) auto

lemma device_entry_find:
  "device_entry (find (\<lambda>ob. same_upto (ob_name (object s ob)) name RT_NAME_MAX) (map O_device ds)) = Ok (find (device_named name s) ds)"
proof -
  have "(\<lambda>ob. same_upto (ob_name (object s ob)) name RT_NAME_MAX) \<circ> O_device = device_named name s"
    by (rule ext) (simp add: device_named_def)
  then show ?thesis by (cases "find (device_named name s) ds") (simp_all add: find_map device_entry_def)
qed

lemma device_loop:
  assumes "lists_wf heads (links s) F" "F (Object_list Class_Device) = map (Obj_node \<circ> O_device) ds"
  shows "object_find_loop (Object_list Class_Device) name s (lnext (links s) (Object_list Class_Device)) =
    Some (Ok (find (\<lambda>ob. same_upto (ob_name (object s ob)) name RT_NAME_MAX) (map O_device ds)))"
proof -
  have "lnext (links s) (Object_list Class_Device) = hd (map Obj_node (map O_device ds) @ [Object_list Class_Device])"
    using lists_wf_next [OF assms(1), of "Object_list Class_Device" "[]" "map (Obj_node \<circ> O_device) ds"] assms(2) by simp
  then show ?thesis
    using object_find_loop_spec [OF assms(1), of Class_Device "[]" "map O_device ds" name] assms(2) by simp
qed

lemma device_information: "rt_object_get_information 8 = Some Class_Device"
  by (simp add: rt_object_get_information_def rt_object_container_def)

text \<open>Before the scheduler runs nothing is locked; after that, unlocking the scheduler may switch threads.\<close>

lemma device_find_boot:
  assumes "kinv s F" "rt_current_thread s = None" "F (Object_list Class_Device) = map (Obj_node \<circ> O_device) ds"
  shows "rt_device_find name s = Ok (find (device_named name s) ds, s)"
  using assms(2) device_loop [OF kinv_wf [OF assms(1)] assms(3), of name]
  by (simp add: rt_device_find_def rt_thread_self_def device_information loop_res_def device_entry_find)

lemma device_find_ok:
  assumes inv: "kinv s F" and good: "kgood s" and u: "ready s u" and lock: "rt_scheduler_lock_nest s = 0"
    and ds: "F (Object_list Class_Device) = map (Obj_node \<circ> O_device) ds"
  obtains s' where "rt_device_find name s = Ok (find (device_named name s) ds, s')" "kinv s' F" "kgood s'"
    "ready s' u" "rt_scheduler_lock_nest s' = 0" "object s' = object s"
proof -
  obtain s' where s': "rt_schedule s = Ok s'" "kinv s' F" "rt_current_thread s' \<noteq> None"
      "s' = s\<lparr>rt_current_priority := rt_current_priority s', rt_current_thread := rt_current_thread s'\<rparr>"
    by (rule schedule_total [OF inv good u]) blast
  have lk: "s\<lparr>rt_scheduler_lock_nest := 0\<rparr> = s" using lock by simp
  have cur: "rt_thread_self s \<noteq> None" using good by (auto simp: kgood_def rt_thread_self_def)
  define s1 where "s1 = rt_enter_critical s"
  have f1: "links s1 = links s" "object s1 = object s" "rt_thread_self s1 = rt_thread_self s"
    by (simp_all add: s1_def rt_enter_critical_def rt_thread_self_def)
  have "object_find_loop (Object_list Class_Device) name s1 (lnext (links s1) (Object_list Class_Device)) =
      Some (Ok (find (\<lambda>ob. same_upto (ob_name (object s1 ob)) name RT_NAME_MAX) (map O_device ds)))"
    using device_loop [of s1 F ds name] kinv_wf [OF inv] ds f1(1) by simp
  moreover have "rt_exit_critical s1 = Ok s'"
    using s'(1) lock by (simp add: s1_def rt_enter_critical_def rt_exit_critical_def lk)
  moreover have "device_named name s1 = device_named name s" by (rule ext) (simp add: device_named_def f1)
  ultimately have "rt_device_find name s = Ok (find (device_named name s) ds, s')"
    using cur f1(3) unfolding rt_device_find_def Let_def
    by (simp add: s1_def [symmetric] loop_res_def device_information device_entry_find)
  moreover have fr: "object s' = object s" "thread s' = thread s" "mem s' = mem s" "timer s' = timer s" "rt_scheduler_lock_nest s' = 0"
    by (subst s'(4), simp add: lock)+
  moreover have "kgood s'" using good s'(3) fr by (auto simp: kgood_def all_stacks_def stack_ok_def Let_def)
  moreover have "ready s' u" using u fr by simp
  ultimately show ?thesis using that s'(2) by blast
qed

lemma find_none: "(\<And>x. x \<in> set xs \<Longrightarrow> \<not> P x) \<Longrightarrow> find P xs = None"
  by (induction xs) auto

text \<open>Registering: refused when the name is taken, else the device is the first one of its list.\<close>

lemma device_register_taken:
  assumes "kinv (kst x) F" "kgood (kst x)" "ready (kst x) u" "rt_scheduler_lock_nest (kst x) = 0"
    and "F (Object_list Class_Device) = map (Obj_node \<circ> O_device) ds" "j \<in> set ds" "device_named name (kst x) j"
  shows "\<exists>s'. rt_device_register (Some i) name flags x = Ok (- RT_ERROR, x\<lparr>kst := s'\<rparr>) \<and> kinv s' F"
proof -
  obtain s' where s': "rt_device_find name (kst x) = Ok (find (device_named name (kst x)) ds, s')" "kinv s' F"
    by (rule device_find_ok [OF assms(1-5)]) blast
  have "find (device_named name (kst x)) ds \<noteq> None" using assms(6,7) by (auto simp: find_None_iff)
  then show ?thesis using s' by (auto simp: rt_device_register_def on_kernel_def)
qed

lemma device_register_ok:
  assumes inv: "kinv (kst x) F" and good: "kgood (kst x)" and u: "ready (kst x) u" and lock: "rt_scheduler_lock_nest (kst x) = 0"
    and ds: "F (Object_list Class_Device) = map (Obj_node \<circ> O_device) ds" and new: "\<And>j. j \<in> set ds \<Longrightarrow> \<not> device_named name (kst x) j"
    and det: "detached F (Obj_node (O_device i))"
  obtains s' where "rt_device_register (Some i) name flags x =
      Ok (RT_EOK, upd_dev i (\<lambda>d. d\<lparr>dv_flag := flags, dv_ref_count := 0, dv_open_flag := 0\<rparr>) (x\<lparr>kst := s'\<rparr>))"
    "kinv s' (F(Object_list Class_Device := map (Obj_node \<circ> O_device) (i # ds)))" "kgood s'" "ready s' u"
    "rt_scheduler_lock_nest s' = 0" "device_named name s' i"
proof -
  obtain s1 where s1: "rt_device_find name (kst x) = Ok (find (device_named name (kst x)) ds, s1)" "kinv s1 F" "kgood s1"
      "ready s1 u" "rt_scheduler_lock_nest s1 = 0"
    by (rule device_find_ok [OF inv good u lock ds]) blast
  obtain s2 where s2: "rt_object_init (O_device i) Class_Device name s1 = Ok s2"
    by (simp add: rt_object_init_def Let_def device_information)
  note o2 = kinv_object_init [OF s1(2) det s2]
  have f2: "rt_scheduler_lock_nest s2 = 0" "device_named name s2 i"
    using s2 s1(5) strncpy_same by (auto simp: rt_object_init_def device_named_def Let_def device_information)
  have "kgood s2" by (rule kgood_cong [OF s1(3) object_init_current [OF s2]]) (simp_all add: o2(3-5))
  moreover have "ready s2 u" using s1(4) o2(3) by simp
  moreover have "kinv s2 (F(Object_list Class_Device := map (Obj_node \<circ> O_device) (i # ds)))" using o2(1) ds by simp
  moreover have "find (device_named name (kst x)) ds = None" using new by (rule find_none)
  ultimately show ?thesis using that [of s2] f2 s1(1) s2 by (simp add: rt_device_register_def on_kernel_def)
qed

section \<open>Reference counting\<close>

text \<open>Calls of \<^verbatim>\<open>rt_device_open\<close> and \<^verbatim>\<open>rt_device_close\<close> on one device, one after the other, and the counter they stand for.\<close>

datatype dev_op = D_open u16 | D_close

fun device_ops :: "dconf \<Rightarrow> nat \<Rightarrow> dev_op list \<Rightarrow> dstate \<Rightarrow> (int list \<times> dstate) res" where
  "device_ops c i [] x = Ok ([], x)"
| "device_ops c i (p # ps) x =
     rbind (case p of D_open oflag \<Rightarrow> rt_device_open c i oflag x | D_close \<Rightarrow> rt_device_close c i x) (\<lambda>(r, x).
     rbind (device_ops c i ps x) (\<lambda>(rs, x). Ok (r # rs, x)))"

fun count_op :: "bool \<Rightarrow> dev_op \<Rightarrow> nat \<Rightarrow> (int \<times> nat) res" where
  "count_op standalone (D_open oflag) n =
     (if standalone \<and> 0 < n then Ok (- RT_EBUSY, n) else if n = 255 then Fault Assert_Failed else Ok (RT_EOK, n + 1))"
| "count_op standalone D_close n = (if n = 0 then Ok (- RT_ERROR, n) else Ok (RT_EOK, n - 1))"

fun count_ops :: "bool \<Rightarrow> dev_op list \<Rightarrow> nat \<Rightarrow> (int list \<times> nat) res" where
  "count_ops standalone [] n = Ok ([], n)"
| "count_ops standalone (p # ps) n =
     rbind (count_op standalone p n) (\<lambda>(r, n). rbind (count_ops standalone ps n) (\<lambda>(rs, n). Ok (r # rs, n)))"

text \<open>The device layer takes \<^verbatim>\<open>-RT_ENOSYS\<close> of a driver for success.\<close>

definition served :: "int \<Rightarrow> bool" where
  "served r \<longleftrightarrow> r = RT_EOK \<or> r = - RT_ENOSYS"

definition outcome :: "int \<Rightarrow> int" where
  "outcome r = (if served r then RT_EOK else r)"

definition opened :: "bool \<Rightarrow> nat \<Rightarrow> nat \<Rightarrow> dstate \<Rightarrow> bool" where
  "opened standalone i n x \<longleftrightarrow> unat (dv_ref_count (dev x i)) = n \<and>
     (dv_open_flag (dev x i) AND RT_DEVICE_OFLAG_OPEN \<noteq> 0 \<longleftrightarrow> 0 < n) \<and>
     (dv_flag (dev x i) AND RT_DEVICE_FLAG_STANDALONE \<noteq> 0 \<longleftrightarrow> standalone)"

text \<open>
  What a driver function owes the device layer: it returns, with an expected result, and leaves the bookkeeping of the
  device alone. The other bits of the open flag are its own.
\<close>

definition keeps_device :: "nat \<Rightarrow> (int \<Rightarrow> bool) \<Rightarrow> (dstate \<Rightarrow> (int \<times> dstate) res) \<Rightarrow> bool" where
  "keeps_device i P f \<longleftrightarrow> (\<forall>x. \<exists>r x'. f x = Ok (r, x') \<and> P r \<and> dv_ref_count (dev x' i) = dv_ref_count (dev x i) \<and>
     dv_flag (dev x' i) = dv_flag (dev x i) \<and>
     dv_open_flag (dev x' i) AND RT_DEVICE_OFLAG_OPEN = dv_open_flag (dev x i) AND RT_DEVICE_OFLAG_OPEN)"

definition sound_driver :: "nat \<Rightarrow> dops \<Rightarrow> bool" where
  "sound_driver i d \<longleftrightarrow> (\<forall>f. op_init d = Some f \<longrightarrow> keeps_device i (\<lambda>r. r = RT_EOK) f) \<and>
     (\<forall>f oflag. op_open d = Some f \<longrightarrow> keeps_device i served (f oflag)) \<and>
     (\<forall>f. op_close d = Some f \<longrightarrow> keeps_device i served f)"

lemma unat_inc8: "unat ((r :: u8) + 1) = (if unat r = 255 then 0 else unat r + 1)"
proof -
  have "unat r < 256" using unsigned_less [of r, where 'a = nat] by simp
  then show ?thesis by (auto simp: unat_word_ariths)
qed

lemma inc8_zero: "(r :: u8) + 1 = 0 \<longleftrightarrow> unat r = 255"
proof -
  have "r + 1 = 0 \<longleftrightarrow> unat (r + 1) = 0" by (simp only: unat_eq_zero)
  then show ?thesis by (simp only: unat_inc8 split: if_split) simp
qed

lemma driver_close:
  assumes "sound_driver i d"
  shows "\<exists>r x'. (case op_close d of Some f \<Rightarrow> f x | None \<Rightarrow> Ok (RT_EOK, x)) = Ok (r, x') \<and> served r \<and>
    dv_ref_count (dev x' i) = dv_ref_count (dev x i) \<and> dv_flag (dev x' i) = dv_flag (dev x i)"
proof (cases "op_close d")
  case (Some f)
  then have "keeps_device i served f" using assms by (simp add: sound_driver_def)
  then obtain r x' where "f x = Ok (r, x')" "served r" "dv_ref_count (dev x' i) = dv_ref_count (dev x i)"
      "dv_flag (dev x' i) = dv_flag (dev x i)"
    unfolding keeps_device_def by blast
  then show ?thesis using Some by simp
qed (simp add: served_def)

lemma driver_open:
  assumes "sound_driver i d"
  shows "\<exists>r x'. (case op_open d of Some f \<Rightarrow> f oflag x
      | None \<Rightarrow> Ok (RT_EOK, upd_dev i (\<lambda>d. d\<lparr>dv_open_flag := oflag AND RT_DEVICE_OFLAG_MASK\<rparr>) x)) = Ok (r, x') \<and> served r \<and>
    dv_ref_count (dev x' i) = dv_ref_count (dev x i) \<and> dv_flag (dev x' i) = dv_flag (dev x i)"
proof (cases "op_open d")
  case (Some f)
  then have "keeps_device i served (f oflag)" using assms by (simp add: sound_driver_def)
  then obtain r x' where "f oflag x = Ok (r, x')" "served r" "dv_ref_count (dev x' i) = dv_ref_count (dev x i)"
      "dv_flag (dev x' i) = dv_flag (dev x i)"
    unfolding keeps_device_def by blast
  then show ?thesis using Some by simp
qed (simp add: served_def)

lemma open_bit_set: "((a :: u16) OR 8) AND 8 \<noteq> 0"
proof -
  have "bit ((a OR 8) AND 8) 3" by (simp add: bit_simps)
  then show ?thesis by (metis bit_0_eq bot_apply bot_bool_def)
qed

lemma activate_standalone: "((a :: u16) OR 16) AND 8 = a AND 8"
  by (simp add: bit.conj_disj_distrib2)

lemma open_active_count:
  assumes d: "sound_driver i (drv c i)" and x: "opened sa i n x"
  shows "case count_op sa (D_open oflag) n of Fault e \<Rightarrow> device_open_active c i oflag RT_EOK x = Fault e
    | Ok (r, n') \<Rightarrow> \<exists>r' x'. device_open_active c i oflag RT_EOK x = Ok (r', x') \<and> outcome r' = r \<and> opened sa i n' x'"
proof (cases "sa \<and> 0 < n")
  case True
  then show ?thesis using x by (auto simp: opened_def device_open_active_def outcome_def served_def)
next
  case False
  obtain r x1 where f: "(case op_open (drv c i) of Some f \<Rightarrow> f oflag x
        | None \<Rightarrow> Ok (RT_EOK, upd_dev i (\<lambda>d. d\<lparr>dv_open_flag := oflag AND RT_DEVICE_OFLAG_MASK\<rparr>) x)) = Ok (r, x1)"
      "served r" "dv_ref_count (dev x1 i) = dv_ref_count (dev x i)" "dv_flag (dev x1 i) = dv_flag (dev x i)"
    using driver_open [OF d, of oflag x] by blast
  have nb: "\<not> (dv_flag (dev x i) AND RT_DEVICE_FLAG_STANDALONE \<noteq> 0 \<and> dv_open_flag (dev x i) AND RT_DEVICE_OFLAG_OPEN \<noteq> 0)"
    using False x by (simp add: opened_def)
  have r0: "dv_ref_count (dev x1 i) + 1 = 0 \<longleftrightarrow> n = 255"
    using x f(3) by (simp add: inc8_zero opened_def)
  have "device_open_active c i oflag RT_EOK x = (if n = 255 then Fault Assert_Failed else
      Ok (r, upd_dev i (\<lambda>d. d\<lparr>dv_open_flag := dv_open_flag d OR RT_DEVICE_OFLAG_OPEN, dv_ref_count := dv_ref_count d + 1\<rparr>) x1))"
    using f(2) r0 unfolding device_open_active_def f(1) if_not_P [OF nb]
    by (simp add: served_def rassert_def Let_def)
  moreover have "opened sa i (n + 1) (upd_dev i (\<lambda>d. d\<lparr>dv_open_flag := dv_open_flag d OR RT_DEVICE_OFLAG_OPEN,
      dv_ref_count := dv_ref_count d + 1\<rparr>) x1)" if "n \<noteq> 255"
    using that x f(3,4) open_bit_set by (simp add: opened_def unat_inc8)
  ultimately show ?thesis using False f(2) by (simp add: outcome_def)
qed

lemma open_count:
  assumes d: "sound_driver i (drv c i)" and x: "opened sa i n x"
  shows "case count_op sa (D_open oflag) n of Fault e \<Rightarrow> rt_device_open c i oflag x = Fault e
    | Ok (r, n') \<Rightarrow> \<exists>r' x'. rt_device_open c i oflag x = Ok (r', x') \<and> outcome r' = r \<and> opened sa i n' x'"
proof (cases "dv_flag (dev x i) AND RT_DEVICE_FLAG_ACTIVATED = 0")
  case True
  obtain x1 where x1: "(case op_init (drv c i) of Some f \<Rightarrow> f x | None \<Rightarrow> Ok (RT_EOK, x)) = Ok (RT_EOK, x1)" "opened sa i n x1"
    using d x by (cases "op_init (drv c i)") (fastforce simp: sound_driver_def keeps_device_def opened_def)+
  define y where "y = upd_dev i (\<lambda>d. d\<lparr>dv_flag := dv_flag d OR RT_DEVICE_FLAG_ACTIVATED\<rparr>) x1"
  have "opened sa i n y" using x1(2) by (simp add: opened_def activate_standalone y_def)
  moreover have "rt_device_open c i oflag x = device_open_active c i oflag RT_EOK y"
    using True x1(1) by (simp add: rt_device_open_def y_def)
  ultimately show ?thesis using open_active_count [OF d, of sa n y oflag] by (simp only:)
next
  case False
  then have "rt_device_open c i oflag x = device_open_active c i oflag RT_EOK x" by (simp add: rt_device_open_def)
  then show ?thesis using open_active_count [OF d x, of oflag] by (simp only:)
qed

lemma close_count:
  assumes d: "sound_driver i (drv c i)" and x: "opened sa i n x"
  shows "case count_op sa D_close n of Fault e \<Rightarrow> rt_device_close c i x = Fault e
    | Ok (r, n') \<Rightarrow> \<exists>r' x'. rt_device_close c i x = Ok (r', x') \<and> outcome r' = r \<and> opened sa i n' x'"
proof (cases "n = 0")
  case True
  then show ?thesis using x by (auto simp: opened_def rt_device_close_def outcome_def served_def unat_eq_zero)
next
  case False
  define x1 where "x1 = upd_dev i (\<lambda>d. d\<lparr>dv_ref_count := dv_ref_count d - 1\<rparr>) x"
  have rc: "dv_ref_count (dev x i) \<noteq> 0" using x False by (auto simp: opened_def)
  have n1: "unat (dv_ref_count (dev x1 i)) = n - 1" using x unat_minus_one [OF rc] by (simp add: x1_def opened_def)
  then have n0: "dv_ref_count (dev x1 i) = 0 \<longleftrightarrow> n - 1 = 0" using unat_eq_zero [of "dv_ref_count (dev x1 i)"] by simp
  obtain r x2 where f: "(case op_close (drv c i) of Some f \<Rightarrow> f x1 | None \<Rightarrow> Ok (RT_EOK, x1)) = Ok (r, x2)" "served r"
      "dv_ref_count (dev x2 i) = dv_ref_count (dev x1 i)" "dv_flag (dev x2 i) = dv_flag (dev x1 i)"
    using driver_close [OF d, of x1] by blast
  have "rt_device_close c i x = (if n - 1 \<noteq> 0 then Ok (RT_EOK, x1)
      else Ok (r, upd_dev i (\<lambda>d. d\<lparr>dv_open_flag := RT_DEVICE_OFLAG_CLOSE\<rparr>) x2))"
    using rc n1 f(1,2) unfolding rt_device_close_def Let_def x1_def [symmetric]
    by (simp add: served_def n0)
  moreover have "opened sa i (n - 1) x1" if "n - 1 \<noteq> 0" using that x n1 by (simp add: opened_def x1_def)
  moreover have "opened sa i 0 (upd_dev i (\<lambda>d. d\<lparr>dv_open_flag := RT_DEVICE_OFLAG_CLOSE\<rparr>) x2)" if "n - 1 = 0"
    using that x n1 f(3,4) by (simp add: opened_def x1_def)
  ultimately show ?thesis using False f(2) by (cases "n - 1 = 0") (simp_all add: outcome_def served_def)
qed

lemma device_ops_count:
  assumes d: "sound_driver i (drv c i)" and x: "opened sa i n x"
  shows "case count_ops sa ps n of Fault e \<Rightarrow> device_ops c i ps x = Fault e
    | Ok (rs, n') \<Rightarrow> \<exists>rs' x'. device_ops c i ps x = Ok (rs', x') \<and> map outcome rs' = rs \<and> opened sa i n' x'"
  using x
proof (induction ps arbitrary: n x)
  case (Cons p ps)
  define g where "g = (case p of D_open oflag \<Rightarrow> rt_device_open c i oflag x | D_close \<Rightarrow> rt_device_close c i x)"
  have "case count_op sa p n of Fault e \<Rightarrow> g = Fault e
      | Ok (r, n') \<Rightarrow> \<exists>r' x'. g = Ok (r', x') \<and> outcome r' = r \<and> opened sa i n' x'"
    using open_count [OF d Cons.prems] close_count [OF d Cons.prems] by (cases p) (simp_all only: g_def dev_op.case)
  note g = this
  show ?case
  proof (cases "count_op sa p n")
    case (Ok rn)
    then obtain r' x' where "g = Ok (r', x')" "outcome r' = fst rn" "opened sa i (snd rn) x'"
      using g by (auto simp: case_prod_beta)
    then show ?thesis
      using Cons.IH [of "snd rn" x'] Ok
      by (cases "count_ops sa ps (snd rn)") (auto simp: g_def [symmetric] case_prod_beta)
  next
    case (Fault e)
    then show ?thesis using g by (simp add: g_def [symmetric])
  qed
qed simp

text \<open>A driver whose close function fails once: the count is zero, the open flag stays.\<close>

lemma failed_close:
  assumes f: "op_close (drv c i) = Some f" and kf: "keeps_device i (\<lambda>r. \<not> served r) f"
    and x: "opened True i 1 x" and act: "dv_flag (dev x i) AND RT_DEVICE_FLAG_ACTIVATED \<noteq> 0"
  shows "\<exists>r x'. rt_device_close c i x = Ok (r, x') \<and> \<not> served r \<and>
    rt_device_close c i x' = Ok (- RT_ERROR, x') \<and> (\<forall>oflag. rt_device_open c i oflag x' = Ok (- RT_EBUSY, x'))"
proof -
  define x1 where "x1 = upd_dev i (\<lambda>d. d\<lparr>dv_ref_count := dv_ref_count d - 1\<rparr>) x"
  have rc: "dv_ref_count (dev x i) = 1" using x by (simp add: opened_def word_unat_eq_iff)
  obtain r x2 where x2: "f x1 = Ok (r, x2)" "\<not> served r" "dv_ref_count (dev x2 i) = dv_ref_count (dev x1 i)"
      "dv_flag (dev x2 i) = dv_flag (dev x1 i)"
      "dv_open_flag (dev x2 i) AND RT_DEVICE_OFLAG_OPEN = dv_open_flag (dev x1 i) AND RT_DEVICE_OFLAG_OPEN"
    using kf unfolding keeps_device_def by blast
  have x1: "dv_ref_count (dev x1 i) = 0" "dv_flag (dev x1 i) = dv_flag (dev x i)" "dv_open_flag (dev x1 i) = dv_open_flag (dev x i)"
    using rc by (simp_all add: x1_def)
  have "rt_device_close c i x = Ok (r, x2)"
    using rc x1(1) x2(1,2) f unfolding rt_device_close_def Let_def x1_def [symmetric] by (simp add: served_def)
  moreover have "rt_device_close c i x2 = Ok (- RT_ERROR, x2)" using x1(1) x2(3) by (simp add: rt_device_close_def)
  moreover have "rt_device_open c i oflag x2 = Ok (- RT_EBUSY, x2)" for oflag
    using x act x1(2,3) x2(4,5) by (simp add: rt_device_open_def device_open_active_def opened_def)
  ultimately show ?thesis using x2(2) by blast
qed

section \<open>Lines on the console\<close>

text \<open>
  The driver is handed the line buffer and the length of the line. A line of 1023 characters or more is cut: the 1023 bytes
  handed over are its first 1022 characters and the terminating zero.
\<close>

lemma kprintf_prints:
  assumes cs: "prints (rt_log_buf c) 1023 fmt args (mem (kst x)) cs"
    and buf: "unat (rt_log_buf c) + 1023 \<le> 2 ^ 32" "unat (rt_log_buf c) + length cs < 2 ^ 32"
    and dv: "console_device x = Some i" "dv_ref_count (dev x i) \<noteq> 0" "op_write (drv c i) = Some w"
  shows "rt_kprintf c fmt args x =
    rbind (w 0 (rt_log_buf c) (of_nat (min (length cs) 1023))
        (upd_dev i (\<lambda>d. d\<lparr>dv_open_flag := dv_open_flag d OR RT_DEVICE_FLAG_STREAM\<rparr>)
           (x\<lparr>kst := (kst x)\<lparr>mem := printed (rt_log_buf c) 1023 cs (mem (kst x))\<rparr>\<rparr>)))
      (\<lambda>(r, y). case console_device y of None \<Rightarrow> Fault Null_Pointer
         | Some j \<Rightarrow> Ok (upd_dev j (\<lambda>d. d\<lparr>dv_open_flag := dv_open_flag (dev x i)\<rparr>) y))"
proof -
  have "unat (of_nat (length cs) :: u32) = length cs" using buf(2) by (simp add: unat_of_nat take_bit_nat_eq_self)
  then have "(if (of_nat (length cs) :: u32) > 1023 then 1023 else of_nat (length cs)) = (of_nat (min (length cs) 1023) :: u32)"
    by (auto simp: word_less_nat_alt min_def)
  then have "rt_kprintf c fmt args x = console_write c (rt_log_buf c) (of_nat (min (length cs) 1023))
      (x\<lparr>kst := (kst x)\<lparr>mem := printed (rt_log_buf c) 1023 cs (mem (kst x))\<rparr>\<rparr>)"
    using vsnprintf_prints [OF cs] buf by (cases "(of_nat (length cs) :: u32) > 1023") (simp_all add: rt_kprintf_def)
  then show ?thesis using dv by (simp add: console_write_def rt_device_write_def)
qed

text \<open>A console device that is not open takes no line and leaves an error number behind.\<close>

lemma kprintf_closed:
  assumes fmt: "cstring fmt xs" "3 * length xs \<le> length args"
    and buf: "unat (rt_log_buf c) + 1024 \<le> 2 ^ 32" and z: "rt_log_buf c + 1022 < z" "mem (kst x) z = 0"
    and dv: "console_device x = Some i" "dv_ref_count (dev x i) = 0"
  shows "\<exists>x'. rt_kprintf c fmt args x = Ok x' \<and> rt_get_errno (kst x') = - RT_ERROR"
proof -
  have "unat (1023 :: u32) = 1023" by simp
  then have "unat (rt_log_buf c) + unat (1023 :: u32) \<le> 2 ^ 32" using buf by linarith
  moreover have "rt_log_buf c + 1023 - 1 < z" using z(1) by (simp add: add.commute)
  ultimately obtain n m where "rt_vsnprintf (rt_log_buf c) 1023 fmt args (mem (kst x)) = Ok (n, m)"
    using vsnprintf_total [OF fmt, of 1023 "rt_log_buf c" z "mem (kst x)"] z(2) by auto
  then show ?thesis using dv by (simp add: rt_kprintf_def console_write_def rt_device_write_def errno_roundtrip)
qed

end
