(* ===== verification/RT_Props_Devices.thy ===== *)
theory RT_Props_Devices
  imports RT_Example RT_Device
begin

text \<open>
  What the device layer and the console promise to the drivers and to their users.
\<close>

definition ex_dev :: "u8 \<Rightarrow> u16 \<Rightarrow> u16 \<Rightarrow> dstate" where
  "ex_dev n flag oflag = \<lparr>dev = (\<lambda>_. \<lparr>dv_type = 0, dv_flag = flag, dv_open_flag = oflag, dv_ref_count = n, dv_device_id = 0,
     dv_rx_indicate = 0, dv_tx_complete = 0, dv_user_data = 0\<rparr>), console_device = Some 0, kst = ex_run\<rparr>"

definition ex_driver :: "int \<Rightarrow> dconf" where
  "ex_driver r = \<lparr>drv = (\<lambda>_. \<lparr>op_init = None, op_open = None, op_close = Some (\<lambda>x. Ok (r, x)), op_read = None,
     op_write = Some (\<lambda>pos buffer len x. Ok (len, x)), op_control = None\<rparr>), rt_log_buf = 0x2000, name_addr = (\<lambda>_. 0)\<rparr>"

section \<open>Devices\<close>

text \<open>
  C36. A device registered under a new name is closed, has the given flags and is what \<^verbatim>\<open>rt_device_find\<close> returns for that name; a
  second registration under the name is refused and changes no device, and the kernel's invariant holds throughout.
\<close>

theorem device_register_finds:
  assumes "kinv (kst x) F" "kgood (kst x)" "ready (kst x) u" "rt_scheduler_lock_nest (kst x) = 0"
    and "F (Object_list Class_Device) = map (Obj_node \<circ> O_device) ds" "\<And>j. j \<in> set ds \<Longrightarrow> \<not> device_named name (kst x) j"
    and "detached F (Obj_node (O_device i))"
  shows "\<exists>x1 s2 s3. rt_device_register (Some i) name flags x = Ok (RT_EOK, x1) \<and>
    dv_flag (dev x1 i) = flags \<and> dv_ref_count (dev x1 i) = 0 \<and> dv_open_flag (dev x1 i) = 0 \<and>
    rt_device_find name (kst x1) = Ok (Some i, s2) \<and>
    rt_device_register (Some j) name flags' x1 = Ok (- RT_ERROR, x1\<lparr>kst := s3\<rparr>) \<and>
    kinv s3 (F(Object_list Class_Device := map (Obj_node \<circ> O_device) (i # ds)))"
proof -
  define F1 where "F1 = F(Object_list Class_Device := map (Obj_node \<circ> O_device) (i # ds))"
  obtain s1 where r: "rt_device_register (Some i) name flags x =
        Ok (RT_EOK, upd_dev i (\<lambda>d. d\<lparr>dv_flag := flags, dv_ref_count := 0, dv_open_flag := 0\<rparr>) (x\<lparr>kst := s1\<rparr>))"
      and s1: "kinv s1 F1" "kgood s1" "ready s1 u" "rt_scheduler_lock_nest s1 = 0" "device_named name s1 i"
    unfolding F1_def by (rule device_register_ok [OF assms]) blast
  define x1 where "x1 = upd_dev i (\<lambda>d. d\<lparr>dv_flag := flags, dv_ref_count := 0, dv_open_flag := 0\<rparr>) (x\<lparr>kst := s1\<rparr>)"
  have k: "kst x1 = s1" by (simp add: x1_def)
  have F1: "F1 (Object_list Class_Device) = map (Obj_node \<circ> O_device) (i # ds)" by (simp add: F1_def)
  obtain s2 where "rt_device_find name s1 = Ok (find (device_named name s1) (i # ds), s2)"
    by (rule device_find_ok [OF s1(1-4) F1]) blast
  moreover obtain s3 where "rt_device_register (Some j) name flags' x1 = Ok (- RT_ERROR, x1\<lparr>kst := s3\<rparr>)" "kinv s3 F1"
    using device_register_taken [of x1 F1 u "i # ds" i name j flags'] s1 F1 k by auto
  ultimately show ?thesis
    using r s1(5) k unfolding F1_def by (intro exI [of _ x1] exI [of _ s2] exI [of _ s3]) (simp add: x1_def)
qed

theorem device_register_finds_witness:
  "\<exists>x1 s2 s3. rt_device_register (Some 4) (cstr_of [117, 48]) 3 (ex_dev 0 0 0) = Ok (RT_EOK, x1) \<and>
    dv_flag (dev x1 4) = 3 \<and> dv_ref_count (dev x1 4) = 0 \<and> dv_open_flag (dev x1 4) = 0 \<and>
    rt_device_find (cstr_of [117, 48]) (kst x1) = Ok (Some 4, s2) \<and>
    rt_device_register (Some 5) (cstr_of [117, 48]) 3 x1 = Ok (- RT_ERROR, x1\<lparr>kst := s3\<rparr>) \<and>
    kinv s3 (ex_lists(Object_list Class_Device := map (Obj_node \<circ> O_device) (4 # [])))"
proof -
  have "kst (ex_dev 0 0 0) = ex_run" by (simp add: ex_dev_def)
  then show ?thesis
    using kinv_ex_run ex_run_kgood by (intro device_register_finds [of _ _ 1]) (simp_all add: ex_lists_def)
qed

text \<open>
  C37. Whatever the order of opens and closes on a device, with a driver that reports success and leaves the device's bookkeeping
  alone, the device layer is a counter: a second open of a stand-alone device is busy, the 256th open fails the
  assertion, a close of a closed device is an error, and the device is marked open exactly while the count is positive.
\<close>

theorem device_counts_opens:
  assumes "sound_driver i (drv c i)" "opened standalone i n x"
  shows "case count_ops standalone ps n of Fault e \<Rightarrow> device_ops c i ps x = Fault e
    | Ok (rs, n') \<Rightarrow> \<exists>rs' x'. device_ops c i ps x = Ok (rs', x') \<and> map outcome rs' = rs \<and> opened standalone i n' x'"
  using assms by (rule device_ops_count)

theorem device_counts_opens_witness:
  "\<exists>rs' x'. device_ops (ex_driver 0) 4 [D_open 3, D_open 3, D_close, D_close, D_close] (ex_dev 0 0 0) = Ok (rs', x') \<and>
    map outcome rs' = [0, 0, 0, 0, - 1] \<and> opened False 4 0 x'"
  using device_counts_opens [of 4 "ex_driver 0" False 0 "ex_dev 0 0 0" "[D_open 3, D_open 3, D_close, D_close, D_close]"]
  by (simp add: sound_driver_def keeps_device_def ex_driver_def served_def opened_def ex_dev_def)

text \<open>
  C38. When the close function of a stand-alone device's driver fails, the device stays marked open with a count of zero: every
  later close is an error and every later open is busy, and neither changes the state again.
\<close>

theorem failed_close_locks_device:
  assumes "op_close (drv c i) = Some f" "keeps_device i (\<lambda>r. \<not> served r) f" "opened True i 1 x"
    and "dv_flag (dev x i) AND RT_DEVICE_FLAG_ACTIVATED \<noteq> 0"
  shows "\<exists>r x'. rt_device_close c i x = Ok (r, x') \<and> \<not> served r \<and>
    rt_device_close c i x' = Ok (- RT_ERROR, x') \<and> (\<forall>oflag. rt_device_open c i oflag x' = Ok (- RT_EBUSY, x'))"
  using assms by (rule failed_close)

theorem failed_close_locks_device_witness:
  "\<exists>r x'. rt_device_close (ex_driver (- 8)) 4 (ex_dev 1 0x18 0xb) = Ok (r, x') \<and> \<not> served r \<and>
    rt_device_close (ex_driver (- 8)) 4 x' = Ok (- RT_ERROR, x') \<and>
    (\<forall>oflag. rt_device_open (ex_driver (- 8)) 4 oflag x' = Ok (- RT_EBUSY, x'))"
  by (rule failed_close_locks_device [where f = "\<lambda>x. Ok (- 8, x)"])
    (simp_all add: keeps_device_def ex_driver_def served_def opened_def ex_dev_def)

section \<open>The console\<close>

text \<open>
  C39. \<^verbatim>\<open>rt_kprintf\<close> hands the driver of the open console device the formatted line, in stream mode, and then restores the device's
  open flag. A line of 1023 characters or more is cut to 1022, and the 1023rd byte handed over is the
  terminating zero.
\<close>

theorem kprintf_writes_line:
  assumes "prints (rt_log_buf c) 1023 fmt args (mem (kst x)) cs"
    and "unat (rt_log_buf c) + 1023 \<le> 2 ^ 32" "unat (rt_log_buf c) + length cs < 2 ^ 32"
    and "console_device x = Some i" "dv_ref_count (dev x i) \<noteq> 0" "op_write (drv c i) = Some w"
  shows "\<exists>m. rt_kprintf c fmt args x =
      rbind (w 0 (rt_log_buf c) (of_nat (min (length cs) 1023))
          (upd_dev i (\<lambda>d. d\<lparr>dv_open_flag := dv_open_flag d OR RT_DEVICE_FLAG_STREAM\<rparr>) (x\<lparr>kst := (kst x)\<lparr>mem := m\<rparr>\<rparr>)))
        (\<lambda>(r, y). case console_device y of None \<Rightarrow> Fault Null_Pointer
           | Some j \<Rightarrow> Ok (upd_dev j (\<lambda>d. d\<lparr>dv_open_flag := dv_open_flag (dev x i)\<rparr>) y)) \<and>
    (\<forall>k < min (length cs) 1022. m (rt_log_buf c + of_nat k) = cs ! k) \<and> m (rt_log_buf c + of_nat (min (length cs) 1022)) = 0"
  unfolding kprintf_prints [OF assms]
  by (intro exI [of _ "printed (rt_log_buf c) 1023 cs (mem (kst x))"]) (auto simp: printed_def unat_of_nat take_bit_nat_eq_self min_def)

theorem kprintf_writes_line_witness:
  "\<exists>m. rt_kprintf (ex_driver 0) (cstr_of [104, 105]) [] (ex_dev 1 0 0xb) =
      rbind ((\<lambda>pos buffer len x. Ok (len, x)) (0 :: u32) (rt_log_buf (ex_driver 0)) (of_nat (min (length [104, 105 :: u8]) 1023))
          (upd_dev 0 (\<lambda>d. d\<lparr>dv_open_flag := dv_open_flag d OR RT_DEVICE_FLAG_STREAM\<rparr>)
            ((ex_dev 1 0 0xb)\<lparr>kst := (kst (ex_dev 1 0 0xb))\<lparr>mem := m\<rparr>\<rparr>)))
        (\<lambda>(r :: u32, y). case console_device y of None \<Rightarrow> Fault Null_Pointer
           | Some j \<Rightarrow> Ok (upd_dev j (\<lambda>d. d\<lparr>dv_open_flag := dv_open_flag (dev (ex_dev 1 0 0xb) 0)\<rparr>) y)) \<and>
    (\<forall>k < min (length [104, 105 :: u8]) 1022. m (rt_log_buf (ex_driver 0) + of_nat k) = [104, 105] ! k) \<and>
    m (rt_log_buf (ex_driver 0) + of_nat (min (length [104, 105 :: u8]) 1022)) = 0"
  by (rule kprintf_writes_line [OF prints_literal]) (simp_all add: ex_driver_def ex_dev_def)

end
