(* ===== verification/Spec2Isabelle.thy ===== *)
theory Spec2Isabelle
  imports RT_Props_Kernel RT_Props_IPC RT_Props_Queues RT_Props_Memory RT_Props_Services RT_Props_Devices
begin

text \<open>
  A model of RT-Thread 3.0.5 as it is configured for the TM4C1294 flight controller
  (\<^verbatim>\<open>src/bsp/tm4c129x/rtconfig.h\<close>: names of 16 bytes, alignment 4, 256 priorities, 100 ticks per second,
  assertions on, soft timers, no modules, no signals): the kernel under \<^verbatim>\<open>src/src\<close> and \<^verbatim>\<open>src/include\<close>, the
  initial stack frame of \<^verbatim>\<open>src/libcpu/arm/cortex-m4\<close>, and the services of \<^verbatim>\<open>src/components/drivers\<close> that are
  built on it. The flight controller itself (\<^verbatim>\<open>src/ardupilot\<close>) is a client of these interfaces.

  \<^bold>\<open>The parts and how they interact.\<close> Every kernel object is on the list of its class (object.c). A thread
  is on the ready ring of its priority, on the waiting list of one object, on the list of defunct
  threads, or on no list; the scheduler runs the first thread of the most urgent ring (scheduler.c).
  A thread that waits with a limit has its own timer on the list of hard timers; the tick interrupt
  (clock.c) counts down the time slice and fires the timers that are due (timer.c), and the timer of
  a thread makes it ready with \<^verbatim>\<open>-RT_ETIMEOUT\<close> (thread.c). Semaphores, mutexes, events, mailboxes,
  message queues (ipc.c) and memory pools (mempool.c) suspend and resume threads through the same
  helpers. The idle thread (idle.c) reclaims threads that ended, into the system heap (mem.c).

  \<^bold>\<open>The state.\<close> \<open>kstate\<close> (theory RT_State) has a component per kind of structure, from identifiers to
  records with the fields of the C structure, the static variables under their C names, and one store
  \<open>links\<close> for all embedded list nodes and list heads. The list functions of rtservice.h work on that
  store (theory RT_List), so that a node that is still linked elsewhere, or a head taken for a
  thread, has the effect it has in C. Integers keep their width; \<open>rt_base_t\<close> values that the code
  only compares are \<open>int\<close>.

  \<^bold>\<open>Outcomes.\<close> A function returns \<open>Ok\<close>, or \<open>Fault\<close> when an assertion fails, a null pointer is followed or an
  array is left. A loop of the code is structural recursion where a count bounds it and a
  \<open>partial_function\<close> otherwise, whose value \<open>None\<close> means that it does not end: \<open>loop_res\<close> turns that
  into a fault, and the theorems that state an \<open>Ok\<close> result show that it ends. There is no fuel
  anywhere. A call that blocks ends at its \<^verbatim>\<open>rt_schedule\<close> with the result \<open>None\<close> (not returned yet) and
  leaves in \<open>cont\<close> what the thread has still to do; \<open>..._resume\<close> is the code after \<^verbatim>\<open>rt_schedule\<close>. Code
  between disabling and enabling interrupts is one step. Memory allocation inside kernel calls, timeout
  functions of application timers, cleanup functions of threads and the functions of device drivers are
  parameters.

  \<^bold>\<open>Theories, sources, and what is shown.\<close>
  \<^item> RT_Prelude: result type, integer types, generic lemmas. RT_Contracts: locales \<open>fifo\<close>, \<open>fifo_service\<close>
    and \<open>block_pool\<close> with what follows from them for all sequences of operations; they are interpreted in
    RT_Mailbox, RT_MsgQueue, RT_MemPool and RT_RingBuffer on the code's operations. Locale
    \<open>list_store\<close> of RT_List is the contract of the link store.
  \<^item> RT_List: rtservice.h. The pointer operations do to rings of links what list operations do to lists.
  \<^item> RT_KService, RT_Strings, RT_Memory: kservice.c. \<^verbatim>\<open>__rt_ffs\<close> finds the lowest set bit; the string
    functions agree with functions on byte sequences; the word-wise \<^verbatim>\<open>rt_memset\<close>, \<^verbatim>\<open>rt_memcpy\<close> and \<^verbatim>\<open>rt_memmove\<close>
    agree with one-line specifications, on addresses that wrap.
  \<^item> RT_Object, RT_Scheduler, RT_Timer, RT_Thread, RT_Tick: object.c, scheduler.c, timer.c, thread.c with
    cpuport.c, and clock.c, irq.c, idle.c. RT_Kernel_Inv has the invariant \<open>kinv\<close>: lists, ready bits, thread
    states and timers agree; every thread, timer and scheduler operation keeps it (RT_Kernel_Inv,
    RT_Thread_Props, which also has the layout \<open>first_frame\<close> of the frame a thread starts with). RT_Tick_Props and RT_Tick_Run show that a tick ends, fires exactly the timers
    that are due and keeps the timer list sorted across the wrap of the tick counter, and what a
    run of ticks does to a thread that sleeps or waits.
  \<^item> RT_IPC, RT_Semaphore, RT_Mutex, RT_Event, RT_Mailbox, RT_MsgQueue: ipc.c. \<open>blocked_on\<close> and \<open>woken\<close> describe
    what suspending on and resuming from a waiting list do; on them rest the refinement of semaphores
    to counters with queues, priority inheritance, the delivery of events, first-in first-out
    delivery for any sequence of calls, and the block invariant of message queues under every
    interleaving of their critical sections (\<open>mq_step\<close>, \<open>mq_reach\<close>).
  \<^item> RT_MemPool: mempool.c. Blocks are neither lost nor duplicated in any state that the pool's calls and the rest of
    the kernel reach (\<open>mp_reach\<close>), calls that wait and time out included.
  \<^item> RT_Heap, RT_Heap_Inv, RT_Heap_Props: mem.c. The blocks tile the heap, no two free blocks touch, no two live
    blocks overlap, after any sequence of calls on live pointers (\<open>heap_reach\<close>). That no free block is below \<^verbatim>\<open>lfree\<close>
    (\<open>lfree_low\<close>) is kept by allocating, but not by a shrinking \<^verbatim>\<open>rt_realloc\<close>. What runs under \<^verbatim>\<open>heap_sem\<close> is one
    step; the growing \<^verbatim>\<open>rt_realloc\<close>, which releases it in between, is modelled without other callers in between.
  \<^item> RT_RingBuffer: ringbuffer.c. Block and byte operations do to the contents what lists do.
  \<^item> RT_Print: the printf family of kservice.c. It ends, and an output shorter than the memory above the
    buffer stays inside the buffer, terminated by a zero; what \<^verbatim>\<open>%u\<close>
    prints is read back by \<^verbatim>\<open>skip_atoi\<close>, up to the range of its \<^verbatim>\<open>int\<close> accumulator.
  \<^item> RT_DataQueue, RT_WorkQueue: completion.c, dataqueue.c and workqueue.c. Waiting and waking go through the same
    lemmas as in ipc.c; the thread of a work queue is a step function over its points of preemption.
  \<^item> RT_Alloc: the functions of kservice.c on top of the heap. Aligned blocks are aligned, lie inside blocks of the heap
    and give them back; a duplicated string has the characters of the original.
  \<^item> RT_Device: device.c and the console of kservice.c, on the state \<open>dstate\<close> (devices, console device, kernel). Devices
    are found by the name they were registered with, opening and closing refine a counter (\<open>count_ops\<close>), and
    \<^verbatim>\<open>rt_kprintf\<close> hands the formatted line to the driver of the console device.
  \<^item> RT_Example: concrete states of the kernel on which the hypotheses of the theorems hold together.
  \<^item> RT_Props_Kernel, RT_Props_IPC, RT_Props_Queues, RT_Props_Memory, RT_Props_Services, RT_Props_Devices and this theory: the main
    properties, each with an instance on a concrete state where it has hypotheses. Some of them state a defect: the
    block that a shrinking \<^verbatim>\<open>rt_realloc\<close> hides from \<^verbatim>\<open>rt_malloc\<close>, the lost wake-up of work queues, the stand-alone device whose
    close function failed, and the zero byte sent with a cut console line. The theories of the components
    have lemmas on others: the count of waiters of a memory pool after a timeout, the data lost by
    \<^verbatim>\<open>rt_ringbuffer_put_force\<close>, the index wrap of data queues, the cancelled item of a work queue, and \<^verbatim>\<open>%o\<close>.

  \<^bold>\<open>Bounds.\<close> Waiting times are below \<open>RT_TICK_MAX / 2\<close>, as \<^verbatim>\<open>rt_timer_start\<close> asserts; deadlines of listed timers
  are within half the range of the tick counter, which that bound maintains. A heap has room for
  one header and the smallest block. Messages of the first-in first-out property have the size of the
  queue, since a shorter message leaves the rest of its block as it was.

  \<^bold>\<open>Not modelled.\<close> The register switch in assembly (a context switch is the change of
  \<^verbatim>\<open>rt_current_thread\<close>); hooks, which are not installed; the warning of a stack that is close to its end; the version banner and the text of a failed assertion; the
  shell, and the start-up tables that the linker fills; memheap.c, a second allocator that only the RAM file system calls; slab.c, module.c and signal.c, which the configuration leaves out; the drivers
  of the board, the file system, lwIP and ArduPilot, which are register accesses, third-party code
  and floating-point application code on top of the interfaces modelled here.
\<close>

section \<open>Objects by name\<close>

text \<open>
  C40. An object that \<^verbatim>\<open>rt_object_init\<close> enters into the container of its class is what \<^verbatim>\<open>rt_object_find\<close> returns for that name and
  class, also when an older object of the class has the same name, and the scheduler that
  \<^verbatim>\<open>rt_object_find\<close> unlocks on its way out keeps the kernel's invariant.
\<close>

theorem object_init_find:
  assumes "kinv s F" "kgood s" "ready s u" "rt_interrupt_nest s = 0" "rt_scheduler_lock_nest s = 0"
    and "c \<noteq> Class_Module" "c \<noteq> Class_Unknown" "detached F (Obj_node ob)" "F (Object_list c) = map Obj_node obs"
  shows "\<exists>s1 s2. rt_object_init ob c name s = Ok s1 \<and> rt_object_find (Some name) (class_code c) s1 = Ok (Some ob, s2) \<and>
    kinv s2 (F(Object_list c := map Obj_node (ob # obs)))"
proof -
  define F1 where "F1 = F(Object_list c := map Obj_node (ob # obs))"
  obtain s1 where s1: "rt_object_init ob c name s = Ok s1" using assms(6,7) by (simp add: rt_object_init_def Let_def)
  note o1 = kinv_object_init [OF assms(1,8) s1]
  have f1: "rt_interrupt_nest s1 = 0" "rt_scheduler_lock_nest s1 = 0" "same_upto (ob_name (object s1 ob)) name RT_NAME_MAX"
    using s1 assms(4,5) strncpy_same by (auto simp: rt_object_init_def Let_def split: option.splits)
  have "kgood s1" by (rule kgood_cong [OF assms(2) object_init_current [OF s1]]) (simp_all add: o1(3-5))
  moreover have "kinv s1 F1" using o1(1) assms(9) by (simp add: F1_def)
  moreover have "ready s1 u" using assms(3) o1(3) by simp
  ultimately obtain s2 where "rt_object_find (Some name) (class_code c) s1 =
      Ok (find (\<lambda>x. same_upto (ob_name (object s1 x)) name RT_NAME_MAX) (ob # obs), s2)" "kinv s2 F1"
    using object_find_ok [of s1 F1 u c "ob # obs" name] f1(1,2) assms(6,7) by (auto simp: F1_def)
  then show ?thesis using s1 f1(3) by (auto simp: F1_def)
qed

theorem object_init_find_witness:
  "\<exists>s1 s2. rt_object_init (O_ipc (Sem 0)) Class_Semaphore (\<lambda>i. if i < 3 then 0x61 else 0) ex_run = Ok s1 \<and>
    rt_object_find (Some (\<lambda>i. if i < 3 then 0x61 else 0)) (class_code Class_Semaphore) s1 = Ok (Some (O_ipc (Sem 0)), s2) \<and>
    kinv s2 (ex_lists(Object_list Class_Semaphore := map Obj_node (O_ipc (Sem 0) # [])))"
  by (rule object_init_find [OF kinv_ex_run ex_run_kgood, of 1]) (simp_all add: ex_lists_def)

end
